(* ===== verification/Prelude.thy ===== *)
theory Prelude
  imports Main "HOL-Library.Word" "HOL-Library.AList" "HOL-Library.Multiset"
begin

unbundle bit_operations_syntax

text \<open>
  The shared vocabulary of the development: the machine types of the Rust sources, the
  saturating and checked integer operations of its standard library, 32-byte arrays and their
  big-endian byte view, association lists standing for the hash maps whose length and iteration
  the code uses, and the generic scheme (a locale) by which a step relation keeps an invariant.
\<close>

section \<open>Types\<close>

text \<open>
  A Rust \<open>[u8; 32]\<close> is a 256-bit word read big-endian, so that the order of words is the
  lexicographic order of the arrays and word XOR is the XOR distance. Times on the monotonic
  clock and durations are nanoseconds; \<open>usize\<close> counters are natural numbers, the bounds of the
  fixed-width ones are written out where the code can reach them.
\<close>

type_synonym xor_name = "256 word"
type_synonym peer_id = "256 word"
type_synonym hash32 = "256 word"
type_synonym u8 = "8 word"
type_synonym bytes = "8 word list"
type_synonym instant = nat
type_synonym duration = nat

named_theorems rust_arith \<open>definitions of the Rust integer operations\<close>
named_theorems alist_simps \<open>association lists as finite maps\<close>

section \<open>Durations and integers of the Rust standard library\<close>

definition from_secs :: "nat \<Rightarrow> duration" where
  "from_secs s = s * 10 ^ 9"

definition from_millis :: "nat \<Rightarrow> duration" where
  "from_millis ms = ms * 10 ^ 6"

definition u32_max :: nat where "u32_max = 2 ^ 32 - 1"

definition u64_max :: nat where "u64_max = 2 ^ 64 - 1"

text \<open>\<open>Duration::MAX\<close>: \<open>u64::MAX\<close> seconds and 999 999 999 nanoseconds.\<close>

definition duration_max :: duration where
  "duration_max = u64_max * 10 ^ 9 + 999999999"

definition sat_add64 :: "nat \<Rightarrow> nat \<Rightarrow> nat" where
  [rust_arith]: "sat_add64 a b = min (a + b) u64_max"

definition sat_mul64 :: "nat \<Rightarrow> nat \<Rightarrow> nat" where
  [rust_arith]: "sat_mul64 a b = min (a * b) u64_max"

definition sat_add_duration :: "duration \<Rightarrow> duration \<Rightarrow> duration" where
  [rust_arith]: "sat_add_duration a b = min (a + b) duration_max"

definition u32_try_from :: "nat \<Rightarrow> nat option" where
  [rust_arith]: "u32_try_from n = (if n \<le> u32_max then Some n else None)"

definition unwrap_or :: "'a option \<Rightarrow> 'a \<Rightarrow> 'a" where
  "unwrap_or x d = (case x of None \<Rightarrow> d | Some v \<Rightarrow> v)"

definition is_some_and :: "'a option \<Rightarrow> ('a \<Rightarrow> bool) \<Rightarrow> bool" where
  "is_some_and x P = (case x of None \<Rightarrow> False | Some v \<Rightarrow> P v)"

text \<open>
  \<open>n.next_power_of_two()\<close> is \<open>2 ^ clog2 n\<close>: \<open>clog2\<close> is the exponent of the least power of
  two that is at least \<open>n\<close>; the checked form fails where the power does not fit the type.
\<close>

fun clog2 :: "nat \<Rightarrow> nat" where
  "clog2 n = (if n \<le> 1 then 0 else Suc (clog2 ((n + 1) div 2)))"

declare clog2.simps [simp del]

definition checked_next_power_of_two32 :: "nat \<Rightarrow> nat option" where
  "checked_next_power_of_two32 n = (let p = 2 ^ clog2 n in if p \<le> u32_max then Some p else None)"

fun trailing_zeros32 :: "nat \<Rightarrow> nat" where
  "trailing_zeros32 n =
     (if n = 0 then 32 else if odd n then 0 else Suc (trailing_zeros32 (n div 2)))"

declare trailing_zeros32.simps [simp del]

section \<open>Lemmas on options and integers\<close>

lemma unwrap_or_simps [simp]: "unwrap_or None d = d" "unwrap_or (Some v) d = v"
  by (simp_all add: unwrap_or_def)

lemma is_some_and_simps [simp]: "is_some_and None P = False" "is_some_and (Some v) P = P v"
  by (simp_all add: is_some_and_def)

lemma is_some_and_iff: "is_some_and x P \<longleftrightarrow> (\<exists>v. x = Some v \<and> P v)"
  by (cases x) auto

lemma clog2_bounds: "0 < n \<Longrightarrow> n \<le> 2 ^ clog2 n \<and> 2 ^ clog2 n < 2 * n"
proof (induction n rule: clog2.induct)
  case (1 n)
  show ?case
  proof (cases "n \<le> 1")
    case True
    with "1.prems" show ?thesis by (simp add: clog2.simps [of n])
  next
    case False
    let ?m = "(n + 1) div 2"
    from False have IH: "?m \<le> 2 ^ clog2 ?m \<and> 2 ^ clog2 ?m < 2 * ?m"
      using "1.IH" by simp
    from False have "clog2 n = Suc (clog2 ?m)" by (simp add: clog2.simps [of n])
    moreover have "2 ^ clog2 ?m < n"
    proof (cases "even n")
      case True
      with IH show ?thesis by auto
    next
      case odd: False
      with IH have "2 ^ clog2 ?m \<le> n" by auto
      moreover from IH False odd have "clog2 ?m \<noteq> 0" by (cases "clog2 ?m") auto
      then have "even ((2::nat) ^ clog2 ?m)" by simp
      with odd have "2 ^ clog2 ?m \<noteq> n" by metis
      ultimately show ?thesis by simp
    qed
    ultimately show ?thesis using IH by auto
  qed
qed

lemma clog2_1 [simp]: "clog2 1 = 0" "clog2 (Suc 0) = 0" "clog2 0 = 0"
  by (simp_all add: clog2.simps)

lemma clog2_le: "0 < n \<Longrightarrow> n \<le> 2 ^ d \<Longrightarrow> clog2 n \<le> d"
proof (rule ccontr)
  assume n: "0 < n" "n \<le> 2 ^ d" and "\<not> clog2 n \<le> d"
  then have "(2::nat) ^ Suc d \<le> 2 ^ clog2 n"
    by (intro power_increasing) auto
  with clog2_bounds [of n] n show False by simp
qed

lemma trailing_zeros32_pow2 [simp]: "trailing_zeros32 (2 ^ k) = k"
proof (induction k)
  case 0
  then show ?case by (simp add: trailing_zeros32.simps)
next
  case (Suc k)
  then show ?case by (subst trailing_zeros32.simps) simp
qed

section \<open>Big-endian bytes of a 32-byte array\<close>

definition bytes_of32 :: "256 word \<Rightarrow> bytes" where
  "bytes_of32 w = map (\<lambda>i. ucast (drop_bit (8 * (31 - i)) w)) [0..<32]"

lemma length_bytes_of32 [simp]: "length (bytes_of32 w) = 32"
  by (simp add: bytes_of32_def)

lemma bit_bytes_of32:
  "i < 32 \<Longrightarrow> j < 8 \<Longrightarrow> bit (bytes_of32 w ! i) j = bit w (8 * (31 - i) + j)"
  by (simp add: bytes_of32_def bit_ucast_iff bit_drop_bit_eq)

lemma bytes_of32_inject [simp]: "bytes_of32 v = bytes_of32 w \<longleftrightarrow> v = w"
proof
  assume eq: "bytes_of32 v = bytes_of32 w"
  show "v = w"
  proof (rule bit_word_eqI)
    fix n assume "n < LENGTH(256)"
    then have n: "n div 8 < 32" "n mod 8 < 8" by simp_all
    then have i: "31 - n div 8 < 32" "8 * (31 - (31 - n div 8)) + n mod 8 = n" by auto
    from bit_bytes_of32 [OF i(1) n(2), of v] bit_bytes_of32 [OF i(1) n(2), of w] eq i(2)
    show "bit v n = bit w n" by simp
  qed
qed simp

lemma append_bytes_of32_inject [simp]:
  "bytes_of32 v @ xs = bytes_of32 w @ ys \<longleftrightarrow> v = w \<and> xs = ys"
  by (simp add: append_eq_append_conv)

section \<open>Association lists as hash maps\<close>

text \<open>
  The code reads the length of some hash maps and iterates over them. Those are association
  lists without duplicate keys; \<open>AList.update\<close> is \<open>insert\<close>, \<open>AList.delete\<close> is \<open>remove\<close>
  and \<open>map_of\<close> is \<open>get\<close>.
\<close>

abbreviation keys :: "('k \<times> 'v) list \<Rightarrow> 'k set" where
  "keys m \<equiv> fst ` set m"

abbreviation dkeys :: "('k \<times> 'v) list \<Rightarrow> bool" where
  "dkeys m \<equiv> distinct (map fst m)"

lemma length_update_fresh [alist_simps]:
  "k \<notin> keys m \<Longrightarrow> length (AList.update k v m) = Suc (length m)"
  by (induction m) auto

lemma length_update_present [alist_simps]:
  "k \<in> keys m \<Longrightarrow> length (AList.update k v m) = length m"
  by (induction m) auto

lemma update_fresh: "k \<notin> keys m \<Longrightarrow> AList.update k v m = m @ [(k, v)]"
  by (induction m) auto

lemma keys_update [alist_simps]: "keys (AList.update k v m) = insert k (keys m)"
  by (induction m) auto

lemma keys_delete [alist_simps]: "keys (AList.delete k m) = keys m - {k}"
  by (auto simp: AList.delete_eq image_iff)

lemma set_delete_subset: "set (AList.delete k m) \<subseteq> set m"
  by (auto simp: AList.delete_eq)

lemma set_update_subset: "set (AList.update k v m) \<subseteq> insert (k, v) (set m)"
  by (induction m) auto

lemma dkeys_delete [alist_simps]: "dkeys m \<Longrightarrow> dkeys (AList.delete k m)"
  by (rule distinct_delete)

lemma dkeys_filter [alist_simps]: "dkeys m \<Longrightarrow> dkeys (filter P m)"
  by (simp add: distinct_map inj_on_subset [of _ "set m"] subset_iff)

lemma map_of_eq_None_keys [alist_simps]: "map_of m k = None \<longleftrightarrow> k \<notin> keys m"
  by (simp add: map_of_eq_None_iff)

lemma map_of_keysD: "map_of m k = Some v \<Longrightarrow> k \<in> keys m"
  by (metis domI dom_map_of_conv_image_fst)

lemma map_of_delete_other [alist_simps]:
  "map_of (AList.delete k m) j = (if j = k then None else map_of m j)"
  by (simp add: delete_conv')

lemma map_of_filter_dkeys:
  "dkeys m \<Longrightarrow> map_of (filter (\<lambda>(k, v). P k v) m) k =
     (case map_of m k of None \<Rightarrow> None | Some v \<Rightarrow> if P k v then Some v else None)"
  by (induction m) (auto simp: image_iff map_of_eq_None_iff split: option.splits dest: weak_map_of_SomeI)

section \<open>Disjointness of three sets\<close>

definition disjoint3 :: "'a set \<Rightarrow> 'a set \<Rightarrow> 'a set \<Rightarrow> bool" where
  "disjoint3 A B C \<longleftrightarrow> A \<inter> B = {} \<and> A \<inter> C = {} \<and> B \<inter> C = {}"

lemma disjoint3_empty [simp]: "disjoint3 {} {} {}"
  by (simp add: disjoint3_def)

lemma disjoint3_insert [simp]:
  "disjoint3 (insert x A) B C \<longleftrightarrow> x \<notin> B \<and> x \<notin> C \<and> disjoint3 A B C"
  "disjoint3 A (insert x B) C \<longleftrightarrow> x \<notin> A \<and> x \<notin> C \<and> disjoint3 A B C"
  "disjoint3 A B (insert x C) \<longleftrightarrow> x \<notin> A \<and> x \<notin> B \<and> disjoint3 A B C"
  by (auto simp: disjoint3_def)

lemma disjoint3_mono:
  "disjoint3 A B C \<Longrightarrow> A' \<subseteq> A \<Longrightarrow> B' \<subseteq> B \<Longrightarrow> C' \<subseteq> C \<Longrightarrow> disjoint3 A' B' C'"
  by (auto simp: disjoint3_def)

lemma disjoint3D:
  "disjoint3 A B C \<Longrightarrow> x \<in> A \<Longrightarrow> x \<notin> B \<and> x \<notin> C"
  "disjoint3 A B C \<Longrightarrow> x \<in> B \<Longrightarrow> x \<notin> A \<and> x \<notin> C"
  "disjoint3 A B C \<Longrightarrow> x \<in> C \<Longrightarrow> x \<notin> A \<and> x \<notin> B"
  by (auto simp: disjoint3_def)

section \<open>Invariants of step relations\<close>

text \<open>
  A component with several operations is a relation \<open>step\<close> on its state. Given an invariant
  that holds at the start and that every step keeps, it holds in every reachable state.
\<close>

inductive reachable_from :: "('s \<Rightarrow> 's \<Rightarrow> bool) \<Rightarrow> 's \<Rightarrow> 's \<Rightarrow> bool"
  for step :: "'s \<Rightarrow> 's \<Rightarrow> bool" and s0 :: 's where
  start: "reachable_from step s0 s0"
| step: "reachable_from step s0 s \<Longrightarrow> step s t \<Longrightarrow> reachable_from step s0 t"

locale invariant_system =
  fixes step :: "'s \<Rightarrow> 's \<Rightarrow> bool"
    and s0 :: 's
    and inv :: "'s \<Rightarrow> bool"
  assumes inv_start: "inv s0"
    and inv_step: "inv s \<Longrightarrow> step s t \<Longrightarrow> inv t"
begin

lemma inv_reachable: "reachable_from step s0 s \<Longrightarrow> inv s"
  by (induction rule: reachable_from.induct) (auto intro: inv_start inv_step)

end

end
