(* ===== verification/Types.thy ===== *)
theory Types
  imports Prelude
begin

text \<open>
  The data of the replication pipeline (src/src/replication/types.rs): the states of the
  verification machine, the entries of the pending table, the fetch candidates with their
  reversed order, and the evidence collected in a verification round.
\<close>

section \<open>Verification state machine and pending entries\<close>

datatype verification_state =
    OfferReceived | PendingVerify | StateQuorumVerified | StatePaidListVerified
  | QueuedForFetch | Fetching | StateStored | FetchRetryable | FetchAbandoned
  | StateQuorumFailed | StateQuorumInconclusive | QuorumAbandoned | StateIdle

datatype hint_pipeline = Replica | PaidOnly

record verification_entry =
  ve_state :: verification_state
  ve_pipeline :: hint_pipeline
  verified_sources :: "peer_id list"
  tried_sources :: "peer_id set"
  created_at :: instant
  hint_sender :: peer_id

section \<open>Fetch candidates\<close>

record fetch_candidate =
  fc_key :: xor_name
  fc_distance :: xor_name
  fc_sources :: "peer_id list"

datatype ordering = Less | Equal | Greater

definition cmp :: "'a :: linorder \<Rightarrow> 'a \<Rightarrow> ordering" where
  "cmp a b = (if a < b then Less else if a = b then Equal else Greater)"

definition then_with :: "ordering \<Rightarrow> ordering \<Rightarrow> ordering" where
  "then_with o1 o2 = (case o1 of Equal \<Rightarrow> o2 | _ \<Rightarrow> o1)"

definition fc_eq :: "fetch_candidate \<Rightarrow> fetch_candidate \<Rightarrow> bool" where
  "fc_eq self other \<longleftrightarrow> fc_distance self = fc_distance other \<and> fc_key self = fc_key other"

definition fc_cmp :: "fetch_candidate \<Rightarrow> fetch_candidate \<Rightarrow> ordering" where
  "fc_cmp self other =
     then_with (cmp (fc_distance other) (fc_distance self)) (cmp (fc_key self) (fc_key other))"

definition fc_le :: "fetch_candidate \<Rightarrow> fetch_candidate \<Rightarrow> bool" where
  "fc_le a b \<longleftrightarrow> fc_cmp a b \<noteq> Greater"

section \<open>Evidence of a verification round\<close>

datatype presence_evidence = Present | Absent | PresenceUnresolved

datatype paid_list_evidence = Confirmed | NotFound | PaidUnresolved

record key_verification_evidence =
  presence :: "peer_id \<rightharpoonup> presence_evidence"
  paid_list_ev :: "peer_id \<rightharpoonup> paid_list_evidence"

section \<open>Audit failures\<close>

datatype audit_failure_reason =
  FailTimeout | FailMalformedResponse | FailDigestMismatch | FailKeyAbsent | FailRejected

record audit_failure_summary =
  challenged_keys :: nat
  failed_keys :: nat
  absent_keys :: nat
  digest_mismatch_keys :: nat

section \<open>The order of fetch candidates\<close>

lemma cmp_simps [simp]:
  "cmp a b = Less \<longleftrightarrow> a < b" "cmp a b = Equal \<longleftrightarrow> a = b" "cmp a b = Greater \<longleftrightarrow> b < a"
  by (auto simp: cmp_def)

lemma fc_cmp_Equal_iff: "fc_cmp a b = Equal \<longleftrightarrow> fc_eq a b"
  by (auto simp: fc_cmp_def fc_eq_def then_with_def split: ordering.splits)

lemma fc_le_iff:
  "fc_le a b \<longleftrightarrow> fc_distance b < fc_distance a \<or>
     fc_distance b = fc_distance a \<and> fc_key a \<le> fc_key b"
  by (auto simp: fc_le_def fc_cmp_def then_with_def split: ordering.splits)

lemma fc_le_refl [simp]: "fc_le a a"
  by (simp add: fc_le_iff)

lemma fc_le_trans: "fc_le a b \<Longrightarrow> fc_le b c \<Longrightarrow> fc_le a c"
  by (auto simp: fc_le_iff)

lemma fc_le_linear: "fc_le a b \<or> fc_le b a"
  by (auto simp: fc_le_iff)

lemma fc_cmp_antisym: "fc_cmp a b = Less \<longleftrightarrow> fc_cmp b a = Greater"
  by (auto simp: fc_cmp_def then_with_def split: ordering.splits)

end
