(* ===== verification/Scheduling.thy ===== *)
theory Scheduling
  imports Types
begin

text \<open>
  The queue manager of the replication pipeline (src/src/replication/scheduling.rs) and the fetch
  worker's use of it (src/src/replication/mod.rs): three stages \<open>pending_verify\<close>,
  \<open>fetch_queue\<close> and \<open>in_flight_fetch\<close>, the bounds on them and the per-sender quota. The
  invariant \<open>queues_inv\<close> says that a key is in one stage at most, that the bounds hold and that
  the counters move in lockstep with the pending table.
\<close>

section \<open>The priority queue interface\<close>

text \<open>
  \<open>BinaryHeap\<close> of the standard library: \<open>pop\<close> removes a greatest element. The locale states
  what the queue manager relies on; the model of the heap is a list searched for its maximum.
\<close>

locale max_heap =
  fixes le :: "'a \<Rightarrow> 'a \<Rightarrow> bool"
    and empty :: 'h
    and push :: "'a \<Rightarrow> 'h \<Rightarrow> 'h"
    and pop :: "'h \<Rightarrow> ('a \<times> 'h) option"
    and elems :: "'h \<Rightarrow> 'a multiset"
  assumes elems_empty: "elems empty = {#}"
    and elems_push: "elems (push x h) = add_mset x (elems h)"
    and pop_None: "pop h = None \<longleftrightarrow> elems h = {#}"
    and pop_elems: "pop h = Some (x, h') \<Longrightarrow> elems h = add_mset x (elems h')"
    and pop_max: "pop h = Some (x, h') \<Longrightarrow> y \<in># elems h \<Longrightarrow> le y x"
begin

lemma pop_size: "pop h = Some (x, h') \<Longrightarrow> size (elems h) = Suc (size (elems h'))"
  by (simp add: pop_elems)

lemma pop_member: "pop h = Some (x, h') \<Longrightarrow> x \<in># elems h"
  by (simp add: pop_elems)

lemma pop_descending: "pop h = Some (x, h') \<Longrightarrow> pop h' = Some (y, h'') \<Longrightarrow> le y x"
  by (rule pop_max) (auto simp: pop_elems)

lemma pop_nonempty: "elems h \<noteq> {#} \<Longrightarrow> \<exists>x h'. pop h = Some (x, h')"
  using pop_None by (cases "pop h") auto

end

fun greatest :: "('a \<Rightarrow> 'a \<Rightarrow> bool) \<Rightarrow> 'a \<Rightarrow> 'a list \<Rightarrow> 'a" where
  "greatest le m [] = m"
| "greatest le m (x # xs) = greatest le (if le x m then m else x) xs"

definition heap_push :: "fetch_candidate \<Rightarrow> fetch_candidate list \<Rightarrow> fetch_candidate list" where
  "heap_push x h = x # h"

definition heap_pop ::
  "fetch_candidate list \<Rightarrow> (fetch_candidate \<times> fetch_candidate list) option" where
  "heap_pop h = (case h of [] \<Rightarrow> None
     | x # xs \<Rightarrow> let m = greatest fc_le x xs in Some (m, remove1 m h))"

lemma greatest_in: "greatest le m xs \<in> insert m (set xs)"
  by (induction xs arbitrary: m) auto

lemma greatest_max:
  "y \<in> insert m (set xs) \<Longrightarrow> fc_le y (greatest fc_le m xs)"
proof (induction xs arbitrary: m y)
  case Nil
  then show ?case by simp
next
  case (Cons x xs)
  let ?n = "if fc_le x m then m else x"
  have "fc_le m ?n" "fc_le x ?n" using fc_le_linear by auto
  moreover have "fc_le ?n (greatest fc_le ?n xs)" by (rule Cons.IH) simp
  ultimately show ?case using Cons.prems Cons.IH [of y ?n] by (auto intro: fc_le_trans)
qed

interpretation heap: max_heap fc_le "[]" heap_push heap_pop mset
proof unfold_locales
  fix h h' :: "fetch_candidate list" and x y :: fetch_candidate
  show "mset [] = {#}" by simp
  show "mset (heap_push x h) = add_mset x (mset h)" by (simp add: heap_push_def)
  show "heap_pop h = None \<longleftrightarrow> mset h = {#}"
    by (simp add: heap_pop_def Let_def split: list.splits)
  assume pop: "heap_pop h = Some (x, h')"
  then have x: "x \<in> set h" "h' = remove1 x h"
    using greatest_in [of fc_le "hd h" "tl h"]
    by (auto simp: heap_pop_def Let_def split: list.splits)
  then show "mset h = add_mset x (mset h')" by simp
  assume "y \<in># mset h"
  with pop show "fc_le y x"
    by (auto simp: heap_pop_def Let_def greatest_max split: list.splits)
qed

section \<open>State\<close>

definition MAX_PENDING_VERIFY :: nat where "MAX_PENDING_VERIFY = 131072"

definition MAX_PENDING_VERIFY_PER_PEER :: nat where "MAX_PENDING_VERIFY_PER_PEER = 8192"

definition MAX_FETCH_QUEUE :: nat where "MAX_FETCH_QUEUE = 131072"

datatype admission_result = Admitted | AlreadyPresent | CapacityRejected

record in_flight_entry =
  if_key :: xor_name
  if_source :: peer_id
  started_at :: instant
  all_sources :: "peer_id list"
  tried :: "peer_id set"

record replication_queues =
  pending_verify :: "(xor_name \<times> verification_entry) list"
  fetch_queue :: "fetch_candidate list"
  fetch_queue_keys :: "xor_name set"
  in_flight_fetch :: "(xor_name \<times> in_flight_entry) list"
  pending_per_sender :: "peer_id \<rightharpoonup> nat"

definition queues_new :: replication_queues where
  "queues_new = \<lparr>pending_verify = [], fetch_queue = [], fetch_queue_keys = {},
     in_flight_fetch = [], pending_per_sender = Map.empty\<rparr>"

section \<open>Operations on the pending table\<close>

definition contains_key :: "replication_queues \<Rightarrow> xor_name \<Rightarrow> bool" where
  "contains_key q key \<longleftrightarrow>
     map_of (pending_verify q) key \<noteq> None \<or> key \<in> fetch_queue_keys q \<or>
     map_of (in_flight_fetch q) key \<noteq> None"

definition add_pending_verify ::
  "replication_queues \<Rightarrow> xor_name \<Rightarrow> verification_entry \<Rightarrow>
     admission_result \<times> replication_queues" where
  "add_pending_verify q key entry =
     (if contains_key q key then (AlreadyPresent, q)
      else if length (pending_verify q) \<ge> MAX_PENDING_VERIFY then (CapacityRejected, q)
      else
        let sender = hint_sender entry;
            sender_count = unwrap_or (pending_per_sender q sender) 0
        in if sender_count \<ge> MAX_PENDING_VERIFY_PER_PEER then (CapacityRejected, q)
           else (Admitted,
             q\<lparr>pending_verify := AList.update key entry (pending_verify q),
               pending_per_sender := (pending_per_sender q)(sender \<mapsto>
                 unwrap_or (pending_per_sender q sender) 0 + 1)\<rparr>))"

definition release_sender_slot :: "(peer_id \<rightharpoonup> nat) \<Rightarrow> peer_id \<Rightarrow> (peer_id \<rightharpoonup> nat)" where
  "release_sender_slot pps sender =
     (case pps sender of None \<Rightarrow> pps
      | Some n \<Rightarrow> let n' = n - 1
          in if n' = 0 then pps(sender := None) else pps(sender \<mapsto> n'))"

definition get_pending :: "replication_queues \<Rightarrow> xor_name \<Rightarrow> verification_entry option" where
  "get_pending q key = map_of (pending_verify q) key"

definition set_pending_state ::
  "replication_queues \<Rightarrow> xor_name \<Rightarrow> verification_state \<Rightarrow>
     hint_pipeline option \<times> replication_queues" where
  "set_pending_state q key st =
     (case map_of (pending_verify q) key of None \<Rightarrow> (None, q)
      | Some entry \<Rightarrow> (Some (ve_pipeline entry),
          q\<lparr>pending_verify := AList.update key (entry\<lparr>ve_state := st\<rparr>) (pending_verify q)\<rparr>))"

definition remove_pending ::
  "replication_queues \<Rightarrow> xor_name \<Rightarrow> verification_entry option \<times> replication_queues" where
  "remove_pending q key =
     (case map_of (pending_verify q) key of None \<Rightarrow> (None, q)
      | Some entry \<Rightarrow> (Some entry,
          q\<lparr>pending_verify := AList.delete key (pending_verify q),
            pending_per_sender :=
              release_sender_slot (pending_per_sender q) (hint_sender entry)\<rparr>))"

definition pending_keys :: "replication_queues \<Rightarrow> xor_name list" where
  "pending_keys q = map fst (pending_verify q)"

definition pending_count_for_sender :: "replication_queues \<Rightarrow> peer_id \<Rightarrow> nat" where
  "pending_count_for_sender q sender = unwrap_or (pending_per_sender q sender) 0"

fun retain_fresh ::
  "instant \<Rightarrow> duration \<Rightarrow> (xor_name \<times> verification_entry) list \<Rightarrow> (peer_id \<rightharpoonup> nat) \<Rightarrow>
     (xor_name \<times> verification_entry) list \<times> (peer_id \<rightharpoonup> nat)" where
  "retain_fresh now max_age [] pps = ([], pps)"
| "retain_fresh now max_age ((key, entry) # rest) pps =
     (let fresh = now - created_at entry < max_age;
          pps' = (if fresh then pps else release_sender_slot pps (hint_sender entry));
          (kept, pps'') = retain_fresh now max_age rest pps'
      in ((if fresh then (key, entry) # kept else kept), pps''))"

definition evict_stale :: "replication_queues \<Rightarrow> instant \<Rightarrow> duration \<Rightarrow> replication_queues" where
  "evict_stale q now max_age =
     (let (kept, pps) = retain_fresh now max_age (pending_verify q) (pending_per_sender q)
      in q\<lparr>pending_verify := kept, pending_per_sender := pps\<rparr>)"

section \<open>Operations on the fetch queue and the downloads\<close>

definition enqueue_fetch ::
  "replication_queues \<Rightarrow> xor_name \<Rightarrow> xor_name \<Rightarrow> peer_id list \<Rightarrow>
     bool \<times> replication_queues" where
  "enqueue_fetch q key distance sources =
     (if map_of (pending_verify q) key \<noteq> None \<or> key \<in> fetch_queue_keys q \<or>
         map_of (in_flight_fetch q) key \<noteq> None then (False, q)
      else if length (fetch_queue q) \<ge> MAX_FETCH_QUEUE then (False, q)
      else (True, q\<lparr>fetch_queue_keys := insert key (fetch_queue_keys q),
        fetch_queue := heap_push
          \<lparr>fc_key = key, fc_distance = distance, fc_sources = sources\<rparr> (fetch_queue q)\<rparr>))"

definition promote_pending_to_fetch ::
  "replication_queues \<Rightarrow> xor_name \<Rightarrow> xor_name \<Rightarrow> peer_id list \<Rightarrow>
     bool \<times> replication_queues" where
  "promote_pending_to_fetch q key distance sources =
     (if length (fetch_queue q) \<ge> MAX_FETCH_QUEUE then (False, q)
      else enqueue_fetch (snd (remove_pending q key)) key distance sources)"

function dequeue_fetch ::
  "replication_queues \<Rightarrow> fetch_candidate option \<times> replication_queues" where
  "dequeue_fetch q =
     (case heap_pop (fetch_queue q) of
        None \<Rightarrow> (None, q)
      | Some (candidate, rest) \<Rightarrow>
          let q' = q\<lparr>fetch_queue := rest,
                fetch_queue_keys := fetch_queue_keys q - {fc_key candidate}\<rparr>
          in if map_of (in_flight_fetch q') (fc_key candidate) = None
             then (Some candidate, q')
             else dequeue_fetch q')"
  by pat_completeness auto
termination
proof (relation "measure (\<lambda>q. length (fetch_queue q))", simp)
  fix q x c rest q'
  assume "heap_pop (fetch_queue q) = Some x" "(c, rest) = x"
    and "q' = q\<lparr>fetch_queue := rest, fetch_queue_keys := fetch_queue_keys q - {fc_key c}\<rparr>"
  then show "(q', q) \<in> measure (\<lambda>q. length (fetch_queue q))"
    using heap.pop_size [of "fetch_queue q" c rest] by auto
qed

declare dequeue_fetch.simps [simp del]

definition start_fetch ::
  "replication_queues \<Rightarrow> xor_name \<Rightarrow> peer_id \<Rightarrow> peer_id list \<Rightarrow> instant \<Rightarrow>
     replication_queues" where
  "start_fetch q key source sources now =
     q\<lparr>in_flight_fetch := AList.update key
        \<lparr>if_key = key, if_source = source, started_at = now, all_sources = sources,
          tried = {source}\<rparr> (in_flight_fetch q)\<rparr>"

definition complete_fetch ::
  "replication_queues \<Rightarrow> xor_name \<Rightarrow> in_flight_entry option \<times> replication_queues" where
  "complete_fetch q key =
     (map_of (in_flight_fetch q) key,
      q\<lparr>in_flight_fetch := AList.delete key (in_flight_fetch q)\<rparr>)"

definition next_untried :: "in_flight_entry \<Rightarrow> peer_id option" where
  "next_untried entry = find (\<lambda>p. p \<notin> tried entry) (all_sources entry)"

definition retry_fetch ::
  "replication_queues \<Rightarrow> xor_name \<Rightarrow> peer_id option \<times> replication_queues" where
  "retry_fetch q key =
     (case map_of (in_flight_fetch q) key of None \<Rightarrow> (None, q)
      | Some entry0 \<Rightarrow>
          let entry = entry0\<lparr>tried := insert (if_source entry0) (tried entry0)\<rparr>
          in case next_untried entry of
               Some next_peer \<Rightarrow> (Some next_peer,
                 q\<lparr>in_flight_fetch := AList.update key
                   (entry\<lparr>if_source := next_peer, tried := insert next_peer (tried entry)\<rparr>)
                   (in_flight_fetch q)\<rparr>)
             | None \<Rightarrow> (None,
                 q\<lparr>in_flight_fetch := AList.update key entry (in_flight_fetch q)\<rparr>))"

definition is_bootstrap_work_empty :: "replication_queues \<Rightarrow> xor_name set \<Rightarrow> bool" where
  "is_bootstrap_work_empty q bootstrap_keys \<longleftrightarrow> \<not> (\<exists>k\<in>bootstrap_keys. contains_key q k)"

section \<open>The fetch worker\<close>

text \<open>
  The worker fills its free slots under the write lock: it dequeues, drops a candidate that has no
  source, and marks the others as in flight. \<open>fill_slots\<close> returns the fetches it starts.
\<close>

lemma dequeue_fetch_shrinks:
  "dequeue_fetch q = (Some c, q') \<Longrightarrow> length (fetch_queue q') < length (fetch_queue q)"
proof (induction q rule: dequeue_fetch.induct)
  case (1 q)
  show ?case
  proof (cases "heap_pop (fetch_queue q)")
    case None
    with "1.prems" show ?thesis by (simp add: dequeue_fetch.simps [of q])
  next
    case (Some a)
    then obtain d rest where pop: "heap_pop (fetch_queue q) = Some (d, rest)"
      by (cases a) auto
    have len: "length rest < length (fetch_queue q)"
      using heap.pop_size [OF pop] by simp
    let ?q = "q\<lparr>fetch_queue := rest, fetch_queue_keys := fetch_queue_keys q - {fc_key d}\<rparr>"
    show ?thesis
    proof (cases "map_of (in_flight_fetch ?q) (fc_key d) = None")
      case True
      with "1.prems" pop len show ?thesis by (auto simp: dequeue_fetch.simps [of q] Let_def)
    next
      case False
      with "1.prems" pop have "dequeue_fetch ?q = (Some c, q')"
        by (auto simp: dequeue_fetch.simps [of q] Let_def)
      with "1.IH" [OF pop refl refl False] len show ?thesis by simp
    qed
  qed
qed

function fill_slots ::
  "replication_queues \<Rightarrow> nat \<Rightarrow> instant \<Rightarrow> (xor_name \<times> peer_id) list \<times> replication_queues" where
  "fill_slots q free now =
     (if free = 0 then ([], q)
      else case dequeue_fetch q of
        (None, q') \<Rightarrow> ([], q')
      | (Some candidate, q') \<Rightarrow>
          (case fc_sources candidate of
             [] \<Rightarrow> fill_slots q' free now
           | source # _ \<Rightarrow>
               let (started, q'') = fill_slots
                     (start_fetch q' (fc_key candidate) source (fc_sources candidate) now)
                     (free - 1) now
               in ((fc_key candidate, source) # started, q'')))"
  by pat_completeness auto
termination
  by (relation "measure (\<lambda>(q, free, now). length (fetch_queue q))")
     (auto simp: start_fetch_def dest: dequeue_fetch_shrinks sym)

declare fill_slots.simps [simp del]

datatype fetch_result = FetchStored | IntegrityFailed | SourceFailed

text \<open>
  What the worker does with the result of a download (\<open>None\<close> for a task that panicked): whether
  the key left the pipeline, the next source to download from, and the queues.
\<close>

definition handle_fetch_outcome ::
  "replication_queues \<Rightarrow> xor_name \<Rightarrow> fetch_result option \<Rightarrow>
     bool \<times> peer_id option \<times> replication_queues" where
  "handle_fetch_outcome q key outcome =
     (case outcome of
        Some FetchStored \<Rightarrow> (True, None, snd (complete_fetch q key))
      | Some _ \<Rightarrow>
          (case retry_fetch q key of
             (Some next_peer, q') \<Rightarrow> (False, Some next_peer, q')
           | (None, q') \<Rightarrow> (True, None, snd (complete_fetch q' key)))
      | None \<Rightarrow> (True, None, snd (complete_fetch q key)))"

section \<open>The invariant of the queues\<close>

definition sender_pending :: "(xor_name \<times> verification_entry) list \<Rightarrow> peer_id \<Rightarrow> nat" where
  "sender_pending m s = length (filter (\<lambda>(k, e). hint_sender e = s) m)"

definition counters :: "(peer_id \<Rightarrow> nat) \<Rightarrow> (peer_id \<rightharpoonup> nat)" where
  "counters c = (\<lambda>s. if c s = 0 then None else Some (c s))"

definition stages_disjoint :: "replication_queues \<Rightarrow> bool" where
  "stages_disjoint q \<longleftrightarrow>
     dkeys (pending_verify q) \<and> dkeys (in_flight_fetch q) \<and>
     distinct (map fc_key (fetch_queue q)) \<and>
     fetch_queue_keys q = fc_key ` set (fetch_queue q) \<and>
     disjoint3 (keys (pending_verify q)) (fetch_queue_keys q) (keys (in_flight_fetch q))"

definition within_bounds :: "replication_queues \<Rightarrow> bool" where
  "within_bounds q \<longleftrightarrow>
     length (pending_verify q) \<le> MAX_PENDING_VERIFY \<and>
     length (fetch_queue q) \<le> MAX_FETCH_QUEUE \<and>
     (\<forall>s. sender_pending (pending_verify q) s \<le> MAX_PENDING_VERIFY_PER_PEER)"

definition in_lockstep :: "replication_queues \<Rightarrow> bool" where
  "in_lockstep q \<longleftrightarrow> pending_per_sender q = counters (sender_pending (pending_verify q))"

definition source_tried :: "replication_queues \<Rightarrow> bool" where
  "source_tried q \<longleftrightarrow> (\<forall>(k, e) \<in> set (in_flight_fetch q). if_source e \<in> tried e)"

definition queues_inv :: "replication_queues \<Rightarrow> bool" where
  "queues_inv q \<longleftrightarrow> stages_disjoint q \<and> within_bounds q \<and> in_lockstep q \<and> source_tried q"

lemmas queues_inv_defs =
  queues_inv_def stages_disjoint_def within_bounds_def in_lockstep_def source_tried_def

subsection \<open>Counting by sender\<close>

lemma sender_pending_simps [simp]:
  "sender_pending [] s = 0"
  "sender_pending ((k, e) # m) s = (if hint_sender e = s then 1 else 0) + sender_pending m s"
  "sender_pending (m @ m') s = sender_pending m s + sender_pending m' s"
  by (auto simp: sender_pending_def)

lemma unwrap_counters [simp]: "unwrap_or (counters c s) 0 = c s"
  by (simp add: counters_def)

lemma counters_incr: "(counters c)(s \<mapsto> Suc (c s)) = counters (c(s := Suc (c s)))"
  by (auto simp: counters_def)

lemma release_counters:
  "release_sender_slot (counters c) s = counters (c(s := c s - 1))"
  by (auto simp: release_sender_slot_def counters_def Let_def)

lemma sender_pending_pos: "(k, e) \<in> set m \<Longrightarrow> 0 < sender_pending m (hint_sender e)"
  by (auto simp: sender_pending_def filter_empty_conv)

lemma sender_pending_delete:
  "dkeys m \<Longrightarrow> map_of m k = Some e \<Longrightarrow>
     sender_pending (AList.delete k m) =
       (sender_pending m)(hint_sender e := sender_pending m (hint_sender e) - 1)"
proof (induction m)
  case (Cons a m)
  obtain j f where a: "a = (j, f)" by (cases a)
  show ?case
  proof (cases "j = k")
    case True
    with Cons.prems a have "AList.delete k (a # m) = m" and "f = e"
      by (auto simp: delete_idem)
    then show ?thesis by (simp add: a fun_eq_iff)
  next
    case False
    with Cons a have IH: "sender_pending (AList.delete k m) =
        (sender_pending m)(hint_sender e := sender_pending m (hint_sender e) - 1)"
      and e: "(k, e) \<in> set m"
      by (auto dest: map_of_SomeD)
    from sender_pending_pos [OF e] IH False show ?thesis by (simp add: a fun_eq_iff)
  qed
qed simp

lemma sender_pending_update_present:
  "dkeys m \<Longrightarrow> map_of m k = Some e \<Longrightarrow> hint_sender e' = hint_sender e \<Longrightarrow>
     sender_pending (AList.update k e' m) = sender_pending m"
  by (induction m) (auto simp: fun_eq_iff split: if_splits)

subsection \<open>Stale entries\<close>

definition fresh_entry :: "instant \<Rightarrow> duration \<Rightarrow> xor_name \<times> verification_entry \<Rightarrow> bool" where
  "fresh_entry now max_age = (\<lambda>(k, e). now - created_at e < max_age)"

lemma retain_fresh_kept:
  "fst (retain_fresh now max_age m pps) = filter (fresh_entry now max_age) m"
  by (induction now max_age m pps rule: retain_fresh.induct)
     (auto simp: fresh_entry_def Let_def split: prod.splits)

lemma retain_fresh_counters:
  "\<forall>s. sender_pending m s \<le> c s \<Longrightarrow>
     snd (retain_fresh now max_age m (counters c)) =
       counters (\<lambda>s. c s - sender_pending (filter (Not \<circ> fresh_entry now max_age) m) s)"
proof (induction m arbitrary: c)
  case (Cons a m)
  obtain k e where a: "a = (k, e)" by (cases a)
  let ?c = "if fresh_entry now max_age a then c
            else c(hint_sender e := c (hint_sender e) - 1)"
  have "sender_pending m s \<le> ?c s" for s
    using Cons.prems [rule_format, of s] a by (auto split: if_splits)
  then have "\<forall>s. sender_pending m s \<le> ?c s" by blast
  from Cons.IH [OF this]
  have IH: "snd (retain_fresh now max_age m (counters ?c)) =
    counters (\<lambda>s. ?c s - sender_pending (filter (Not \<circ> fresh_entry now max_age) m) s)" .
  have "snd (retain_fresh now max_age (a # m) (counters c)) =
      snd (retain_fresh now max_age m (counters ?c))"
    by (simp add: a fresh_entry_def Let_def release_counters split_def)
  moreover have "?c s - sender_pending (filter (Not \<circ> fresh_entry now max_age) m) s =
      c s - sender_pending (filter (Not \<circ> fresh_entry now max_age) (a # m)) s" for s
    by (simp add: a)
  ultimately show ?case unfolding IH by presburger
qed simp


lemma sender_pending_partition:
  "sender_pending m s = sender_pending (filter P m) s + sender_pending (filter (Not \<circ> P) m) s"
  by (induction m) auto

lemma sender_pending_split:
  "sender_pending m s - sender_pending (filter (Not \<circ> P) m) s = sender_pending (filter P m) s"
  using sender_pending_partition [of m s P] by simp

lemma evict_stale_eq:
  assumes "in_lockstep q"
  shows "evict_stale q now max_age =
    q\<lparr>pending_verify := filter (fresh_entry now max_age) (pending_verify q),
      pending_per_sender :=
        counters (sender_pending (filter (fresh_entry now max_age) (pending_verify q)))\<rparr>"
  using assms retain_fresh_kept [of now max_age "pending_verify q" "pending_per_sender q"]
    retain_fresh_counters [of "pending_verify q" "sender_pending (pending_verify q)" now max_age]
  by (simp add: evict_stale_def in_lockstep_def split_def sender_pending_split)

subsection \<open>Every operation keeps the invariant\<close>

lemma sender_pending_filter_le: "sender_pending (filter P m) s \<le> sender_pending m s"
  by (induction m) auto

lemma sender_pending_filter_sender:
  "sender_pending (filter P m) s = length (filter (\<lambda>x. P x \<and> hint_sender (snd x) = s) m)"
  by (simp add: sender_pending_def split_def conj_commute)

lemma add_pending_verify_inv:
  assumes inv: "queues_inv q" and add: "add_pending_verify q key entry = (r, q')"
  shows "queues_inv q'"
proof (cases "r = Admitted")
  case False
  with add inv show ?thesis
    by (auto simp: add_pending_verify_def Let_def split: if_splits)
next
  case True
  let ?s = "hint_sender entry" and ?m = "pending_verify q"
  from True add have guards: "\<not> contains_key q key" "length ?m < MAX_PENDING_VERIFY"
    "unwrap_or (pending_per_sender q ?s) 0 < MAX_PENDING_VERIFY_PER_PEER"
    and q': "q' = q\<lparr>pending_verify := AList.update key entry ?m,
      pending_per_sender := (pending_per_sender q)(?s \<mapsto>
        unwrap_or (pending_per_sender q ?s) 0 + 1)\<rparr>"
    by (auto simp: add_pending_verify_def Let_def split: if_splits)
  from guards(1) have fresh: "key \<notin> keys ?m" "key \<notin> fetch_queue_keys q"
    "key \<notin> keys (in_flight_fetch q)"
    by (auto simp: contains_key_def map_of_eq_None_iff)
  have cnt: "sender_pending (?m @ [(key, entry)]) = (sender_pending ?m)(?s := sender_pending ?m ?s + 1)"
    by (auto simp: fun_eq_iff)
  from inv have lock: "pending_per_sender q = counters (sender_pending ?m)"
    by (simp add: queues_inv_defs)
  have "stages_disjoint q'"
    using inv fresh by (clarsimp simp: q' queues_inv_defs update_fresh)
  moreover have "within_bounds q'"
    using inv guards fresh lock by (auto simp: q' queues_inv_defs update_fresh)
  moreover have "in_lockstep q'"
    using cnt by (simp add: q' in_lockstep_def lock update_fresh fresh counters_incr
        del: sender_pending_simps)
  moreover have "source_tried q'"
    using inv by (simp add: q' queues_inv_defs)
  ultimately show ?thesis by (simp add: queues_inv_def)
qed

lemma remove_pending_inv:
  assumes inv: "queues_inv q" and rem: "remove_pending q key = (r, q')"
  shows "queues_inv q'"
proof (cases "map_of (pending_verify q) key")
  case None
  with rem inv show ?thesis by (simp add: remove_pending_def)
next
  case (Some e)
  let ?m = "pending_verify q"
  from rem Some have q': "q' = q\<lparr>pending_verify := AList.delete key ?m,
      pending_per_sender := release_sender_slot (pending_per_sender q) (hint_sender e)\<rparr>"
    by (simp add: remove_pending_def)
  have d: "dkeys ?m" using inv by (simp add: queues_inv_defs)
  note cnt = sender_pending_delete [OF d Some]
  have "stages_disjoint q'"
    using inv by (auto simp: q' queues_inv_defs dkeys_delete keys_delete intro: disjoint3_mono)
  moreover have "within_bounds q'"
    using inv cnt le_trans [OF length_delete_le]
    by (auto simp: q' queues_inv_defs diff_le_self intro: le_trans [OF diff_le_self])
  moreover have "in_lockstep q'"
    using inv cnt by (simp add: q' queues_inv_defs release_counters)
  moreover have "source_tried q'"
    using inv by (simp add: q' queues_inv_defs)
  ultimately show ?thesis by (simp add: queues_inv_def)
qed

lemma keys_update_present:
  "map_of m k = Some e \<Longrightarrow> keys (AList.update k e' m) = keys m"
  by (auto simp: keys_update dest: map_of_keysD)

lemma set_pending_state_inv:
  assumes inv: "queues_inv q" and upd: "set_pending_state q key st = (r, q')"
  shows "queues_inv q'"
proof (cases "map_of (pending_verify q) key")
  case None
  with upd inv show ?thesis by (simp add: set_pending_state_def)
next
  case (Some e)
  let ?e = "e\<lparr>ve_state := st\<rparr>" and ?m = "pending_verify q"
  have q': "q' = q\<lparr>pending_verify := AList.update key ?e ?m\<rparr>"
    using upd Some by (simp add: set_pending_state_def)
  have d: "dkeys ?m" using inv by (simp add: queues_inv_defs)
  have "sender_pending (AList.update key ?e ?m) = sender_pending ?m"
    by (rule sender_pending_update_present [OF d Some]) simp
  moreover have "length (AList.update key ?e ?m) = length ?m"
    using Some by (intro length_update_present) (rule map_of_keysD)
  moreover have "dkeys (AList.update key ?e ?m)" using d by (rule distinct_update)
  ultimately show ?thesis
    using inv keys_update_present [OF Some, of ?e] by (clarsimp simp: q' queues_inv_defs)
qed

lemma enqueue_fetch_inv:
  "queues_inv q \<Longrightarrow> enqueue_fetch q key d srcs = (r, q') \<Longrightarrow> queues_inv q'"
  by (clarsimp simp: enqueue_fetch_def queues_inv_defs heap_push_def map_of_eq_None_iff
      split: if_splits)

lemma promote_pending_to_fetch_inv:
  assumes "queues_inv q" "promote_pending_to_fetch q key d srcs = (r, q')"
  shows "queues_inv q'"
proof (cases "length (fetch_queue q) \<ge> MAX_FETCH_QUEUE")
  case True
  with assms show ?thesis by (simp add: promote_pending_to_fetch_def)
next
  case False
  obtain r0 q0 where rem: "remove_pending q key = (r0, q0)" by (cases "remove_pending q key")
  with assms False have "enqueue_fetch q0 key d srcs = (r, q')"
    by (simp add: promote_pending_to_fetch_def)
  with remove_pending_inv [OF assms(1) rem] show ?thesis by (rule enqueue_fetch_inv)
qed

lemma evict_stale_inv: "queues_inv q \<Longrightarrow> queues_inv (evict_stale q now max_age)"
  using le_trans [OF length_filter_le] le_trans [OF sender_pending_filter_le]
  by (auto simp: evict_stale_eq queues_inv_defs dkeys_filter intro: disjoint3_mono)

lemma dequeue_fetch_eq:
  assumes "stages_disjoint q"
  shows "dequeue_fetch q = (case heap_pop (fetch_queue q) of None \<Rightarrow> (None, q)
    | Some (c, rest) \<Rightarrow> (Some c, q\<lparr>fetch_queue := rest,
        fetch_queue_keys := fetch_queue_keys q - {fc_key c}\<rparr>))"
proof (cases "heap_pop (fetch_queue q)")
  case None
  then show ?thesis by (simp add: dequeue_fetch.simps [of q])
next
  case (Some a)
  then obtain c rest where pop: "heap_pop (fetch_queue q) = Some (c, rest)" by (cases a) auto
  with assms heap.pop_member [OF pop] have "fc_key c \<in> fetch_queue_keys q"
    by (simp add: stages_disjoint_def)
  with assms have "map_of (in_flight_fetch q) (fc_key c) = None"
    by (auto simp: stages_disjoint_def map_of_eq_None_iff dest: disjoint3D)
  with pop show ?thesis by (simp add: dequeue_fetch.simps [of q] Let_def)
qed

lemma dequeue_fetch_SomeE:
  assumes "stages_disjoint q" "dequeue_fetch q = (Some c, q')"
  obtains rest where "heap_pop (fetch_queue q) = Some (c, rest)"
    "q' = q\<lparr>fetch_queue := rest, fetch_queue_keys := fetch_queue_keys q - {fc_key c}\<rparr>"
  using assms by (auto simp: dequeue_fetch_eq split: option.splits)

lemma dequeue_fetch_None:
  "stages_disjoint q \<Longrightarrow> dequeue_fetch q = (None, q') \<Longrightarrow> q' = q \<and> fetch_queue q = []"
  using heap.pop_None [of "fetch_queue q"] by (auto simp: dequeue_fetch_eq split: option.splits)

lemma pop_fetch_inv:
  assumes inv: "queues_inv q" and pop: "heap_pop (fetch_queue q) = Some (c, rest)"
  shows "queues_inv (q\<lparr>fetch_queue := rest, fetch_queue_keys := fetch_queue_keys q - {fc_key c}\<rparr>)"
    (is "queues_inv ?q")
proof -
  from heap.pop_elems [OF pop] have m: "mset (fetch_queue q) = add_mset c (mset rest)" .
  then have "mset (map fc_key (fetch_queue q)) = add_mset (fc_key c) (mset (map fc_key rest))"
    by simp
  moreover have "distinct (map fc_key (fetch_queue q))"
    using inv by (simp add: queues_inv_defs)
  ultimately have d: "distinct (fc_key c # map fc_key rest)"
    by (metis mset.simps(2) mset_eq_imp_distinct_iff)
  from m have set: "set (fetch_queue q) = insert c (set rest)"
    by (metis set_mset_add_mset_insert set_mset_mset)
  with inv d have ks: "fetch_queue_keys q - {fc_key c} = fc_key ` set rest"
    by (auto simp: queues_inv_defs)
  have len: "length rest \<le> length (fetch_queue q)"
    using heap.pop_size [OF pop] by simp
  have "disjoint3 (keys (pending_verify q)) (fc_key ` set rest) (keys (in_flight_fetch q))"
    using inv set by (auto simp: queues_inv_defs intro: disjoint3_mono)
  with inv d ks len show ?thesis by (auto simp: queues_inv_defs)
qed

lemma dequeue_fetch_inv:
  assumes "queues_inv q" "dequeue_fetch q = (r, q')"
  shows "queues_inv q'"
proof (cases r)
  case None
  with assms dequeue_fetch_None [of q q'] show ?thesis by (simp add: queues_inv_def)
next
  case (Some c)
  with assms obtain rest where "heap_pop (fetch_queue q) = Some (c, rest)"
    "q' = q\<lparr>fetch_queue := rest, fetch_queue_keys := fetch_queue_keys q - {fc_key c}\<rparr>"
    by (auto simp: queues_inv_def elim: dequeue_fetch_SomeE)
  with pop_fetch_inv [OF assms(1)] show ?thesis by simp
qed

lemma start_fetch_inv:
  assumes inv: "queues_inv q" and fresh: "\<not> contains_key q key"
  shows "queues_inv (start_fetch q key src srcs now)"
proof -
  from fresh have "key \<notin> keys (pending_verify q)" "key \<notin> fetch_queue_keys q"
    "key \<notin> keys (in_flight_fetch q)"
    by (auto simp: contains_key_def map_of_eq_None_iff)
  with inv show ?thesis
    by (clarsimp simp: start_fetch_def queues_inv_defs update_fresh)
qed

lemma dequeue_fetch_removed:
  assumes "stages_disjoint q" "dequeue_fetch q = (Some c, q')"
  shows "\<not> contains_key q' (fc_key c)"
proof -
  from assms obtain rest where pop: "heap_pop (fetch_queue q) = Some (c, rest)"
    and q': "q' = q\<lparr>fetch_queue := rest, fetch_queue_keys := fetch_queue_keys q - {fc_key c}\<rparr>"
    by (rule dequeue_fetch_SomeE)
  from heap.pop_member [OF pop] assms(1) have "fc_key c \<in> fetch_queue_keys q"
    by (simp add: stages_disjoint_def)
  with assms(1) show ?thesis
    by (auto simp: contains_key_def stages_disjoint_def q' map_of_eq_None_iff dest: disjoint3D)
qed

lemma fill_slots_inv:
  "queues_inv q \<Longrightarrow> queues_inv (snd (fill_slots q free now))"
proof (induction q free now rule: fill_slots.induct)
  case (1 q free now)
  show ?case
  proof (cases "free = 0 \<or> fst (dequeue_fetch q) = None")
    case True
    with "1.prems" dequeue_fetch_inv [OF "1.prems"] show ?thesis
      by (cases "dequeue_fetch q") (auto simp: fill_slots.simps [of q])
  next
    case False
    then obtain c q' where deq: "dequeue_fetch q = (Some c, q')" and free: "free \<noteq> 0"
      by (cases "dequeue_fetch q") auto
    have inv': "queues_inv q'" by (rule dequeue_fetch_inv [OF "1.prems" deq])
    have gone: "\<not> contains_key q' (fc_key c)"
      using "1.prems" deq by (intro dequeue_fetch_removed) (auto simp: queues_inv_def)
    show ?thesis
    proof (cases "fc_sources c")
      case Nil
      with "1.IH"(1) [OF free deq [symmetric] refl Nil inv'] deq free show ?thesis
        by (simp add: fill_slots.simps [of q])
    next
      case (Cons src srcs)
      with "1.IH"(2) [OF free deq [symmetric] refl Cons] start_fetch_inv [OF inv' gone] deq free
      show ?thesis by (simp add: fill_slots.simps [of q] split_def Let_def)
    qed
  qed
qed

lemma complete_fetch_inv: "queues_inv q \<Longrightarrow> queues_inv (snd (complete_fetch q key))"
  using set_delete_subset [of key "in_flight_fetch q"]
  by (auto simp: complete_fetch_def queues_inv_defs dkeys_delete keys_delete intro: disjoint3_mono)

lemma update_in_flight_inv:
  assumes inv: "queues_inv q" and e: "map_of (in_flight_fetch q) key = Some e"
    and e': "if_source e' \<in> tried e'"
  shows "queues_inv (q\<lparr>in_flight_fetch := AList.update key e' (in_flight_fetch q)\<rparr>)"
  using inv e' keys_update_present [OF e, of e'] set_update_subset [of key e' "in_flight_fetch q"]
  by (fastforce simp: queues_inv_defs distinct_update)

lemma retry_fetch_inv:
  assumes "queues_inv q" "retry_fetch q key = (r, q')"
  shows "queues_inv q'"
proof (cases "map_of (in_flight_fetch q) key")
  case None
  with assms show ?thesis by (simp add: retry_fetch_def)
next
  case (Some e)
  with assms show ?thesis
    by (auto simp: retry_fetch_def Let_def split: option.splits
        intro!: update_in_flight_inv [OF assms(1) Some])
qed

lemma handle_fetch_outcome_inv:
  assumes "queues_inv q" "handle_fetch_outcome q key outcome = (t, p, q')"
  shows "queues_inv q'"
proof -
  obtain r q0 where retry: "retry_fetch q key = (r, q0)" by (cases "retry_fetch q key")
  with assms complete_fetch_inv [OF assms(1), of key]
    retry_fetch_inv [OF assms(1) retry] complete_fetch_inv [OF retry_fetch_inv [OF assms(1) retry], of key]
  show ?thesis
    by (auto simp: handle_fetch_outcome_def split: option.splits fetch_result.splits)
qed

section \<open>The steps of the queues\<close>

text \<open>
  Every mutation of the queues in the engine: hint admission, the verification cycle, the fetch
  worker's filling of its slots and its handling of a result.
\<close>

inductive queue_step :: "replication_queues \<Rightarrow> replication_queues \<Rightarrow> bool" where
  add: "queue_step q (snd (add_pending_verify q key entry))"
| set_state: "queue_step q (snd (set_pending_state q key st))"
| remove: "queue_step q (snd (remove_pending q key))"
| enqueue: "queue_step q (snd (enqueue_fetch q key d srcs))"
| promote: "queue_step q (snd (promote_pending_to_fetch q key d srcs))"
| evict: "queue_step q (evict_stale q now max_age)"
| fill: "queue_step q (snd (fill_slots q free now))"
| outcome: "queue_step q (snd (snd (handle_fetch_outcome q key res)))"

inductive_cases queue_stepE: "queue_step q q'"

lemma queues_new_inv: "queues_inv queues_new"
  by (auto simp: queues_inv_defs queues_new_def counters_def)

lemma queue_step_inv: "queues_inv q \<Longrightarrow> queue_step q q' \<Longrightarrow> queues_inv q'"
  by (erule queue_stepE)
     (auto intro: add_pending_verify_inv set_pending_state_inv remove_pending_inv
        enqueue_fetch_inv promote_pending_to_fetch_inv evict_stale_inv fill_slots_inv
        handle_fetch_outcome_inv simp: prod_eq_iff)

interpretation queues: invariant_system queue_step queues_new queues_inv
  by unfold_locales (auto intro: queues_new_inv queue_step_inv)

section \<open>Functional lemmas\<close>

lemma sender_pending_count: "sender_pending m s = count_list (map (hint_sender \<circ> snd) m) s"
  by (induction m) auto

lemma length_pending_sum:
  "finite S \<Longrightarrow> (hint_sender \<circ> snd) ` set m \<subseteq> S \<Longrightarrow> length m = (\<Sum>s\<in>S. sender_pending m s)"
  by (subst sum_count_set [of "map (hint_sender \<circ> snd) m" S, simplified, symmetric])
     (auto simp: sender_pending_count)

lemma senders_pending:
  "{s. sender_pending m s \<noteq> 0} = (hint_sender \<circ> snd) ` set m"
  by (simp add: sender_pending_count count_list_0_iff)

lemma lockstep_count: "in_lockstep q \<Longrightarrow> pending_count_for_sender q s = sender_pending (pending_verify q) s"
  by (simp add: in_lockstep_def pending_count_for_sender_def)

lemma pending_room:
  assumes inv: "queues_inv q"
    and own: "pending_count_for_sender q s < MAX_PENDING_VERIFY_PER_PEER"
    and others: "card {t. t \<noteq> s \<and> pending_count_for_sender q t \<noteq> 0} \<le> 15"
  shows "length (pending_verify q) < MAX_PENDING_VERIFY"
proof -
  let ?m = "pending_verify q"
  let ?O = "{t. t \<noteq> s \<and> sender_pending ?m t \<noteq> 0}"
  from inv have lock: "\<And>t. pending_count_for_sender q t = sender_pending ?m t"
    by (simp add: lockstep_count queues_inv_def)
  have "{t. sender_pending ?m t \<noteq> 0} = (hint_sender \<circ> snd) ` set ?m" by (rule senders_pending)
  then have fin: "finite ?O" and sub: "(hint_sender \<circ> snd) ` set ?m \<subseteq> insert s ?O"
    by (auto intro: finite_subset [of _ "(hint_sender \<circ> snd) ` set ?m"])
  have "length ?m = (\<Sum>t\<in>insert s ?O. sender_pending ?m t)"
    using fin sub by (intro length_pending_sum) auto
  also have "\<dots> = sender_pending ?m s + (\<Sum>t\<in>?O. sender_pending ?m t)"
    using fin by (simp add: sum.insert_remove)
  also have "(\<Sum>t\<in>?O. sender_pending ?m t) \<le> (\<Sum>t\<in>?O. MAX_PENDING_VERIFY_PER_PEER)"
    using inv by (intro sum_mono) (simp add: queues_inv_defs)
  also have "(\<Sum>t\<in>?O. MAX_PENDING_VERIFY_PER_PEER) = card ?O * MAX_PENDING_VERIFY_PER_PEER"
    by simp
  finally show ?thesis
    using own others lock mult_le_mono1 [of "card ?O" 15 8192]
    by (simp add: MAX_PENDING_VERIFY_def MAX_PENDING_VERIFY_PER_PEER_def)
qed

lemma contains_key_iff:
  "contains_key q k \<longleftrightarrow> k \<in> keys (pending_verify q) \<or> k \<in> fetch_queue_keys q \<or>
     k \<in> keys (in_flight_fetch q)"
  by (auto simp: contains_key_def map_of_eq_None_iff)

lemma contains_key_remove_pending:
  "stages_disjoint q \<Longrightarrow> contains_key (snd (remove_pending q k)) j \<longleftrightarrow>
     (if j = k \<and> k \<in> keys (pending_verify q) then False else contains_key q j)"
  by (auto simp: remove_pending_def contains_key_iff keys_delete stages_disjoint_def
      split: option.splits dest: disjoint3D map_of_keysD)

lemma contains_key_enqueue:
  "contains_key (snd (enqueue_fetch q k d srcs)) j \<longleftrightarrow>
     contains_key q j \<or> j = k \<and> fst (enqueue_fetch q k d srcs)"
  by (auto simp: enqueue_fetch_def contains_key_def)

text \<open>The sources a download is moved to, one per failure, until none is left.\<close>

fun retry_run :: "nat \<Rightarrow> replication_queues \<Rightarrow> xor_name \<Rightarrow> peer_id list" where
  "retry_run 0 q key = []"
| "retry_run (Suc n) q key =
     (case handle_fetch_outcome q key (Some SourceFailed) of
        (terminal, Some p, q') \<Rightarrow> p # retry_run n q' key
      | (terminal, None, q') \<Rightarrow> [])"

lemma retry_fetch_Some:
  assumes "map_of (in_flight_fetch q) key = Some e" "if_source e \<in> tried e"
    and "retry_fetch q key = (Some p, q')"
  shows "p \<in> set (all_sources e) - tried e"
    "map_of (in_flight_fetch q') key = Some (e\<lparr>if_source := p, tried := insert p (tried e)\<rparr>)"
  using assms
  by (auto simp: retry_fetch_def next_untried_def find_Some_iff insert_absorb update_conv'
      Let_def split: option.splits)

lemma retry_fetch_None:
  assumes "map_of (in_flight_fetch q) key = Some e" "if_source e \<in> tried e"
    and "fst (retry_fetch q key) = None"
  shows "set (all_sources e) \<subseteq> tried e"
  using assms
  by (auto simp: retry_fetch_def next_untried_def find_None_iff insert_absorb Let_def
      split: option.splits)

lemma retry_run_sources:
  "map_of (in_flight_fetch q) key = Some e \<Longrightarrow> if_source e \<in> tried e \<Longrightarrow>
     distinct (retry_run n q key) \<and> set (retry_run n q key) \<subseteq> set (all_sources e) - tried e"
proof (induction n arbitrary: q e)
  case (Suc n)
  obtain r q' where retry: "retry_fetch q key = (r, q')" by (cases "retry_fetch q key")
  show ?case
  proof (cases r)
    case None
    with retry show ?thesis by (simp add: handle_fetch_outcome_def)
  next
    case (Some p)
    with retry have retry': "retry_fetch q key = (Some p, q')" by simp
    note step = retry_fetch_Some [OF Suc.prems retry']
    have "distinct (retry_run n q' key) \<and> set (retry_run n q' key) \<subseteq>
        set (all_sources e) - insert p (tried e)"
      using Suc.IH [OF step(2)] by simp
    with step(1) retry' show ?thesis by (auto simp: handle_fetch_outcome_def)
  qed
qed simp

lemma retry_run_exhausts:
  "map_of (in_flight_fetch q) key = Some e \<Longrightarrow> if_source e \<in> tried e \<Longrightarrow>
     card (set (all_sources e) - tried e) \<le> n \<Longrightarrow>
     set (retry_run n q key) = set (all_sources e) - tried e"
proof (induction n arbitrary: q e)
  case (Suc n)
  obtain r q' where retry: "retry_fetch q key = (r, q')" by (cases "retry_fetch q key")
  show ?case
  proof (cases r)
    case None
    with retry retry_fetch_None [OF Suc.prems(1,2)] show ?thesis
      by (auto simp: handle_fetch_outcome_def)
  next
    case (Some p)
    with retry have retry': "retry_fetch q key = (Some p, q')" by simp
    note step = retry_fetch_Some [OF Suc.prems(1,2) retry']
    have "set (all_sources e) - insert p (tried e) = set (all_sources e) - tried e - {p}" by auto
    with step(1) Suc.prems(3) have "card (set (all_sources e) - insert p (tried e)) \<le> n"
      by simp
    with Suc.IH [OF step(2)] have "set (retry_run n q' key) = set (all_sources e) - insert p (tried e)"
      by simp
    with step(1) retry' show ?thesis by (auto simp: handle_fetch_outcome_def)
  qed
qed auto

section \<open>Properties\<close>

text \<open>
  C1. In every state the engine can bring the queues to, a key is in at most one of the three
  stages, the pending table holds at most 131072 keys and at most 8192 of any one sender, the fetch
  queue holds at most 131072, the set of queued keys is the set of keys in the heap, and the
  counter of every sender is the number of its pending entries.
\<close>

theorem queues_reachable_inv:
  assumes "reachable_from queue_step queues_new q"
  shows "keys (pending_verify q) \<inter> fetch_queue_keys q = {} \<and>
    keys (pending_verify q) \<inter> keys (in_flight_fetch q) = {} \<and>
    fetch_queue_keys q \<inter> keys (in_flight_fetch q) = {} \<and>
    fetch_queue_keys q = fc_key ` set (fetch_queue q) \<and>
    distinct (map fst (pending_verify q)) \<and> distinct (map fc_key (fetch_queue q)) \<and>
    length (pending_verify q) \<le> 131072 \<and> length (fetch_queue q) \<le> 131072 \<and>
    (\<forall>s. pending_count_for_sender q s =
           length (filter (\<lambda>(k, e). hint_sender e = s) (pending_verify q)) \<and>
         pending_count_for_sender q s \<le> 8192)"
  using queues.inv_reachable [OF assms]
  by (clarsimp simp: queues_inv_defs disjoint3_def pending_count_for_sender_def sender_pending_def
      MAX_PENDING_VERIFY_def MAX_FETCH_QUEUE_def MAX_PENDING_VERIFY_PER_PEER_def)

definition example_entry :: verification_entry where
  "example_entry = \<lparr>ve_state = PendingVerify, ve_pipeline = Replica, verified_sources = [],
     tried_sources = {}, created_at = 5, hint_sender = 77\<rparr>"

definition example_queues :: replication_queues where
  "example_queues = snd (add_pending_verify queues_new 42 example_entry)"

lemma example_queues_eq:
  "example_queues = \<lparr>pending_verify = [(42, example_entry)], fetch_queue = [],
     fetch_queue_keys = {}, in_flight_fetch = [], pending_per_sender = [77 \<mapsto> 1]\<rparr>"
  by (simp add: example_queues_def add_pending_verify_def queues_new_def contains_key_def
      MAX_PENDING_VERIFY_def MAX_PENDING_VERIFY_PER_PEER_def example_entry_def)

lemma example_queues_reachable: "reachable_from queue_step queues_new example_queues"
  unfolding example_queues_def
  by (rule reachable_from.step, rule reachable_from.start, rule queue_step.add)

theorem queues_reachable_inv_witness:
  "pending_count_for_sender example_queues 77 = 1 \<and> length (pending_verify example_queues) = 1 \<and>
   pending_count_for_sender example_queues 77 \<le> 8192"
  using queues_reachable_inv [OF example_queues_reachable]
  by (simp add: example_queues_eq pending_count_for_sender_def)

text \<open>
  C2. A flood does not starve the others: as long as a sender is below its own quota and at most
  15 other senders have pending keys, however many hints these sent, a new key of that sender is
  admitted.
\<close>

theorem honest_sender_admitted:
  assumes "reachable_from queue_step queues_new q"
    and "\<not> contains_key q key"
    and "pending_count_for_sender q (hint_sender entry) < MAX_PENDING_VERIFY_PER_PEER"
    and "card {t. t \<noteq> hint_sender entry \<and> pending_count_for_sender q t \<noteq> 0} \<le> 15"
  shows "fst (add_pending_verify q key entry) = Admitted \<and>
    get_pending (snd (add_pending_verify q key entry)) key = Some entry"
  using pending_room [OF queues.inv_reachable [OF assms(1)] assms(3,4)] assms(2,3)
  by (simp add: add_pending_verify_def Let_def pending_count_for_sender_def get_pending_def
      update_conv')

theorem honest_sender_admitted_witness:
  "fst (add_pending_verify example_queues 43 (example_entry\<lparr>hint_sender := 78\<rparr>)) = Admitted \<and>
   get_pending (snd (add_pending_verify example_queues 43 (example_entry\<lparr>hint_sender := 78\<rparr>))) 43
     = Some (example_entry\<lparr>hint_sender := 78\<rparr>)"
proof (rule honest_sender_admitted [OF example_queues_reachable])
  show "\<not> contains_key example_queues 43"
    by (simp add: example_queues_eq contains_key_def)
  show "pending_count_for_sender example_queues (hint_sender (example_entry\<lparr>hint_sender := 78\<rparr>))
      < MAX_PENDING_VERIFY_PER_PEER"
    by (simp add: example_queues_eq pending_count_for_sender_def MAX_PENDING_VERIFY_PER_PEER_def)
  have "{t. t \<noteq> (78 :: peer_id) \<and> pending_count_for_sender example_queues t \<noteq> 0} = {77}"
    by (auto simp: example_queues_eq pending_count_for_sender_def split: if_splits)
  then show "card {t. t \<noteq> hint_sender (example_entry\<lparr>hint_sender := 78\<rparr>) \<and>
      pending_count_for_sender example_queues t \<noteq> 0} \<le> 15"
    by simp
qed

text \<open>
  Promoting a verified key never drops it from the pipeline: afterwards exactly the same keys
  are in some stage; when the fetch queue is full the pending entry is still there, and when the
  promotion reports success the key is in the fetch queue with the given sources.
\<close>

theorem promote_never_loses_key:
  assumes "reachable_from queue_step queues_new q" and "contains_key q key"
    and "promote_pending_to_fetch q key distance sources = (ok, q')"
  shows "(\<forall>j. contains_key q' j \<longleftrightarrow> contains_key q j) \<and>
    (ok \<longrightarrow> \<lparr>fc_key = key, fc_distance = distance, fc_sources = sources\<rparr> \<in> set (fetch_queue q')) \<and>
    (\<not> ok \<and> key \<in> keys (pending_verify q) \<longrightarrow> get_pending q' key = get_pending q key)"
proof (cases "length (fetch_queue q) \<ge> MAX_FETCH_QUEUE")
  case True
  with assms show ?thesis by (simp add: promote_pending_to_fetch_def)
next
  case False
  let ?q = "snd (remove_pending q key)"
  from queues.inv_reachable [OF assms(1)] have dis: "stages_disjoint q" by (simp add: queues_inv_def)
  have enq: "enqueue_fetch ?q key distance sources = (ok, q')"
    using assms(3) False by (simp add: promote_pending_to_fetch_def)
  have len: "length (fetch_queue ?q) < MAX_FETCH_QUEUE"
    using False by (simp add: remove_pending_def split: option.splits)
  have ok: "ok \<longleftrightarrow> \<not> contains_key ?q key"
    using enq len by (auto simp: enqueue_fetch_def contains_key_def split: if_splits)
  have "contains_key q' j \<longleftrightarrow> contains_key q j" for j
    using contains_key_enqueue [of ?q key distance sources j] enq ok assms(2)
      contains_key_remove_pending [OF dis, of key] by (auto split: if_splits)
  moreover have "ok \<longrightarrow> \<lparr>fc_key = key, fc_distance = distance, fc_sources = sources\<rparr> \<in>
      set (fetch_queue q')"
    using enq by (auto simp: enqueue_fetch_def heap_push_def split: if_splits)
  moreover have "key \<in> keys (pending_verify q) \<longrightarrow> ok"
    using ok contains_key_remove_pending [OF dis, of key key] by simp
  ultimately show ?thesis by blast
qed

theorem promote_never_loses_key_witness:
  "contains_key example_queues 42 \<and>
   fst (promote_pending_to_fetch example_queues 42 7 [77]) \<and>
   contains_key (snd (promote_pending_to_fetch example_queues 42 7 [77])) 42 \<and>
   \<lparr>fc_key = 42, fc_distance = 7, fc_sources = [77]\<rparr>
     \<in> set (fetch_queue (snd (promote_pending_to_fetch example_queues 42 7 [77])))"
proof -
  have has: "contains_key example_queues 42" by (simp add: example_queues_eq contains_key_def)
  have ok: "fst (promote_pending_to_fetch example_queues 42 7 [77])"
    by (simp add: promote_pending_to_fetch_def enqueue_fetch_def remove_pending_def
        example_queues_eq MAX_FETCH_QUEUE_def)
  show ?thesis
    using promote_never_loses_key [OF example_queues_reachable has prod.collapse [symmetric],
        of 7 "[77]"] has ok
    by blast
qed

text \<open>
  Dequeuing serves the nearest key first: it returns a candidate whenever the fetch queue is
  not empty, that candidate has the least distance of all, its key is in no stage afterwards, and
  the rest of the queue is unchanged.
\<close>

theorem dequeue_fetch_nearest:
  assumes "reachable_from queue_step queues_new q" and "fetch_queue q \<noteq> []"
  shows "\<exists>c q'. dequeue_fetch q = (Some c, q') \<and> c \<in> set (fetch_queue q) \<and>
    (\<forall>d\<in>set (fetch_queue q). fc_distance c \<le> fc_distance d) \<and>
    \<not> contains_key q' (fc_key c) \<and> mset (fetch_queue q) = add_mset c (mset (fetch_queue q'))"
proof -
  from queues.inv_reachable [OF assms(1)] have dis: "stages_disjoint q" by (simp add: queues_inv_def)
  from assms(2) obtain c rest where pop: "heap_pop (fetch_queue q) = Some (c, rest)"
    using heap.pop_nonempty [of "fetch_queue q"] by auto
  then obtain q' where deq: "dequeue_fetch q = (Some c, q')" and "fetch_queue q' = rest"
    using dequeue_fetch_eq [OF dis] by simp
  moreover have "\<forall>d\<in>set (fetch_queue q). fc_distance c \<le> fc_distance d"
    using heap.pop_max [OF pop] by (fastforce simp: fc_le_iff)
  moreover have "c \<in> set (fetch_queue q)" using heap.pop_member [OF pop] by simp
  moreover note dequeue_fetch_removed [OF dis deq] heap.pop_elems [OF pop]
  ultimately show ?thesis by blast
qed

definition example_fetch_queues :: replication_queues where
  "example_fetch_queues =
     snd (enqueue_fetch (snd (enqueue_fetch queues_new 1 9 [77])) 2 3 [78, 79])"

lemma example_fetch_queues_eq:
  "example_fetch_queues = \<lparr>pending_verify = [],
     fetch_queue = [\<lparr>fc_key = 2, fc_distance = 3, fc_sources = [78, 79]\<rparr>,
       \<lparr>fc_key = 1, fc_distance = 9, fc_sources = [77]\<rparr>],
     fetch_queue_keys = {1, 2}, in_flight_fetch = [], pending_per_sender = Map.empty\<rparr>"
  by (simp add: example_fetch_queues_def enqueue_fetch_def queues_new_def heap_push_def
      MAX_FETCH_QUEUE_def insert_commute)

lemma example_fetch_queues_reachable:
  "reachable_from queue_step queues_new example_fetch_queues"
  unfolding example_fetch_queues_def
  by (rule reachable_from.step, rule reachable_from.step, rule reachable_from.start)
     (rule queue_step.enqueue)+

theorem dequeue_fetch_nearest_witness:
  "\<exists>c q'. dequeue_fetch example_fetch_queues = (Some c, q') \<and> fc_distance c \<le> 3 \<and>
     \<not> contains_key q' (fc_key c)"
proof -
  have "fetch_queue example_fetch_queues \<noteq> []" by (simp add: example_fetch_queues_eq)
  from dequeue_fetch_nearest [OF example_fetch_queues_reachable this]
  show ?thesis by (auto simp: example_fetch_queues_eq)
qed


definition example_flight_queues :: replication_queues where
  "example_flight_queues = snd (fill_slots example_fetch_queues 1 100)"

lemma example_flight_queues_reachable:
  "reachable_from queue_step queues_new example_flight_queues"
  unfolding example_flight_queues_def
  by (rule reachable_from.step, rule example_fetch_queues_reachable, rule queue_step.fill)

lemma example_flight_entry:
  "map_of (in_flight_fetch example_flight_queues) 2 =
     Some \<lparr>if_key = 2, if_source = 78, started_at = 100, all_sources = [78, 79], tried = {78}\<rparr>"
  by (simp add: example_flight_queues_def example_fetch_queues_eq fill_slots.simps
      dequeue_fetch.simps heap_pop_def fc_le_iff start_fetch_def)


text \<open>
  Stale eviction drops exactly the pending entries that are at least as old as the limit,
  leaves the other two stages alone, and leaves every sender's counter equal to the number of its
  entries that remain.
\<close>

theorem evict_stale_exact:
  assumes "reachable_from queue_step queues_new q"
  shows "pending_verify (evict_stale q now max_age) =
      filter (\<lambda>(k, e). now - created_at e < max_age) (pending_verify q) \<and>
    fetch_queue (evict_stale q now max_age) = fetch_queue q \<and>
    in_flight_fetch (evict_stale q now max_age) = in_flight_fetch q \<and>
    (\<forall>s. pending_count_for_sender (evict_stale q now max_age) s =
      length (filter (\<lambda>(k, e). now - created_at e < max_age \<and> hint_sender e = s)
        (pending_verify q)))"
  using queues.inv_reachable [OF assms]
  by (simp add: evict_stale_eq queues_inv_defs fresh_entry_def pending_count_for_sender_def
      sender_pending_def split_def conj_commute)

theorem evict_stale_exact_witness:
  "pending_verify (evict_stale example_queues 10 5) = [] \<and>
   pending_verify (evict_stale example_queues 9 5) = [(42, example_entry)] \<and>
   pending_count_for_sender (evict_stale example_queues 10 5) 77 = 0"
  using evict_stale_exact [OF example_queues_reachable, of 10 5]
    evict_stale_exact [OF example_queues_reachable, of 9 5]
  by (simp add: example_queues_eq example_entry_def)

end
