(* ===== verification/Config.thy ===== *)
theory Config
  imports Prelude
begin

text \<open>
  The tunable parameters of the replication subsystem (src/src/replication/config.rs): the
  reference constants, the runtime configuration with its validation, the quorum thresholds, the
  audit sizes and the audit deadlines. The close-group size and the maximal chunk size are
  constants of the protocol package outside this repository; they are arguments here.
\<close>

section \<open>Constants\<close>

definition K_BUCKET_SIZE :: nat where "K_BUCKET_SIZE = 20"

definition STORAGE_ADMISSION_MARGIN :: nat where "STORAGE_ADMISSION_MARGIN = 2"

definition QUORUM_THRESHOLD :: nat where "QUORUM_THRESHOLD = 4"

definition PAID_LIST_CLOSE_GROUP_SIZE :: nat where "PAID_LIST_CLOSE_GROUP_SIZE = 20"

definition NEIGHBOR_SYNC_SCOPE :: nat where "NEIGHBOR_SYNC_SCOPE = 20"

definition NEIGHBOR_SYNC_PEER_COUNT :: nat where "NEIGHBOR_SYNC_PEER_COUNT = 4"

definition REPAIR_HINT_MIN_AGE :: duration where "REPAIR_HINT_MIN_AGE = from_secs (60 * 60)"

definition MAX_PRUNE_AUDIT_CHALLENGES_PER_PASS :: nat where
  "MAX_PRUNE_AUDIT_CHALLENGES_PER_PASS = 64"

definition BYTE_AUDIT_RESPONSE_FLOOR_SECS :: nat where "BYTE_AUDIT_RESPONSE_FLOOR_SECS = 5"

definition MAX_REPLICATION_MESSAGE_SIZE :: nat where
  "MAX_REPLICATION_MESSAGE_SIZE = 10 * 1024 * 1024"

definition BYTE_CHALLENGE_RESPONSE_HEADROOM :: nat where
  "BYTE_CHALLENGE_RESPONSE_HEADROOM = 64 * 1024"

definition MAX_BYTE_CHALLENGE_KEYS :: "nat \<Rightarrow> nat" where
  "MAX_BYTE_CHALLENGE_KEYS max_chunk_size =
     (MAX_REPLICATION_MESSAGE_SIZE - BYTE_CHALLENGE_RESPONSE_HEADROOM) div max_chunk_size"

definition PENDING_VERIFY_MAX_AGE :: duration where
  "PENDING_VERIFY_MAX_AGE = from_secs (30 * 60)"

section \<open>The runtime configuration\<close>

record replication_config =
  close_group_size :: nat
  quorum_threshold :: nat
  paid_list_close_group_size :: nat
  neighbor_sync_scope :: nat
  neighbor_sync_peer_count :: nat
  neighbor_sync_interval_min :: duration
  neighbor_sync_interval_max :: duration
  neighbor_sync_cooldown :: duration
  self_lookup_interval_min :: duration
  self_lookup_interval_max :: duration
  audit_tick_interval_min :: duration
  audit_tick_interval_max :: duration
  audit_response_floor :: duration
  audit_honest_read_bps :: nat
  audit_response_honest_multiplier :: nat
  bootstrap_claim_grace_period :: duration
  prune_hysteresis_duration :: duration
  verification_request_timeout :: duration
  fetch_request_timeout :: duration
  bootstrap_complete_timeout_secs :: nat
  possession_check_delay_min :: duration
  possession_check_delay_max :: duration

definition default_config :: "nat \<Rightarrow> replication_config" where
  "default_config CLOSE_GROUP_SIZE =
     \<lparr>close_group_size = CLOSE_GROUP_SIZE,
      quorum_threshold = QUORUM_THRESHOLD,
      paid_list_close_group_size = PAID_LIST_CLOSE_GROUP_SIZE,
      neighbor_sync_scope = NEIGHBOR_SYNC_SCOPE,
      neighbor_sync_peer_count = NEIGHBOR_SYNC_PEER_COUNT,
      neighbor_sync_interval_min = from_secs (10 * 60),
      neighbor_sync_interval_max = from_secs (20 * 60),
      neighbor_sync_cooldown = from_secs (60 * 60),
      self_lookup_interval_min = from_secs (5 * 60),
      self_lookup_interval_max = from_secs (10 * 60),
      audit_tick_interval_min = from_secs (10 * 60),
      audit_tick_interval_max = from_secs (20 * 60),
      audit_response_floor = from_secs 4,
      audit_honest_read_bps = 50 * 1024 * 1024,
      audit_response_honest_multiplier = 5,
      bootstrap_claim_grace_period = from_secs (24 * 60 * 60),
      prune_hysteresis_duration = from_secs (3 * 24 * 60 * 60),
      verification_request_timeout = from_secs 15,
      fetch_request_timeout = from_secs 30,
      bootstrap_complete_timeout_secs = 60,
      possession_check_delay_min = from_secs (5 * 60),
      possession_check_delay_max = from_secs (15 * 60)\<rparr>"

datatype config_error =
    CloseGroupZero
  | QuorumThresholdRange nat nat
  | CloseGroupAbovePruneBudget nat
  | PaidGroupZero
  | NeighborSyncInterval duration duration
  | AuditTickInterval duration duration
  | SelfLookupInterval duration duration
  | SyncPeerCountZero
  | SyncScopeZero
  | SyncScopeAboveBucket nat

definition validate :: "replication_config \<Rightarrow> config_error + unit" where
  "validate c =
     (if close_group_size c = 0 then Inl CloseGroupZero
      else if quorum_threshold c = 0 \<or> quorum_threshold c > close_group_size c
        then Inl (QuorumThresholdRange (quorum_threshold c) (close_group_size c))
      else if close_group_size c > MAX_PRUNE_AUDIT_CHALLENGES_PER_PASS
        then Inl (CloseGroupAbovePruneBudget (close_group_size c))
      else if paid_list_close_group_size c = 0 then Inl PaidGroupZero
      else if neighbor_sync_interval_min c > neighbor_sync_interval_max c
        then Inl (NeighborSyncInterval (neighbor_sync_interval_min c) (neighbor_sync_interval_max c))
      else if audit_tick_interval_min c > audit_tick_interval_max c
        then Inl (AuditTickInterval (audit_tick_interval_min c) (audit_tick_interval_max c))
      else if self_lookup_interval_min c > self_lookup_interval_max c
        then Inl (SelfLookupInterval (self_lookup_interval_min c) (self_lookup_interval_max c))
      else if neighbor_sync_peer_count c = 0 then Inl SyncPeerCountZero
      else if neighbor_sync_scope c = 0 then Inl SyncScopeZero
      else if neighbor_sync_scope c > K_BUCKET_SIZE then Inl (SyncScopeAboveBucket (neighbor_sync_scope c))
      else Inr ())"

section \<open>Thresholds and sizes\<close>

definition storage_admission_width :: "nat \<Rightarrow> nat" where
  "storage_admission_width cgs = sat_add64 cgs STORAGE_ADMISSION_MARGIN"

definition quorum_needed :: "replication_config \<Rightarrow> nat \<Rightarrow> nat" where
  "quorum_needed c quorum_targets_count =
     (if quorum_targets_count = 0 then 0
      else min (quorum_threshold c) (quorum_targets_count div 2 + 1))"

definition confirm_needed :: "nat \<Rightarrow> nat" where
  "confirm_needed paid_group_size = paid_group_size div 2 + 1"

text \<open>
  \<open>(n as f64).sqrt() as usize\<close>. The conversion and the root are exact to within less than the
  gap below the next integer for every count below \<open>2 ^ 52\<close>, so on the counts of stored chunks
  the cast is the integer square root.
\<close>

fun isqrt_from :: "nat \<Rightarrow> nat \<Rightarrow> nat" where
  "isqrt_from n 0 = 0"
| "isqrt_from n (Suc k) = (if Suc k * Suc k \<le> n then Suc k else isqrt_from n k)"

definition isqrt :: "nat \<Rightarrow> nat" where
  "isqrt n = isqrt_from n n"

definition audit_sample_count :: "nat \<Rightarrow> nat" where
  "audit_sample_count total_keys = min (max (isqrt total_keys) 1) total_keys"

definition max_incoming_audit_keys :: "nat \<Rightarrow> nat" where
  "max_incoming_audit_keys stored_chunks = max (2 * audit_sample_count stored_chunks) 1"

section \<open>Audit deadlines\<close>

definition audit_response_timeout :: "replication_config \<Rightarrow> nat \<Rightarrow> nat \<Rightarrow> duration" where
  "audit_response_timeout c max_chunk_size challenged_key_count =
     (let bytes_per_key = (if max_chunk_size \<le> u64_max then max_chunk_size else u64_max);
          keys = (if challenged_key_count \<le> u64_max then challenged_key_count else u64_max);
          total_bytes = sat_mul64 bytes_per_key keys;
          bps = max (audit_honest_read_bps c) 1;
          multiplied = sat_mul64 total_bytes (audit_response_honest_multiplier c);
          scaled_ms = sat_mul64 multiplied 1000 div bps
      in sat_add_duration (audit_response_floor c) (from_millis scaled_ms))"

definition byte_audit_response_timeout :: "replication_config \<Rightarrow> nat \<Rightarrow> nat \<Rightarrow> duration" where
  "byte_audit_response_timeout c max_chunk_size challenged_key_count =
     (let scaled = audit_response_timeout c max_chunk_size challenged_key_count
                     - audit_response_floor c
      in sat_add_duration (from_secs BYTE_AUDIT_RESPONSE_FLOOR_SECS) scaled)"

text \<open>
  A random duration in a range: \<open>chosen\<close> stands for the random draw, of which only that it lies
  in the closed range of milliseconds is used; drawing from an empty range panics (\<open>None\<close>).
\<close>

definition to_u64_millis :: "duration \<Rightarrow> nat" where
  "to_u64_millis d = min (d div 10 ^ 6) u64_max"

definition random_duration_in_range ::
  "(nat \<Rightarrow> nat \<Rightarrow> nat) \<Rightarrow> duration \<Rightarrow> duration \<Rightarrow> duration option" where
  "random_duration_in_range gen_range dmin dmax =
     (if dmin = dmax then Some dmin
      else if to_u64_millis dmin > to_u64_millis dmax then None
      else Some (from_millis (gen_range (to_u64_millis dmin) (to_u64_millis dmax))))"

section \<open>Lemmas\<close>

lemma validate_ok_iff:
  "validate c = Inr () \<longleftrightarrow>
     1 \<le> quorum_threshold c \<and> quorum_threshold c \<le> close_group_size c \<and>
     close_group_size c \<le> 64 \<and> 1 \<le> paid_list_close_group_size c \<and>
     neighbor_sync_interval_min c \<le> neighbor_sync_interval_max c \<and>
     audit_tick_interval_min c \<le> audit_tick_interval_max c \<and>
     self_lookup_interval_min c \<le> self_lookup_interval_max c \<and>
     1 \<le> neighbor_sync_peer_count c \<and>
     1 \<le> neighbor_sync_scope c \<and> neighbor_sync_scope c \<le> 20"
  by (auto simp: validate_def MAX_PRUNE_AUDIT_CHALLENGES_PER_PASS_def K_BUCKET_SIZE_def)

lemma quorum_needed_pos: "validate c = Inr () \<Longrightarrow> 0 < n \<Longrightarrow> 0 < quorum_needed c n"
  by (auto simp: quorum_needed_def validate_ok_iff)

lemma quorum_needed_le: "0 < n \<Longrightarrow> quorum_needed c n \<le> n"
  by (auto simp: quorum_needed_def min_def)

lemma isqrt_from_spec:
  "isqrt_from n k * isqrt_from n k \<le> n \<and> (\<forall>j\<le>k. isqrt_from n k < j \<longrightarrow> n < j * j)"
proof (induction k)
  case (Suc k)
  show ?case
  proof (cases "Suc k * Suc k \<le> n")
    case False
    with Suc show ?thesis by (auto simp: le_Suc_eq)
  qed auto
qed simp

lemma isqrt_spec: "isqrt n * isqrt n \<le> n \<and> n < Suc (isqrt n) * Suc (isqrt n)"
proof -
  have "n < Suc (isqrt n) * Suc (isqrt n)"
  proof (cases "Suc (isqrt n) \<le> n")
    case True
    with isqrt_from_spec [of n n] show ?thesis by (metis isqrt_def lessI)
  next
    case False
    then have "n < Suc (isqrt n)" by simp
    also have "\<dots> \<le> Suc (isqrt n) * Suc (isqrt n)" by simp
    finally show ?thesis .
  qed
  with isqrt_from_spec [of n n] show ?thesis by (simp add: isqrt_def)
qed

lemma sat_mul64_mono: "a \<le> a' \<Longrightarrow> b \<le> b' \<Longrightarrow> sat_mul64 a b \<le> sat_mul64 a' b'"
  using mult_le_mono [of a a' b b'] by (auto simp: sat_mul64_def min_le_iff_disj)

lemma sat_mul64_exact: "a * b \<le> u64_max \<Longrightarrow> sat_mul64 a b = a * b"
  by (simp add: sat_mul64_def)

section \<open>Properties\<close>

text \<open>
  A configuration that passes validation gives a threshold that can be met: for every non-empty
  set of quorum targets the votes needed are at least one and at most the number of targets, never
  more than a majority; the reference profile passes validation for every close-group size from the
  threshold up to the pruning budget.
\<close>

theorem validated_quorum_reachable:
  "(validate c = Inr () \<and> 0 < n \<longrightarrow>
     1 \<le> quorum_needed c n \<and> quorum_needed c n \<le> n \<and> quorum_needed c n \<le> n div 2 + 1) \<and>
   (validate (default_config cgs) = Inr () \<longleftrightarrow> 4 \<le> cgs \<and> cgs \<le> 64)"
proof -
  have "validate c = Inr () \<and> 0 < n \<longrightarrow>
     1 \<le> quorum_needed c n \<and> quorum_needed c n \<le> n \<and> quorum_needed c n \<le> n div 2 + 1"
    using quorum_needed_pos [of c n] quorum_needed_le [of n c] by (auto simp: quorum_needed_def)
  moreover have "validate (default_config cgs) = Inr () \<longleftrightarrow> 4 \<le> cgs \<and> cgs \<le> 64"
    by (auto simp: validate_ok_iff default_config_def QUORUM_THRESHOLD_def from_secs_def
        PAID_LIST_CLOSE_GROUP_SIZE_def NEIGHBOR_SYNC_SCOPE_def NEIGHBOR_SYNC_PEER_COUNT_def)
  ultimately show ?thesis by blast
qed

theorem validated_quorum_reachable_witness:
  "validate (default_config 7) = Inr () \<and>
   1 \<le> quorum_needed (default_config 7) 7 \<and> quorum_needed (default_config 7) 7 \<le> 7"
  using validated_quorum_reachable [of "default_config 7" 7 7] by simp

text \<open>
  Audit deadlines under the reference profile with 4 MiB chunks: the deadline is the floor of
  4 seconds (5 seconds for the byte round) plus exactly 400 milliseconds per challenged key, for
  every challenge of up to ten million keys; no saturation occurs, and more keys never shorten it.
\<close>

theorem audit_timeout_exact:
  assumes "k \<le> 10000000"
  shows "audit_response_timeout (default_config cgs) (4 * 1024 * 1024) k =
      from_secs 4 + from_millis (400 * k) \<and>
    byte_audit_response_timeout (default_config cgs) (4 * 1024 * 1024) k =
      from_secs 5 + from_millis (400 * k)"
proof -
  have m: "sat_mul64 (sat_mul64 (sat_mul64 4194304 k) 5) 1000 = 4194304 * k * 5 * 1000"
    using assms by (simp add: sat_mul64_def u64_max_def)
  have "4194304 * k * 5 * 1000 div 52428800 = 400 * k"
    by simp
  with m assms have t: "audit_response_timeout (default_config cgs) 4194304 k =
      from_secs 4 + from_millis (400 * k)"
    by (simp add: audit_response_timeout_def default_config_def u64_max_def Let_def
        sat_add_duration_def duration_max_def from_secs_def from_millis_def)
  with assms show ?thesis
    by (simp add: byte_audit_response_timeout_def default_config_def from_secs_def
        from_millis_def sat_add_duration_def duration_max_def u64_max_def
        BYTE_AUDIT_RESPONSE_FLOOR_SECS_def)
qed

theorem audit_timeout_exact_witness:
  "audit_response_timeout (default_config 7) (4 * 1024 * 1024) 10 = from_secs 8"
  using audit_timeout_exact [of 10 7] by (simp add: from_secs_def from_millis_def)

end
