(* ===== verification/Quorum.thy ===== *)
theory Quorum
  imports Types Config
begin

text \<open>
  Quorum verification (src/src/replication/quorum.rs): the targets of a batch of keys, the
  evaluation of the evidence for one key, and the folding of peer responses into the evidence.
  Closest-peer lookups of the routing table are functions of the model's arguments
  (\<open>find_closest\<close>, \<open>find_closest_with_self\<close>); a network round is the list of the replies.
\<close>

section \<open>Verification targets\<close>

record verification_targets =
  quorum_targets :: "xor_name \<rightharpoonup> peer_id list"
  paid_targets :: "xor_name \<rightharpoonup> peer_id list"
  paid_group_sizes :: "xor_name \<rightharpoonup> nat"
  all_peers :: "peer_id set"
  peer_to_keys :: "peer_id \<rightharpoonup> xor_name list"
  peer_to_paid_keys :: "peer_id \<rightharpoonup> xor_name set"

definition targets_empty :: verification_targets where
  "targets_empty = \<lparr>quorum_targets = Map.empty, paid_targets = Map.empty,
     paid_group_sizes = Map.empty, all_peers = {}, peer_to_keys = Map.empty,
     peer_to_paid_keys = Map.empty\<rparr>"

definition add_quorum_peer :: "xor_name \<Rightarrow> peer_id \<Rightarrow> verification_targets \<Rightarrow> verification_targets" where
  "add_quorum_peer key peer t =
     t\<lparr>all_peers := insert peer (all_peers t),
       peer_to_keys := (peer_to_keys t)(peer \<mapsto> unwrap_or (peer_to_keys t peer) [] @ [key])\<rparr>"

definition add_paid_peer :: "xor_name \<Rightarrow> peer_id \<Rightarrow> verification_targets \<Rightarrow> verification_targets" where
  "add_paid_peer key peer t =
     t\<lparr>all_peers := insert peer (all_peers t),
       peer_to_keys := (peer_to_keys t)(peer \<mapsto> unwrap_or (peer_to_keys t peer) [] @ [key]),
       peer_to_paid_keys := (peer_to_paid_keys t)(peer \<mapsto>
         insert key (unwrap_or (peer_to_paid_keys t peer) {}))\<rparr>"

definition add_key_targets ::
  "(xor_name \<Rightarrow> nat \<Rightarrow> peer_id list) \<Rightarrow> (xor_name \<Rightarrow> nat \<Rightarrow> peer_id list) \<Rightarrow>
     replication_config \<Rightarrow> peer_id \<Rightarrow> xor_name \<Rightarrow> verification_targets \<Rightarrow> verification_targets" where
  "add_key_targets find_closest find_closest_with_self config self_id key t =
     (let quorum_peers = filter (\<lambda>p. p \<noteq> self_id) (find_closest key (close_group_size config));
          paid_closest = find_closest_with_self key (paid_list_close_group_size config);
          paid_group_size = length paid_closest;
          paid_peers = filter (\<lambda>p. p \<noteq> self_id) paid_closest;
          t1 = fold (add_quorum_peer key) quorum_peers t;
          t2 = fold (add_paid_peer key) paid_peers t1
      in t2\<lparr>quorum_targets := (quorum_targets t2)(key \<mapsto> quorum_peers),
            paid_targets := (paid_targets t2)(key \<mapsto> paid_peers),
            paid_group_sizes := (paid_group_sizes t2)(key \<mapsto> paid_group_size)\<rparr>)"

definition dedup_keys :: "verification_targets \<Rightarrow> verification_targets" where
  "dedup_keys t = t\<lparr>peer_to_keys := (\<lambda>p. map_option (\<lambda>ks. remdups_adj (sort ks)) (peer_to_keys t p))\<rparr>"

definition compute_verification_targets ::
  "(xor_name \<Rightarrow> nat \<Rightarrow> peer_id list) \<Rightarrow> (xor_name \<Rightarrow> nat \<Rightarrow> peer_id list) \<Rightarrow>
     replication_config \<Rightarrow> peer_id \<Rightarrow> xor_name list \<Rightarrow> verification_targets" where
  "compute_verification_targets find_closest find_closest_with_self config self_id ks =
     dedup_keys (fold (add_key_targets find_closest find_closest_with_self config self_id) ks
       targets_empty)"

definition add_presence_targets ::
  "(xor_name \<Rightarrow> nat \<Rightarrow> peer_id list) \<Rightarrow> replication_config \<Rightarrow> peer_id \<Rightarrow> xor_name \<Rightarrow>
     verification_targets \<Rightarrow> verification_targets" where
  "add_presence_targets find_closest config self_id key t =
     (let quorum_peers = filter (\<lambda>p. p \<noteq> self_id) (find_closest key (close_group_size config));
          t1 = fold (add_quorum_peer key) quorum_peers t
      in t1\<lparr>quorum_targets := (quorum_targets t1)(key \<mapsto> quorum_peers)\<rparr>)"

definition compute_presence_targets ::
  "(xor_name \<Rightarrow> nat \<Rightarrow> peer_id list) \<Rightarrow> replication_config \<Rightarrow> peer_id \<Rightarrow> xor_name list \<Rightarrow>
     verification_targets" where
  "compute_presence_targets find_closest config self_id ks =
     dedup_keys (fold (add_presence_targets find_closest config self_id) ks targets_empty)"

section \<open>Evaluating the evidence of a key\<close>

datatype key_verification_outcome =
    QuorumVerified "peer_id list"
  | PaidListVerified "peer_id list"
  | QuorumFailed
  | QuorumInconclusive

fun count_presence ::
  "(peer_id \<Rightarrow> xor_name \<Rightarrow> bool) \<Rightarrow> xor_name \<Rightarrow> (peer_id \<rightharpoonup> presence_evidence) \<Rightarrow>
     peer_id list \<Rightarrow> nat \<times> nat \<Rightarrow> nat \<times> nat" where
  "count_presence credit key pres [] acc = acc"
| "count_presence credit key pres (peer # peers) (positive, unresolved) =
     count_presence credit key pres peers
       (case pres peer of
          Some Present \<Rightarrow>
            if credit peer key then (positive + 1, unresolved) else (positive, unresolved + 1)
        | Some Absent \<Rightarrow> (positive, unresolved)
        | Some PresenceUnresolved \<Rightarrow> (positive, unresolved + 1)
        | None \<Rightarrow> (positive, unresolved + 1))"

fun count_paid ::
  "(peer_id \<rightharpoonup> paid_list_evidence) \<Rightarrow> peer_id list \<Rightarrow> nat \<times> nat \<Rightarrow> nat \<times> nat" where
  "count_paid paid [] acc = acc"
| "count_paid paid (peer # peers) (confirmed, unresolved) =
     count_paid paid peers
       (case paid peer of
          Some Confirmed \<Rightarrow> (confirmed + 1, unresolved)
        | Some NotFound \<Rightarrow> (confirmed, unresolved)
        | Some PaidUnresolved \<Rightarrow> (confirmed, unresolved + 1)
        | None \<Rightarrow> (confirmed, unresolved + 1))"

fun collect_present ::
  "(peer_id \<rightharpoonup> presence_evidence) \<Rightarrow> peer_id list \<Rightarrow> peer_id set \<Rightarrow> peer_id list" where
  "collect_present pres [] seen = []"
| "collect_present pres (peer # peers) seen =
     (if pres peer = Some Present \<and> peer \<notin> seen
      then peer # collect_present pres peers (insert peer seen)
      else collect_present pres peers seen)"

definition collect_present_sources ::
  "key_verification_evidence \<Rightarrow> peer_id list \<Rightarrow> peer_id list \<Rightarrow> peer_id list" where
  "collect_present_sources evidence quorum_peers paid_peers =
     collect_present (presence evidence) (quorum_peers @ paid_peers) {}"

definition present_sources_for_key ::
  "xor_name \<Rightarrow> key_verification_evidence \<Rightarrow> verification_targets \<Rightarrow> peer_id list" where
  "present_sources_for_key key evidence targets =
     collect_present_sources evidence (unwrap_or (quorum_targets targets key) [])
       (unwrap_or (paid_targets targets key) [])"

definition evaluate_key_evidence_with_holder_check ::
  "xor_name \<Rightarrow> key_verification_evidence \<Rightarrow> verification_targets \<Rightarrow> replication_config \<Rightarrow>
     (peer_id \<Rightarrow> xor_name \<Rightarrow> bool) \<Rightarrow> key_verification_outcome" where
  "evaluate_key_evidence_with_holder_check key evidence targets config holder_credit =
     (let quorum_peers = unwrap_or (quorum_targets targets key) [];
          (presence_positive, presence_unresolved) =
            count_presence holder_credit key (presence evidence) quorum_peers (0, 0);
          paid_peers = unwrap_or (paid_targets targets key) [];
          present_peers = collect_present_sources evidence quorum_peers paid_peers;
          (paid_confirmed, paid_unresolved) = count_paid (paid_list_ev evidence) paid_peers (0, 0);
          needed = quorum_needed config (length quorum_peers);
          paid_group_size = unwrap_or (paid_group_sizes targets key) (length paid_peers);
          confirm = confirm_needed paid_group_size
      in if needed > 0 \<and> presence_positive \<ge> needed then QuorumVerified present_peers
         else if paid_group_size > 0 \<and> paid_confirmed \<ge> confirm then PaidListVerified present_peers
         else
           let paid_possible = (paid_group_size > 0 \<and> paid_confirmed + paid_unresolved \<ge> confirm);
               quorum_possible = (needed > 0 \<and> presence_positive + presence_unresolved \<ge> needed)
           in if \<not> paid_possible \<and> \<not> quorum_possible then QuorumFailed else QuorumInconclusive)"

definition evaluate_key_evidence ::
  "xor_name \<Rightarrow> key_verification_evidence \<Rightarrow> verification_targets \<Rightarrow> replication_config \<Rightarrow>
     key_verification_outcome" where
  "evaluate_key_evidence key evidence targets config =
     evaluate_key_evidence_with_holder_check key evidence targets config (\<lambda>_ _. True)"

section \<open>Folding responses into the evidence\<close>

record key_verification_result =
  vr_key :: xor_name
  vr_present :: bool
  vr_paid :: "bool option"

type_synonym evidence_map = "xor_name \<rightharpoonup> key_verification_evidence"

definition empty_evidence :: key_verification_evidence where
  "empty_evidence = \<lparr>presence = Map.empty, paid_list_ev = Map.empty\<rparr>"

definition initial_evidence :: "xor_name list \<Rightarrow> evidence_map" where
  "initial_evidence ks = (\<lambda>k. if k \<in> set ks then Some empty_evidence else None)"

definition mark_key_unresolved ::
  "peer_id \<Rightarrow> verification_targets \<Rightarrow> xor_name \<Rightarrow> evidence_map \<Rightarrow> evidence_map" where
  "mark_key_unresolved peer targets key evidence =
     (case evidence key of None \<Rightarrow> evidence
      | Some ev \<Rightarrow>
          let ev1 = ev\<lparr>presence := (presence ev)(peer \<mapsto> PresenceUnresolved)\<rparr>;
              ev2 = (if is_some_and (peer_to_paid_keys targets peer) (\<lambda>ks. key \<in> ks)
                     then ev1\<lparr>paid_list_ev := (paid_list_ev ev1)(peer \<mapsto> PaidUnresolved)\<rparr>
                     else ev1)
          in evidence(key \<mapsto> ev2))"

definition mark_peer_unresolved ::
  "peer_id \<Rightarrow> verification_targets \<Rightarrow> evidence_map \<Rightarrow> evidence_map" where
  "mark_peer_unresolved peer targets evidence =
     (case peer_to_keys targets peer of None \<Rightarrow> evidence
      | Some peer_keys \<Rightarrow> fold (mark_key_unresolved peer targets) peer_keys evidence)"

definition apply_result ::
  "peer_id \<Rightarrow> xor_name list \<Rightarrow> key_verification_result \<Rightarrow> evidence_map \<Rightarrow> evidence_map" where
  "apply_result peer peer_keys result evidence =
     (if vr_key result \<notin> set peer_keys then evidence
      else case evidence (vr_key result) of None \<Rightarrow> evidence
        | Some ev \<Rightarrow>
            let ev1 = ev\<lparr>presence := (presence ev)(peer \<mapsto>
                  (if vr_present result then Present else Absent))\<rparr>;
                ev2 = (case vr_paid result of None \<Rightarrow> ev1
                  | Some is_paid \<Rightarrow> ev1\<lparr>paid_list_ev := (paid_list_ev ev1)(peer \<mapsto>
                      (if is_paid then Confirmed else NotFound))\<rparr>)
            in evidence(vr_key result \<mapsto> ev2))"

definition or_insert :: "('k \<rightharpoonup> 'v) \<Rightarrow> 'k \<Rightarrow> 'v \<Rightarrow> ('k \<rightharpoonup> 'v)" where
  "or_insert m k v = (case m k of None \<Rightarrow> m(k \<mapsto> v) | Some _ \<Rightarrow> m)"

definition fill_missing ::
  "peer_id \<Rightarrow> verification_targets \<Rightarrow> xor_name \<Rightarrow> evidence_map \<Rightarrow> evidence_map" where
  "fill_missing peer targets key evidence =
     (case evidence key of None \<Rightarrow> evidence
      | Some ev \<Rightarrow>
          let ev1 = ev\<lparr>presence := or_insert (presence ev) peer PresenceUnresolved\<rparr>;
              ev2 = (if is_some_and (peer_to_paid_keys targets peer) (\<lambda>ks. key \<in> ks)
                     then ev1\<lparr>paid_list_ev := or_insert (paid_list_ev ev1) peer PaidUnresolved\<rparr>
                     else ev1)
          in evidence(key \<mapsto> ev2))"

definition process_verification_response ::
  "peer_id \<Rightarrow> key_verification_result list \<Rightarrow> verification_targets \<Rightarrow> evidence_map \<Rightarrow>
     evidence_map" where
  "process_verification_response peer results targets evidence =
     (case peer_to_keys targets peer of None \<Rightarrow> evidence
      | Some peer_keys \<Rightarrow>
          let max_results = sat_mul64 (length peer_keys) 2;
              used = (if length results > max_results then take max_results results else results);
              evidence1 = fold (apply_result peer peer_keys) used evidence
          in fold (fill_missing peer targets) peer_keys evidence1)"

text \<open>
  What comes back for the request sent to one peer: nothing usable (send, encode or decode
  failure), a response of another kind, the results, or nothing because the task panicked.
\<close>

datatype peer_reply =
  NoReply | OtherBody | VerificationReply "key_verification_result list" | TaskPanicked

definition collect_reply ::
  "verification_targets \<Rightarrow> peer_id \<times> peer_reply \<Rightarrow> evidence_map \<Rightarrow> evidence_map" where
  "collect_reply targets = (\<lambda>(peer, reply) evidence.
     case reply of
       TaskPanicked \<Rightarrow> evidence
     | NoReply \<Rightarrow> mark_peer_unresolved peer targets evidence
     | OtherBody \<Rightarrow> evidence
     | VerificationReply results \<Rightarrow> process_verification_response peer results targets evidence)"

definition run_verification_round ::
  "xor_name list \<Rightarrow> verification_targets \<Rightarrow> (peer_id \<times> peer_reply) list \<Rightarrow> evidence_map" where
  "run_verification_round ks targets replies =
     fold (collect_reply targets) replies (initial_evidence ks)"

definition paid_list_check_indices :: "verification_targets \<Rightarrow> peer_id \<Rightarrow> xor_name list \<Rightarrow> nat list" where
  "paid_list_check_indices targets peer peer_keys =
     List.map_filter (\<lambda>(i, key).
        if is_some_and (peer_to_paid_keys targets peer) (\<lambda>ks. key \<in> ks)
        then u32_try_from i else None) (enumerate 0 peer_keys)"

section \<open>Counting lemmas\<close>

abbreviation quorum_peers_of :: "verification_targets \<Rightarrow> xor_name \<Rightarrow> peer_id list" where
  "quorum_peers_of t key \<equiv> unwrap_or (quorum_targets t key) []"

abbreviation paid_peers_of :: "verification_targets \<Rightarrow> xor_name \<Rightarrow> peer_id list" where
  "paid_peers_of t key \<equiv> unwrap_or (paid_targets t key) []"

abbreviation paid_size_of :: "verification_targets \<Rightarrow> xor_name \<Rightarrow> nat" where
  "paid_size_of t key \<equiv> unwrap_or (paid_group_sizes t key) (length (paid_peers_of t key))"

abbreviation credited_positives ::
  "(peer_id \<Rightarrow> xor_name \<Rightarrow> bool) \<Rightarrow> xor_name \<Rightarrow> key_verification_evidence \<Rightarrow>
     verification_targets \<Rightarrow> peer_id list" where
  "credited_positives credit key ev t \<equiv>
     filter (\<lambda>p. presence ev p = Some Present \<and> credit p key) (quorum_peers_of t key)"

abbreviation absents :: "xor_name \<Rightarrow> key_verification_evidence \<Rightarrow> verification_targets \<Rightarrow> peer_id list" where
  "absents key ev t \<equiv> filter (\<lambda>p. presence ev p = Some Absent) (quorum_peers_of t key)"

abbreviation confirmations :: "xor_name \<Rightarrow> key_verification_evidence \<Rightarrow> verification_targets \<Rightarrow> peer_id list" where
  "confirmations key ev t \<equiv> filter (\<lambda>p. paid_list_ev ev p = Some Confirmed) (paid_peers_of t key)"

abbreviation denials :: "xor_name \<Rightarrow> key_verification_evidence \<Rightarrow> verification_targets \<Rightarrow> peer_id list" where
  "denials key ev t \<equiv> filter (\<lambda>p. paid_list_ev ev p = Some NotFound) (paid_peers_of t key)"

lemma count_presence_eq:
  "count_presence credit key pres ps (a, b) =
     (a + length (filter (\<lambda>p. pres p = Some Present \<and> credit p key) ps),
      b + (length ps - length (filter (\<lambda>p. pres p = Some Present \<and> credit p key) ps)
             - length (filter (\<lambda>p. pres p = Some Absent) ps)))"
proof (induction ps arbitrary: a b)
  case (Cons p ps)
  have "length (filter (\<lambda>p. pres p = Some Present \<and> credit p key) ps) +
      length (filter (\<lambda>p. pres p = Some Absent) ps) \<le> length ps"
    by (induction ps) auto
  with Cons show ?case by (auto split: option.splits presence_evidence.splits)
qed simp

lemma count_paid_eq:
  "count_paid paid ps (a, b) =
     (a + length (filter (\<lambda>p. paid p = Some Confirmed) ps),
      b + (length ps - length (filter (\<lambda>p. paid p = Some Confirmed) ps)
             - length (filter (\<lambda>p. paid p = Some NotFound) ps)))"
proof (induction ps arbitrary: a b)
  case (Cons p ps)
  have "length (filter (\<lambda>p. paid p = Some Confirmed) ps) +
      length (filter (\<lambda>p. paid p = Some NotFound) ps) \<le> length ps"
    by (induction ps) auto
  with Cons show ?case by (auto split: option.splits paid_list_evidence.splits)
qed simp

lemma positives_absents_le:
  "length (filter (\<lambda>p. f p = Some Present \<and> c p) ps) + length (filter (\<lambda>p. f p = Some Absent) ps)
     \<le> length ps"
  by (induction ps) auto

lemma confirmations_denials_le:
  "length (filter (\<lambda>p. f p = Some Confirmed) ps) + length (filter (\<lambda>p. f p = Some NotFound) ps)
     \<le> length ps"
  by (induction ps) auto

lemma evaluate_eq:
  "evaluate_key_evidence_with_holder_check key ev t config credit =
     (let needed = quorum_needed config (length (quorum_peers_of t key));
          confirm = confirm_needed (paid_size_of t key);
          sources = present_sources_for_key key ev t
      in if 0 < needed \<and> needed \<le> length (credited_positives credit key ev t)
         then QuorumVerified sources
         else if 0 < paid_size_of t key \<and> confirm \<le> length (confirmations key ev t)
         then PaidListVerified sources
         else if (0 < paid_size_of t key \<and>
                  confirm + length (denials key ev t) \<le> length (paid_peers_of t key)) \<or>
                 (0 < needed \<and>
                  needed + length (absents key ev t) \<le> length (quorum_peers_of t key))
         then QuorumInconclusive else QuorumFailed)"
  using positives_absents_le [of "presence ev" "\<lambda>p. credit p key" "quorum_peers_of t key"]
    confirmations_denials_le [of "paid_list_ev ev" "paid_peers_of t key"]
  by (auto simp: evaluate_key_evidence_with_holder_check_def count_presence_eq count_paid_eq
      present_sources_for_key_def Let_def)

definition is_verified :: "key_verification_outcome \<Rightarrow> bool" where
  "is_verified r = (case r of QuorumVerified _ \<Rightarrow> True | PaidListVerified _ \<Rightarrow> True | _ \<Rightarrow> False)"

lemma is_verified_simps [simp]:
  "is_verified (QuorumVerified s)" "is_verified (PaidListVerified s)"
  "\<not> is_verified QuorumFailed" "\<not> is_verified QuorumInconclusive"
  by (simp_all add: is_verified_def)

text \<open>
  A completion of the evidence: every answer stays, open answers may be filled in and peers whose
  presence claim was not credited may become credited.
\<close>

definition completes :: "key_verification_evidence \<Rightarrow> key_verification_evidence \<Rightarrow> bool" where
  "completes ev' ev \<longleftrightarrow>
     (\<forall>p. (presence ev p = Some Present \<longrightarrow> presence ev' p = Some Present) \<and>
          (presence ev p = Some Absent \<longrightarrow> presence ev' p = Some Absent) \<and>
          (paid_list_ev ev p = Some Confirmed \<longrightarrow> paid_list_ev ev' p = Some Confirmed) \<and>
          (paid_list_ev ev p = Some NotFound \<longrightarrow> paid_list_ev ev' p = Some NotFound))"

lemma length_filter_mono: "(\<And>x. P x \<Longrightarrow> Q x) \<Longrightarrow> length (filter P xs) \<le> length (filter Q xs)"
  by (induction xs) auto

lemma completes_absents: "completes ev' ev \<Longrightarrow> length (absents key ev t) \<le> length (absents key ev' t)"
  by (rule length_filter_mono) (auto simp: completes_def)

lemma completes_denials: "completes ev' ev \<Longrightarrow> length (denials key ev t) \<le> length (denials key ev' t)"
  by (rule length_filter_mono) (auto simp: completes_def)

lemma completes_positives:
  "completes ev' ev \<Longrightarrow> (\<And>p. credit p key \<Longrightarrow> credit' p key) \<Longrightarrow>
     length (credited_positives credit key ev t) \<le> length (credited_positives credit' key ev' t)"
  by (rule length_filter_mono) (auto simp: completes_def)

lemma completes_confirmations:
  "completes ev' ev \<Longrightarrow> length (confirmations key ev t) \<le> length (confirmations key ev' t)"
  by (rule length_filter_mono) (auto simp: completes_def)

text \<open>The most favourable completion.\<close>

definition best_case :: "key_verification_evidence \<Rightarrow> key_verification_evidence" where
  "best_case ev =
     \<lparr>presence = (\<lambda>p. if presence ev p = Some Absent then Some Absent else Some Present),
      paid_list_ev = (\<lambda>p. if paid_list_ev ev p = Some NotFound then Some NotFound else Some Confirmed)\<rparr>"

lemma best_case_completes: "completes (best_case ev) ev"
  by (simp add: completes_def best_case_def)

lemma best_case_positives:
  "length (credited_positives (\<lambda>_ _. True) key (best_case ev) t) + length (absents key ev t) =
     length (quorum_peers_of t key)"
  using sum_length_filter_compl [of "\<lambda>p. presence ev p = Some Absent" "quorum_peers_of t key"]
  by (simp add: best_case_def)

lemma best_case_confirmations:
  "length (confirmations key (best_case ev) t) + length (denials key ev t) =
     length (paid_peers_of t key)"
  using sum_length_filter_compl [of "\<lambda>p. paid_list_ev ev p = Some NotFound" "paid_peers_of t key"]
  by (simp add: best_case_def)

lemma not_failed_best_case:
  assumes "evaluate_key_evidence_with_holder_check key ev t config credit \<noteq> QuorumFailed"
  shows "is_verified (evaluate_key_evidence_with_holder_check key (best_case ev) t config (\<lambda>_ _. True))"
proof -
  have "length (credited_positives credit key ev t) + length (absents key ev t) \<le>
      length (quorum_peers_of t key)"
    by (rule positives_absents_le)
  moreover have "length (confirmations key ev t) + length (denials key ev t) \<le>
      length (paid_peers_of t key)"
    by (rule confirmations_denials_le)
  ultimately show ?thesis
    using assms best_case_positives [where key = key and ev = ev and t = t]
      best_case_confirmations [where key = key and ev = ev and t = t]
    by (auto simp: evaluate_eq Let_def split: if_splits)
qed

lemma failed_stays_failed:
  assumes "evaluate_key_evidence_with_holder_check key ev t config credit = QuorumFailed"
    and "completes ev' ev"
  shows "\<not> is_verified (evaluate_key_evidence_with_holder_check key ev' t config credit')"
proof -
  have "length (credited_positives credit' key ev' t) + length (absents key ev' t) \<le>
      length (quorum_peers_of t key)"
    by (rule positives_absents_le)
  moreover have "length (confirmations key ev' t) + length (denials key ev' t) \<le>
      length (paid_peers_of t key)"
    by (rule confirmations_denials_le)
  ultimately show ?thesis
    using assms(1) completes_absents [OF assms(2), where key = key and t = t]
      completes_denials [OF assms(2), where key = key and t = t]
    by (auto simp: evaluate_eq Let_def split: if_splits)
qed

lemma collect_present_props:
  "distinct (collect_present pres ps seen) \<and>
   set (collect_present pres ps seen) = {p \<in> set ps. pres p = Some Present} - seen"
  by (induction ps arbitrary: seen) auto

lemma present_sources_props:
  "distinct (present_sources_for_key key ev t) \<and>
   set (present_sources_for_key key ev t) =
     {p \<in> set (quorum_peers_of t key) \<union> set (paid_peers_of t key). presence ev p = Some Present}"
  using collect_present_props [of "presence ev" "quorum_peers_of t key @ paid_peers_of t key" "{}"]
  by (auto simp: present_sources_for_key_def collect_present_sources_def)

section \<open>Properties of the evaluation\<close>

text \<open>
  C13. Fail-fast is exact: a key is declared failed if and only if no completion of the evidence,
  whatever the open peers still answer and whoever becomes credited, could verify it; so an
  inconclusive key is one that some completion verifies.
\<close>

theorem fail_fast_exact:
  "evaluate_key_evidence_with_holder_check key ev t config credit = QuorumFailed \<longleftrightarrow>
     \<not> (\<exists>ev' credit'. completes ev' ev \<and> (\<forall>p. credit p key \<longrightarrow> credit' p key) \<and>
          is_verified (evaluate_key_evidence_with_holder_check key ev' t config credit'))"
proof
  assume "evaluate_key_evidence_with_holder_check key ev t config credit = QuorumFailed"
  then show "\<not> (\<exists>ev' credit'. completes ev' ev \<and> (\<forall>p. credit p key \<longrightarrow> credit' p key) \<and>
      is_verified (evaluate_key_evidence_with_holder_check key ev' t config credit'))"
    using failed_stays_failed by metis
next
  assume none: "\<not> (\<exists>ev' credit'. completes ev' ev \<and> (\<forall>p. credit p key \<longrightarrow> credit' p key) \<and>
      is_verified (evaluate_key_evidence_with_holder_check key ev' t config credit'))"
  show "evaluate_key_evidence_with_holder_check key ev t config credit = QuorumFailed"
  proof (rule ccontr)
    assume "evaluate_key_evidence_with_holder_check key ev t config credit \<noteq> QuorumFailed"
    from not_failed_best_case [OF this] best_case_completes none show False by metis
  qed
qed

definition example_targets :: verification_targets where
  "example_targets = \<lparr>quorum_targets = [1 \<mapsto> [10, 11, 12]], paid_targets = [1 \<mapsto> [10, 20, 21]],
     paid_group_sizes = [1 \<mapsto> 4], all_peers = {10, 11, 12, 20, 21},
     peer_to_keys = [10 \<mapsto> [1], 11 \<mapsto> [1], 12 \<mapsto> [1], 20 \<mapsto> [1], 21 \<mapsto> [1]],
     peer_to_paid_keys = [10 \<mapsto> {1}, 20 \<mapsto> {1}, 21 \<mapsto> {1}]\<rparr>"

definition example_evidence :: key_verification_evidence where
  "example_evidence = \<lparr>presence = [10 \<mapsto> Present, 11 \<mapsto> Absent, 12 \<mapsto> Absent],
     paid_list_ev = [10 \<mapsto> Confirmed, 20 \<mapsto> NotFound, 21 \<mapsto> Confirmed]\<rparr>"

theorem fail_fast_exact_witness:
  "evaluate_key_evidence_with_holder_check 1 example_evidence example_targets (default_config 7)
     (\<lambda>_ _. True) = QuorumFailed \<and>
   \<not> (\<exists>ev'. completes ev' example_evidence \<and>
     is_verified (evaluate_key_evidence_with_holder_check 1 ev' example_targets (default_config 7)
       (\<lambda>_ _. True)))"
proof -
  have "evaluate_key_evidence_with_holder_check 1 example_evidence example_targets
      (default_config 7) (\<lambda>_ _. True) = QuorumFailed"
    by (simp add: evaluate_key_evidence_with_holder_check_def example_evidence_def
        example_targets_def quorum_needed_def confirm_needed_def default_config_def
        QUORUM_THRESHOLD_def)
  with fail_fast_exact [of 1 example_evidence example_targets "default_config 7" "\<lambda>_ _. True"]
  show ?thesis by metis
qed

text \<open>
  C14. What a verified outcome rests on: a presence quorum needs as many credited holders among the
  quorum targets as the threshold demands, a paid-list outcome needs confirmations from more than
  half of the paid close group, and in both cases the fetch sources are, without repetition,
  exactly the target peers that answered \<open>Present\<close>.
\<close>

theorem verified_outcome_backed:
  assumes "evaluate_key_evidence_with_holder_check key ev t config credit = r"
    and "r = QuorumVerified sources \<or> r = PaidListVerified sources"
  shows "distinct sources \<and>
    set sources = {p \<in> set (quorum_peers_of t key) \<union> set (paid_peers_of t key).
      presence ev p = Some Present} \<and>
    (r = QuorumVerified sources \<longrightarrow>
       0 < quorum_needed config (length (quorum_peers_of t key)) \<and>
       quorum_needed config (length (quorum_peers_of t key)) \<le>
         length (filter (\<lambda>p. presence ev p = Some Present \<and> credit p key) (quorum_peers_of t key))) \<and>
    (r = PaidListVerified sources \<longrightarrow>
       paid_size_of t key <
         2 * length (filter (\<lambda>p. paid_list_ev ev p = Some Confirmed) (paid_peers_of t key)))"
proof -
  from assms have "sources = present_sources_for_key key ev t"
    by (auto simp: evaluate_eq Let_def split: if_splits)
  with assms present_sources_props [of key ev t] show ?thesis
    by (auto simp: evaluate_eq Let_def confirm_needed_def split: if_splits)
qed

theorem verified_outcome_backed_witness:
  "evaluate_key_evidence_with_holder_check 1
     (example_evidence\<lparr>paid_list_ev := [10 \<mapsto> Confirmed, 20 \<mapsto> Confirmed, 21 \<mapsto> Confirmed]\<rparr>)
     example_targets (default_config 7) (\<lambda>_ _. True) = PaidListVerified [10] \<and>
   (4 :: nat) < 2 * 3"
proof -
  let ?ev = "example_evidence\<lparr>paid_list_ev := [10 \<mapsto> Confirmed, 20 \<mapsto> Confirmed, 21 \<mapsto> Confirmed]\<rparr>"
  have "evaluate_key_evidence_with_holder_check 1 ?ev example_targets (default_config 7)
      (\<lambda>_ _. True) = PaidListVerified [10]"
    by (simp add: evaluate_key_evidence_with_holder_check_def example_evidence_def
        example_targets_def quorum_needed_def confirm_needed_def default_config_def
        QUORUM_THRESHOLD_def collect_present_sources_def)
  from this verified_outcome_backed [OF this, of "[10]"] show ?thesis
    by (simp add: example_targets_def)
qed

section \<open>Responses\<close>

definition presence_of :: "evidence_map \<Rightarrow> xor_name \<Rightarrow> peer_id \<Rightarrow> presence_evidence option" where
  "presence_of E k p = (case E k of None \<Rightarrow> None | Some ev \<Rightarrow> presence ev p)"

definition paid_of :: "evidence_map \<Rightarrow> xor_name \<Rightarrow> peer_id \<Rightarrow> paid_list_evidence option" where
  "paid_of E k p = (case E k of None \<Rightarrow> None | Some ev \<Rightarrow> paid_list_ev ev p)"

lemma apply_result_dom [simp]: "dom (apply_result peer ks r E) = dom E"
  by (auto simp: apply_result_def Let_def split: option.splits)

lemma fill_missing_dom [simp]: "dom (fill_missing peer t k E) = dom E"
  by (auto simp: fill_missing_def Let_def split: option.splits)

lemma mark_key_unresolved_dom [simp]: "dom (mark_key_unresolved peer t k E) = dom E"
  by (auto simp: mark_key_unresolved_def Let_def split: option.splits)

lemma fold_dom:
  "(\<And>x E. dom (f x E) = dom E) \<Longrightarrow> dom (fold f xs (E :: 'k \<rightharpoonup> 'v)) = dom E"
  by (induction xs arbitrary: E) auto

lemma presence_of_apply_result:
  "presence_of (apply_result peer ks r E) k p =
     (if k = vr_key r \<and> p = peer \<and> k \<in> set ks \<and> k \<in> dom E
      then Some (if vr_present r then Present else Absent) else presence_of E k p)"
  by (auto simp: apply_result_def presence_of_def Let_def split: option.splits)

lemma paid_of_apply_result_other:
  "p \<noteq> peer \<or> k \<notin> set ks \<Longrightarrow> paid_of (apply_result peer ks r E) k p = paid_of E k p"
  by (auto simp: apply_result_def paid_of_def Let_def split: option.splits)

lemma presence_of_fill_missing:
  "presence_of (fill_missing peer t key E) k p =
     (if k = key \<and> p = peer \<and> k \<in> dom E \<and> presence_of E k p = None
      then Some PresenceUnresolved else presence_of E k p)"
  by (auto simp: fill_missing_def presence_of_def or_insert_def Let_def split: option.splits)

lemma paid_of_fill_missing_other:
  "p \<noteq> peer \<or> k \<noteq> key \<Longrightarrow> paid_of (fill_missing peer t key E) k p = paid_of E k p"
  by (auto simp: fill_missing_def paid_of_def or_insert_def Let_def split: option.splits)

lemma presence_of_mark_key_unresolved:
  "presence_of (mark_key_unresolved peer t key E) k p =
     (if k = key \<and> p = peer \<and> k \<in> dom E then Some PresenceUnresolved else presence_of E k p)"
  by (auto simp: mark_key_unresolved_def presence_of_def Let_def split: option.splits)

lemma fold_apply_other:
  "p \<noteq> peer \<or> k \<notin> set ks \<Longrightarrow>
     presence_of (fold (apply_result peer ks) rs E) k p = presence_of E k p \<and>
     paid_of (fold (apply_result peer ks) rs E) k p = paid_of E k p"
  by (induction rs arbitrary: E) (auto simp: presence_of_apply_result paid_of_apply_result_other)

lemma fold_fill_other:
  "p \<noteq> peer \<or> k \<notin> set ks \<Longrightarrow>
     presence_of (fold (fill_missing peer t) ks E) k p = presence_of E k p \<and>
     paid_of (fold (fill_missing peer t) ks E) k p = paid_of E k p"
  by (induction ks arbitrary: E) (auto simp: presence_of_fill_missing paid_of_fill_missing_other)

lemma fold_fill_present:
  "k \<in> dom E \<Longrightarrow> k \<in> set ks \<Longrightarrow>
     presence_of (fold (fill_missing peer t) ks E) k peer =
       (case presence_of E k peer of None \<Rightarrow> Some PresenceUnresolved | Some v \<Rightarrow> Some v)"
proof (induction ks arbitrary: E)
  case (Cons a ks)
  let ?E = "fill_missing peer t a E"
  have "k \<in> dom ?E" using Cons.prems(1) by simp
  with Cons fold_fill_other [of peer peer k ks t ?E] show ?case
    by (cases "k \<in> set ks") (auto simp: presence_of_fill_missing split: option.splits)
qed simp

lemma presence_fold_apply_Present:
  "presence_of (fold (apply_result peer ks) rs E) k p = Some Present \<Longrightarrow>
     presence_of E k p = Some Present \<or>
     p = peer \<and> k \<in> set ks \<and> (\<exists>r\<in>set rs. vr_key r = k \<and> vr_present r)"
  by (induction rs arbitrary: E) (fastforce simp: presence_of_apply_result split: if_splits)+

lemma presence_fold_fill_Present:
  "presence_of (fold (fill_missing peer t) ks E) k p = Some Present \<Longrightarrow>
     presence_of E k p = Some Present"
  by (induction ks arbitrary: E) (fastforce simp: presence_of_fill_missing split: if_splits)+

lemma presence_fold_mark_Present:
  "presence_of (fold (mark_key_unresolved peer t) ks E) k p = Some Present \<Longrightarrow>
     presence_of E k p = Some Present"
  by (induction ks arbitrary: E) (fastforce simp: presence_of_mark_key_unresolved split: if_splits)+

lemma process_Present:
  assumes "presence_of (process_verification_response peer rs t E) k p = Some Present"
  shows "presence_of E k p = Some Present \<or>
    p = peer \<and> k \<in> set (unwrap_or (peer_to_keys t peer) []) \<and>
      (\<exists>r\<in>set rs. vr_key r = k \<and> vr_present r)"
proof (cases "peer_to_keys t peer")
  case None
  with assms show ?thesis by (simp add: process_verification_response_def)
next
  case (Some ks)
  let ?n = "sat_mul64 (length ks) 2"
  let ?used = "if ?n < length rs then take ?n rs else rs"
  from assms Some have "presence_of (fold (apply_result peer ks) ?used E) k p = Some Present"
    by (auto simp: process_verification_response_def Let_def dest: presence_fold_fill_Present)
  from presence_fold_apply_Present [OF this] Some show ?thesis
    by (auto split: if_splits dest: in_set_takeD)
qed

lemma collect_reply_Present:
  assumes "presence_of (collect_reply t (peer, reply) E) k p = Some Present"
  shows "presence_of E k p = Some Present \<or>
    p = peer \<and> k \<in> set (unwrap_or (peer_to_keys t peer) []) \<and>
      (\<exists>rs. reply = VerificationReply rs \<and> (\<exists>r\<in>set rs. vr_key r = k \<and> vr_present r))"
  using assms process_Present [of peer _ t E k p]
  by (auto simp: collect_reply_def mark_peer_unresolved_def
      split: peer_reply.splits option.splits dest: presence_fold_mark_Present)

lemma process_dom: "dom (process_verification_response peer rs t E) = dom E"
  by (auto simp: process_verification_response_def Let_def fold_dom split: option.splits)

lemma fold_collect_Present:
  "presence_of (fold (collect_reply t) reps E) k p = Some Present \<Longrightarrow>
     presence_of E k p = Some Present \<or> k \<in> set (unwrap_or (peer_to_keys t p) []) \<and>
       (\<exists>rs. (p, VerificationReply rs) \<in> set reps \<and> (\<exists>r\<in>set rs. vr_key r = k \<and> vr_present r))"
proof (induction reps arbitrary: E)
  case (Cons a reps)
  obtain peer reply where a: "a = (peer, reply)" by (cases a)
  from Cons.prems a
  have "presence_of (fold (collect_reply t) reps (collect_reply t (peer, reply) E)) k p = Some Present"
    by simp
  from Cons.IH [OF this] collect_reply_Present [of t peer reply E k p] a show ?case by auto
qed simp

text \<open>The same for the paid-list evidence.\<close>

lemma paid_of_apply_result_Confirmed:
  "paid_of (apply_result peer ks r E) k p = Some Confirmed \<Longrightarrow>
     paid_of E k p = Some Confirmed \<or> p = peer \<and> vr_key r = k \<and> vr_paid r = Some True"
  by (auto simp: apply_result_def paid_of_def Let_def split: option.splits if_splits)

lemma paid_of_fill_missing_Confirmed:
  "paid_of (fill_missing peer t key E) k p = Some Confirmed \<Longrightarrow> paid_of E k p = Some Confirmed"
  by (auto simp: fill_missing_def paid_of_def or_insert_def Let_def split: option.splits if_splits)

lemma paid_of_mark_Confirmed:
  "paid_of (mark_key_unresolved peer t key E) k p = Some Confirmed \<Longrightarrow> paid_of E k p = Some Confirmed"
  by (auto simp: mark_key_unresolved_def paid_of_def Let_def split: option.splits if_splits)

lemma collect_reply_Confirmed:
  assumes "paid_of (collect_reply t (peer, reply) E) k p = Some Confirmed"
  shows "paid_of E k p = Some Confirmed \<or> p = peer \<and>
    (\<exists>rs. reply = VerificationReply rs \<and> (\<exists>r\<in>set rs. vr_key r = k \<and> vr_paid r = Some True))"
proof -
  have mark: "paid_of (fold (mark_key_unresolved peer t) ks E) k p = Some Confirmed \<Longrightarrow>
      paid_of E k p = Some Confirmed" for ks E
    by (induction ks arbitrary: E) (auto dest: paid_of_mark_Confirmed)
  have fill: "paid_of (fold (fill_missing peer t) ks E) k p = Some Confirmed \<Longrightarrow>
      paid_of E k p = Some Confirmed" for ks E
    by (induction ks arbitrary: E) (auto dest: paid_of_fill_missing_Confirmed)
  have app: "paid_of (fold (apply_result peer ks) rs E) k p = Some Confirmed \<Longrightarrow>
      paid_of E k p = Some Confirmed \<or> p = peer \<and> (\<exists>r\<in>set rs. vr_key r = k \<and> vr_paid r = Some True)"
    for ks rs E
    by (induction rs arbitrary: E) (fastforce dest: paid_of_apply_result_Confirmed)+
  show ?thesis
    using assms
    by (auto simp: collect_reply_def mark_peer_unresolved_def process_verification_response_def Let_def
        split: peer_reply.splits option.splits if_splits dest!: mark fill app dest: in_set_takeD)
qed

lemma fold_collect_Confirmed:
  "paid_of (fold (collect_reply t) reps E) k p = Some Confirmed \<Longrightarrow>
     paid_of E k p = Some Confirmed \<or>
     (\<exists>rs. (p, VerificationReply rs) \<in> set reps \<and> (\<exists>r\<in>set rs. vr_key r = k \<and> vr_paid r = Some True))"
proof (induction reps arbitrary: E)
  case (Cons a reps)
  obtain peer reply where a: "a = (peer, reply)" by (cases a)
  with Cons.prems Cons.IH [of "collect_reply t a E"] collect_reply_Confirmed [of t peer reply E k p]
  show ?case by auto
qed simp

section \<open>Properties of a round\<close>

text \<open>
  Nobody speaks for anybody else: presence evidence credited to a peer for a key comes from
  that peer's own response, for a key that was asked of it, in a result that says \<open>present\<close>.
\<close>

theorem presence_from_own_reply:
  assumes "presence_of (run_verification_round ks t replies) k p = Some Present"
  shows "k \<in> set (unwrap_or (peer_to_keys t p) []) \<and>
    (\<exists>rs. (p, VerificationReply rs) \<in> set replies \<and>
      (\<exists>r\<in>set rs. vr_key r = k \<and> vr_present r))"
proof -
  from assms fold_collect_Present [of t replies "initial_evidence ks" k p] show ?thesis
    by (auto simp: run_verification_round_def initial_evidence_def presence_of_def
        empty_evidence_def split: if_splits)
qed

theorem presence_from_own_reply_witness:
  "presence_of (run_verification_round [1] example_targets
     [(10, VerificationReply [\<lparr>vr_key = 1, vr_present = True, vr_paid = None\<rparr>]),
      (11, NoReply)]) 1 10 = Some Present \<and>
   1 \<in> set (unwrap_or (peer_to_keys example_targets 10) [])"
proof -
  let ?rs = "[(10, VerificationReply [\<lparr>vr_key = 1, vr_present = True, vr_paid = None\<rparr>]),
      (11, NoReply)]"
  have "presence_of (run_verification_round [1] example_targets ?rs) 1 10 = Some Present"
    by (simp add: run_verification_round_def initial_evidence_def collect_reply_def
        process_verification_response_def apply_result_def fill_missing_def or_insert_def
        mark_peer_unresolved_def mark_key_unresolved_def example_targets_def empty_evidence_def
        presence_of_def sat_mul64_def u64_max_def Let_def)
  from this presence_from_own_reply [OF this] show ?thesis by blast
qed

text \<open>
  Processing one response is confined: the set of keys with evidence does not change, the
  evidence of every other peer and of every key that was not asked of this peer stays as it was,
  and every asked key that has evidence ends with an answer (or \<open>Unresolved\<close>) of this peer.
\<close>

theorem response_processing_confined:
  assumes "peer_to_keys t peer = Some asked"
  shows "dom (process_verification_response peer rs t E) = dom E \<and>
    (\<forall>k p. p \<noteq> peer \<or> k \<notin> set asked \<longrightarrow>
       presence_of (process_verification_response peer rs t E) k p = presence_of E k p \<and>
       paid_of (process_verification_response peer rs t E) k p = paid_of E k p) \<and>
    (\<forall>k \<in> set asked \<inter> dom E.
       presence_of (process_verification_response peer rs t E) k peer \<noteq> None)"
proof -
  define n where "n = sat_mul64 (length asked) 2"
  define used where "used = (if n < length rs then take n rs else rs)"
  define E1 where "E1 = fold (apply_result peer asked) used E"
  have E': "process_verification_response peer rs t E = fold (fill_missing peer t) asked E1"
    using assms by (simp add: process_verification_response_def Let_def E1_def used_def n_def)
  have "dom E1 = dom E" by (simp add: E1_def fold_dom)
  then show ?thesis
    using fold_fill_other [of _ peer _ asked t E1] fold_apply_other [of _ peer _ asked used E]
      fold_fill_present [of _ E1 asked peer t] process_dom [of peer rs t E]
    by (fastforce simp: E' E1_def split: option.splits)
qed

theorem response_processing_confined_witness:
  "presence_of (process_verification_response 10 [] example_targets [1 \<mapsto> example_evidence]) 1 11
     = Some Absent"
proof -
  have "peer_to_keys example_targets 10 = Some [1]" by (simp add: example_targets_def)
  from response_processing_confined [OF this, of "[]" "[1 \<mapsto> example_evidence]"]
  show ?thesis by (auto simp: presence_of_def example_evidence_def)
qed

section \<open>Targets\<close>

lemma fold_add_quorum_peer:
  "peer_to_keys (fold (add_quorum_peer key) ps t) p =
     (if p \<in> set ps then Some (unwrap_or (peer_to_keys t p) [] @ replicate (count_list ps p) key)
      else peer_to_keys t p)"
  "peer_to_paid_keys (fold (add_quorum_peer key) ps t) = peer_to_paid_keys t"
  "quorum_targets (fold (add_quorum_peer key) ps t) = quorum_targets t"
  "paid_targets (fold (add_quorum_peer key) ps t) = paid_targets t"
  "paid_group_sizes (fold (add_quorum_peer key) ps t) = paid_group_sizes t"
  by (induction ps arbitrary: t)
     (auto simp: add_quorum_peer_def replicate_append_same count_list_0_iff)

lemma fold_add_paid_peer:
  "peer_to_keys (fold (add_paid_peer key) ps t) p =
     (if p \<in> set ps then Some (unwrap_or (peer_to_keys t p) [] @ replicate (count_list ps p) key)
      else peer_to_keys t p)"
  "peer_to_paid_keys (fold (add_paid_peer key) ps t) p =
     (if p \<in> set ps then Some (insert key (unwrap_or (peer_to_paid_keys t p) {}))
      else peer_to_paid_keys t p)"
  "quorum_targets (fold (add_paid_peer key) ps t) = quorum_targets t"
  "paid_targets (fold (add_paid_peer key) ps t) = paid_targets t"
  "paid_group_sizes (fold (add_paid_peer key) ps t) = paid_group_sizes t"
  by (induction ps arbitrary: t)
     (auto simp: add_paid_peer_def replicate_append_same count_list_0_iff)

abbreviation asked_keys :: "verification_targets \<Rightarrow> peer_id \<Rightarrow> xor_name set" where
  "asked_keys t p \<equiv> set (unwrap_or (peer_to_keys t p) [])"

abbreviation asked_paid_keys :: "verification_targets \<Rightarrow> peer_id \<Rightarrow> xor_name set" where
  "asked_paid_keys t p \<equiv> unwrap_or (peer_to_paid_keys t p) {}"

lemma add_key_targets_asked:
  fixes fc fcs config self_id key
  defines "qp \<equiv> filter (\<lambda>p. p \<noteq> self_id) (fc key (close_group_size config))"
    and "pp \<equiv> filter (\<lambda>p. p \<noteq> self_id) (fcs key (paid_list_close_group_size config))"
  shows "asked_keys (add_key_targets fc fcs config self_id key t) p =
      (if p \<in> set qp \<union> set pp then insert key (asked_keys t p) else asked_keys t p)"
    "asked_paid_keys (add_key_targets fc fcs config self_id key t) p =
      (if p \<in> set pp then insert key (asked_paid_keys t p) else asked_paid_keys t p)"
    "quorum_targets (add_key_targets fc fcs config self_id key t) = (quorum_targets t)(key \<mapsto> qp)"
    "paid_targets (add_key_targets fc fcs config self_id key t) = (paid_targets t)(key \<mapsto> pp)"
  by (auto simp: add_key_targets_def Let_def qp_def pp_def fold_add_quorum_peer fold_add_paid_peer
      count_list_0_iff)

lemma fold_targets_asked:
  fixes fc fcs config self_id
  defines "qp \<equiv> \<lambda>k. filter (\<lambda>p. p \<noteq> self_id) (fc k (close_group_size config))"
    and "pp \<equiv> \<lambda>k. filter (\<lambda>p. p \<noteq> self_id) (fcs k (paid_list_close_group_size config))"
  shows "asked_keys (fold (add_key_targets fc fcs config self_id) ks t) p =
      asked_keys t p \<union> {k \<in> set ks. p \<in> set (qp k) \<union> set (pp k)}"
    "asked_paid_keys (fold (add_key_targets fc fcs config self_id) ks t) p =
      asked_paid_keys t p \<union> {k \<in> set ks. p \<in> set (pp k)}"
    "quorum_targets (fold (add_key_targets fc fcs config self_id) ks t) k =
      (if k \<in> set ks then Some (qp k) else quorum_targets t k)"
    "paid_targets (fold (add_key_targets fc fcs config self_id) ks t) k =
      (if k \<in> set ks then Some (pp k) else paid_targets t k)"
  unfolding qp_def pp_def
  by (induction ks arbitrary: t) (auto simp: add_key_targets_asked)

lemma dedup_keys_asked:
  "asked_keys (dedup_keys t) p = asked_keys t p"
  "asked_paid_keys (dedup_keys t) p = asked_paid_keys t p"
  "quorum_targets (dedup_keys t) = quorum_targets t"
  "paid_targets (dedup_keys t) = paid_targets t"
  by (auto simp: dedup_keys_def unwrap_or_def split: option.splits)

lemma distinct_remdups_adj_sorted:
  "sorted xs \<Longrightarrow> distinct (remdups_adj xs)"
  by (induction xs rule: remdups_adj.induct) auto

lemma dedup_keys_sorted:
  "sorted (unwrap_or (peer_to_keys (dedup_keys t) p) []) \<and>
   distinct (unwrap_or (peer_to_keys (dedup_keys t) p) [])"
  by (auto simp: dedup_keys_def unwrap_or_def sorted_remdups_adj
      distinct_remdups_adj_sorted split: option.splits)

text \<open>
  The targets of a batch: a peer is asked about a key exactly if the key is in the batch, the
  peer is not this node and it is among the closest peers or in the paid close group of the key; it
  is asked about the paid list exactly for the latter; every peer's request lists its keys in order
  without repetition; and the recorded quorum and paid targets are those groups without this node.
\<close>

theorem verification_targets_exact:
  "let t = compute_verification_targets fc fcs config self_id ks in
    (k \<in> asked_keys t p \<longleftrightarrow> k \<in> set ks \<and> p \<noteq> self_id \<and>
      p \<in> set (fc k (close_group_size config)) \<union> set (fcs k (paid_list_close_group_size config))) \<and>
    (k \<in> asked_paid_keys t p \<longleftrightarrow> k \<in> set ks \<and> p \<noteq> self_id \<and>
      p \<in> set (fcs k (paid_list_close_group_size config))) \<and>
    sorted (unwrap_or (peer_to_keys t p) []) \<and> distinct (unwrap_or (peer_to_keys t p) []) \<and>
    quorum_targets t k = (if k \<in> set ks
      then Some (filter (\<lambda>p. p \<noteq> self_id) (fc k (close_group_size config))) else None) \<and>
    paid_targets t k = (if k \<in> set ks
      then Some (filter (\<lambda>p. p \<noteq> self_id) (fcs k (paid_list_close_group_size config))) else None)"
  using dedup_keys_sorted
  by (auto simp: Let_def compute_verification_targets_def dedup_keys_asked fold_targets_asked
      targets_empty_def)

end
