(* ===== verification/Commitment.thy ===== *)
theory Commitment
  imports Prelude
begin

text \<open>
  The storage commitment of \<open>src/src/replication/commitment.rs\<close>: leaf and node hashes over an
  abstract BLAKE3, the left-packed Merkle tree a node builds over its keys, inclusion paths and
  their verification, and the canonical payload a commitment signature covers. BLAKE3, the
  ML-DSA-65 signer and the protocol's cap on the number of keys are parameters. The laws of one
  level of the tree are a locale, interpreted on the code's level builder; the auditor's
  guarantees hold for every hash function without a collision among the inputs actually hashed.
\<close>

section \<open>Hashing\<close>

definition DOMAIN_LEAF :: bytes where
  "DOMAIN_LEAF = map of_char ''autonomi.ant.replication.storage_leaf.v1''"

definition DOMAIN_NODE :: bytes where
  "DOMAIN_NODE = map of_char ''autonomi.ant.replication.storage_node.v1''"

definition leaf_input :: "xor_name \<Rightarrow> hash32 \<Rightarrow> bytes" where
  "leaf_input key bytes_hash = DOMAIN_LEAF @ bytes_of32 key @ bytes_of32 bytes_hash"

definition node_input :: "hash32 \<Rightarrow> hash32 \<Rightarrow> bytes" where
  "node_input l r = DOMAIN_NODE @ bytes_of32 l @ bytes_of32 r"

definition leaf_hash :: "(bytes \<Rightarrow> hash32) \<Rightarrow> xor_name \<Rightarrow> hash32 \<Rightarrow> hash32" where
  "leaf_hash b3 key bytes_hash = b3 (leaf_input key bytes_hash)"

definition node_hash :: "(bytes \<Rightarrow> hash32) \<Rightarrow> hash32 \<Rightarrow> hash32 \<Rightarrow> hash32" where
  "node_hash b3 l r = b3 (node_input l r)"

section \<open>The Merkle tree\<close>

record merkle_tree =
  mt_leaves :: "(xor_name \<times> hash32) list"
  mt_levels :: "hash32 list list"

datatype commitment_error =
    EmptyKeySet
  | TooManyKeys nat
  | DuplicateKey xor_name
  | SignatureFailed

fun build_next_level :: "(bytes \<Rightarrow> hash32) \<Rightarrow> hash32 list \<Rightarrow> hash32 list" where
  "build_next_level b3 [] = []"
| "build_next_level b3 [l] = [node_hash b3 l l]"
| "build_next_level b3 (l # r # rest) = node_hash b3 l r # build_next_level b3 rest"

lemma length_build_next_level [simp]:
  "length (build_next_level b3 xs) = (length xs + 1) div 2"
  by (induction b3 xs rule: build_next_level.induct) auto

function build_levels ::
  "(bytes \<Rightarrow> hash32) \<Rightarrow> hash32 list \<Rightarrow> hash32 list list \<Rightarrow> hash32 list list" where
  "build_levels b3 level levels =
     (if length level > 1
      then let next = build_next_level b3 level in build_levels b3 next (levels @ [next])
      else levels)"
  by auto
termination by (relation "measure (\<lambda>(_, level, _). length level)") auto

declare build_levels.simps [simp del]

text \<open>The scan of adjacent pairs of the sorted entries for a repeated key.\<close>

fun first_duplicate :: "('k \<times> 'v) list \<Rightarrow> 'k option" where
  "first_duplicate (a # b # rest) =
     (if fst a = fst b then Some (fst a) else first_duplicate (b # rest))"
| "first_duplicate _ = None"

definition build ::
  "(bytes \<Rightarrow> hash32) \<Rightarrow> nat \<Rightarrow> (xor_name \<times> hash32) list \<Rightarrow> commitment_error + merkle_tree" where
  "build b3 max_key_count entries =
     (if entries = [] then Inl EmptyKeySet
      else if length entries > max_key_count then Inl (TooManyKeys (length entries))
      else
        let sorted_entries = sort_key fst entries
        in case first_duplicate sorted_entries of
             Some k \<Rightarrow> Inl (DuplicateKey k)
           | None \<Rightarrow>
               let leaves = map (\<lambda>(k, bh). (k, leaf_hash b3 k bh)) sorted_entries;
                   level = map snd leaves
               in Inr \<lparr>mt_leaves = leaves, mt_levels = build_levels b3 level [level]\<rparr>)"

definition root :: "merkle_tree \<Rightarrow> hash32" where
  "root tree = (case mt_levels tree of [] \<Rightarrow> 0
     | _ \<Rightarrow> (case last (mt_levels tree) of [] \<Rightarrow> 0 | h # _ \<Rightarrow> h))"

definition key_count :: "merkle_tree \<Rightarrow> nat" where
  "key_count tree = unwrap_or (u32_try_from (length (mt_leaves tree))) u32_max"

definition leaf_keys :: "merkle_tree \<Rightarrow> xor_name list" where
  "leaf_keys tree = map fst (mt_leaves tree)"

text \<open>\<open>slice::binary_search_by\<close> of the standard library, on a slice sorted by key.\<close>

function binary_search :: "'a::linorder list \<Rightarrow> 'a \<Rightarrow> nat \<Rightarrow> nat \<Rightarrow> nat option" where
  "binary_search xs k lo hi =
     (if lo < hi
      then let mid = lo + (hi - lo) div 2
           in if xs ! mid = k then Some mid
              else if xs ! mid < k then binary_search xs k (mid + 1) hi
              else binary_search xs k lo mid
      else None)"
  by auto
termination by (relation "measure (\<lambda>(_, _, lo, hi). hi - lo)") auto

declare binary_search.simps [simp del]

definition key_index :: "merkle_tree \<Rightarrow> xor_name \<Rightarrow> nat option" where
  "key_index tree key = binary_search (map fst (mt_leaves tree)) key 0 (length (mt_leaves tree))"

definition tree_contains_key :: "merkle_tree \<Rightarrow> xor_name \<Rightarrow> bool" where
  "tree_contains_key tree key = (key_index tree key \<noteq> None)"

definition key_at :: "merkle_tree \<Rightarrow> nat \<Rightarrow> xor_name option" where
  "key_at tree idx =
     (if idx < length (mt_leaves tree) then Some (fst (mt_leaves tree ! idx)) else None)"

definition node_at :: "merkle_tree \<Rightarrow> nat \<Rightarrow> nat \<Rightarrow> hash32 option" where
  "node_at tree level index =
     (if level < length (mt_levels tree) \<and> index < length (mt_levels tree ! level)
      then Some (mt_levels tree ! level ! index) else None)"

definition levels_count :: "merkle_tree \<Rightarrow> nat" where
  "levels_count tree = length (mt_levels tree)"

section \<open>Inclusion paths\<close>

definition sibling_idx :: "'a list \<Rightarrow> nat \<Rightarrow> nat" where
  "sibling_idx level i = (if i mod 2 = 0 then (if i + 1 < length level then i + 1 else i) else i - 1)"

text \<open>
  The loop of \<open>path_for\<close>. The slice index \<open>level[sibling_idx]\<close> panics out of range: the loop
  yields \<open>None\<close> then, so that \<open>path_for\<close> is \<open>None\<close> for a panic, \<open>Some None\<close> for a key that is
  not committed and \<open>Some (Some path)\<close> otherwise.
\<close>

fun path_from :: "'a list list \<Rightarrow> nat \<Rightarrow> 'a list option" where
  "path_from [] i = Some []"
| "path_from (level # levels) i =
     (if sibling_idx level i < length level
      then map_option (\<lambda>path. level ! sibling_idx level i # path) (path_from levels (i div 2))
      else None)"

definition path_for :: "merkle_tree \<Rightarrow> xor_name \<Rightarrow> hash32 list option option" where
  "path_for tree key =
     (case key_index tree key of
        None \<Rightarrow> Some None
      | Some idx \<Rightarrow>
          map_option Some (path_from (take (length (mt_levels tree) - 1) (mt_levels tree)) idx))"

fun climb :: "('a \<Rightarrow> 'a \<Rightarrow> 'a) \<Rightarrow> 'a \<Rightarrow> 'a list \<Rightarrow> nat \<Rightarrow> 'a" where
  "climb node cur [] i = cur"
| "climb node cur (sibling # path) i =
     climb node (if i mod 2 = 0 then node cur sibling else node sibling cur) path (i div 2)"

definition verify_path ::
  "(bytes \<Rightarrow> hash32) \<Rightarrow> nat \<Rightarrow> hash32 \<Rightarrow> hash32 list \<Rightarrow> nat \<Rightarrow> nat \<Rightarrow> hash32 \<Rightarrow> bool" where
  "verify_path b3 max_key_count leaf path leaf_index kc expected_root =
     (if kc = 0 \<or> kc > max_key_count \<or> leaf_index \<ge> kc then False
      else case checked_next_power_of_two32 kc of
        None \<Rightarrow> False
      | Some rounded \<Rightarrow>
          if length path \<noteq> trailing_zeros32 rounded then False
          else climb (node_hash b3) leaf path leaf_index = expected_root)"

section \<open>The signed payload\<close>

definition le_bytes32 :: "nat \<Rightarrow> bytes" where
  "le_bytes32 n = map (\<lambda>i. of_nat (n div 256 ^ i)) [0..<4]"

definition commitment_signed_payload ::
  "hash32 \<Rightarrow> nat \<Rightarrow> hash32 \<Rightarrow> bytes \<Rightarrow> bytes" where
  "commitment_signed_payload rt kc sender_peer_id sender_public_key =
     bytes_of32 rt @ le_bytes32 kc @ bytes_of32 sender_peer_id @
     le_bytes32 (unwrap_or (u32_try_from (length sender_public_key)) u32_max) @ sender_public_key"

definition sign_commitment ::
  "('sk \<Rightarrow> bytes \<Rightarrow> bytes option) \<Rightarrow> 'sk \<Rightarrow> hash32 \<Rightarrow> nat \<Rightarrow> hash32 \<Rightarrow> bytes \<Rightarrow>
     commitment_error + bytes" where
  "sign_commitment sign_with_context secret_key rt kc sender_peer_id sender_public_key =
     (case sign_with_context secret_key
             (commitment_signed_payload rt kc sender_peer_id sender_public_key) of
        None \<Rightarrow> Inl SignatureFailed
      | Some sig \<Rightarrow> Inr sig)"

text \<open>The wire type of a commitment, as the node constructs and reads it.\<close>

record storage_commitment =
  sc_root :: hash32
  sc_key_count :: nat
  sc_sender_peer_id :: hash32
  sc_sender_public_key :: bytes
  sc_signature :: bytes

section \<open>One level above another\<close>

text \<open>
  What the proofs need of a level builder: an odd last node is paired with itself. Everything
  about blocks, paths and collisions follows from these three laws.
\<close>

fun node_pairs :: "'a list \<Rightarrow> ('a \<times> 'a) list" where
  "node_pairs [] = []"
| "node_pairs [l] = [(l, l)]"
| "node_pairs (l # r # rest) = (l, r) # node_pairs rest"

lemma node_pairs_take: "node_pairs (take (2 * k) xs) = take k (node_pairs xs)"
proof (induction xs arbitrary: k rule: node_pairs.induct)
  case (2 l)
  then show ?case by (cases k) simp_all
next
  case (3 l r rest)
  then show ?case by (cases k) simp_all
qed simp

lemma node_pairs_drop: "node_pairs (drop (2 * k) xs) = drop k (node_pairs xs)"
proof (induction xs arbitrary: k rule: node_pairs.induct)
  case (2 l)
  then show ?case by (cases k) simp_all
next
  case (3 l r rest)
  then show ?case by (cases k) simp_all
qed simp

fun climb_pairs :: "('a \<Rightarrow> 'a \<Rightarrow> 'a) \<Rightarrow> 'a \<Rightarrow> 'a list \<Rightarrow> nat \<Rightarrow> ('a \<times> 'a) list" where
  "climb_pairs node cur [] i = []"
| "climb_pairs node cur (s # path) i =
     (if i mod 2 = 0 then (cur, s) else (s, cur)) #
     climb_pairs node (if i mod 2 = 0 then node cur s else node s cur) path (i div 2)"

locale level_builder =
  fixes node :: "'h \<Rightarrow> 'h \<Rightarrow> 'h"
    and nxt :: "'h list \<Rightarrow> 'h list"
  assumes nxt_nil: "nxt [] = []"
    and nxt_single: "nxt [x] = [node x x]"
    and nxt_pair: "nxt (x # y # zs) = node x y # nxt zs"
begin

lemmas nxt_simps = nxt_nil nxt_single nxt_pair

lemma nxt_pairs: "nxt xs = map (\<lambda>(a, b). node a b) (node_pairs xs)"
  by (induction xs rule: node_pairs.induct) (simp_all add: nxt_simps)

lemma length_node_pairs: "length (node_pairs xs) = (length xs + 1) div 2"
  by (induction xs rule: node_pairs.induct) simp_all

lemma length_nxt: "length (nxt xs) = (length xs + 1) div 2"
  by (simp add: nxt_pairs length_node_pairs)

lemma nxt_take: "nxt (take (2 * k) xs) = take k (nxt xs)"
  by (simp add: nxt_pairs node_pairs_take take_map)

lemma nxt_drop: "nxt (drop (2 * k) xs) = drop k (nxt xs)"
  by (simp add: nxt_pairs node_pairs_drop drop_map)

lemma node_pairs_nth:
  "i < length xs \<Longrightarrow>
   node_pairs xs ! (i div 2) =
     (if i mod 2 = 0 then (xs ! i, xs ! sibling_idx xs i) else (xs ! sibling_idx xs i, xs ! i))"
proof (induction xs arbitrary: i rule: node_pairs.induct)
  case (2 l)
  then show ?case by (simp add: sibling_idx_def)
next
  case (3 l r rest)
  show ?case
  proof (cases "i < 2")
    case True
    then have "i = 0 \<or> i = 1" by auto
    then show ?thesis by (auto simp: sibling_idx_def)
  next
    case False
    then obtain j where i: "i = j + 2" by (metis add.commute le_Suc_ex not_less)
    with "3.prems" have j: "j < length rest" by simp
    have "sibling_idx (l # r # rest) i = sibling_idx rest j + 2"
      using i by (cases j) (auto simp: sibling_idx_def)
    with "3.IH" [OF j] i show ?thesis by simp
  qed
qed simp

lemma nxt_nth:
  "i < length xs \<Longrightarrow>
   nxt xs ! (i div 2) =
     (if i mod 2 = 0 then node (xs ! i) (xs ! sibling_idx xs i)
      else node (xs ! sibling_idx xs i) (xs ! i))"
  using node_pairs_nth [of i xs] length_node_pairs [of xs] by (simp add: nxt_pairs)

lemma sibling_in_range: "i < length xs \<Longrightarrow> sibling_idx xs i < length xs"
  by (auto simp: sibling_idx_def)

subsection \<open>Several levels\<close>

lemma length_pow: "length ((nxt ^^ m) xs) = (length xs + 2 ^ m - 1) div 2 ^ m"
proof (induction m arbitrary: xs)
  case (Suc m)
  let ?n = "length xs"
  have "(?n + 1) div 2 + 2 ^ m - 1 = (?n + 2 ^ Suc m - 1) div 2"
    by (cases "even ?n") (auto elim!: evenE oddE simp: power_not_zero)
  then have "((?n + 1) div 2 + 2 ^ m - 1) div 2 ^ m = (?n + 2 ^ Suc m - 1) div 2 ^ Suc m"
    by (simp add: div_mult2_eq)
  then show ?case by (simp only: funpow_Suc_right o_apply Suc.IH length_nxt)
qed simp

lemma pow_index: "i < length xs \<Longrightarrow> i div 2 ^ m < length ((nxt ^^ m) xs)"
proof (induction m arbitrary: xs i)
  case (Suc m)
  then have "i div 2 < length (nxt xs)" by (simp add: length_nxt)
  from Suc.IH [OF this] show ?case
    by (simp only: funpow_Suc_right o_apply power_Suc div_mult2_eq)
qed simp

lemma pow_block:
  assumes "s < length ((nxt ^^ m) xs)"
  shows "(nxt ^^ m) (take (2 ^ m) (drop (s * 2 ^ m) xs)) = [(nxt ^^ m) xs ! s]"
proof -
  have "(nxt ^^ m) (take (k * 2 ^ m) (drop (s * 2 ^ m) xs)) = take k (drop s ((nxt ^^ m) xs))" for k
  proof (induction m arbitrary: xs)
    case (Suc m)
    have "nxt (take (k * 2 ^ Suc m) (drop (s * 2 ^ Suc m) xs)) =
        take (k * 2 ^ m) (drop (s * 2 ^ m) (nxt xs))"
      using nxt_take [of "k * 2 ^ m"] nxt_drop [of "s * 2 ^ m"] by (simp add: algebra_simps)
    with Suc.IH show ?case by (simp only: funpow_Suc_right o_apply)
  qed simp
  from this [of 1] assms show ?thesis by (simp add: take_Suc_conv_app_nth Cons_nth_drop_Suc [symmetric])
qed

definition levels_upto :: "nat \<Rightarrow> 'h list \<Rightarrow> 'h list list" where
  "levels_upto m xs = map (\<lambda>j. (nxt ^^ j) xs) [0..<m]"

lemma levels_upto_simps [simp]:
  "levels_upto 0 xs = []"
  "levels_upto (Suc m) xs = xs # levels_upto m (nxt xs)"
  "length (levels_upto m xs) = m"
  by (simp_all add: levels_upto_def map_upt_Suc funpow_swap1 del: upt_Suc)

lemma levels_upto_nth: "j < m \<Longrightarrow> levels_upto m xs ! j = (nxt ^^ j) xs"
  by (simp add: levels_upto_def)

definition level_pairs :: "nat \<Rightarrow> 'h list \<Rightarrow> ('h \<times> 'h) list" where
  "level_pairs m xs = concat (map node_pairs (levels_upto m xs))"

lemma level_pairs_Suc: "level_pairs (Suc m) xs = node_pairs xs @ level_pairs m (nxt xs)"
  by (simp add: level_pairs_def)

lemma level_pairs_mono: "m \<le> m' \<Longrightarrow> set (level_pairs m xs) \<subseteq> set (level_pairs m' xs)"
  by (fastforce simp: level_pairs_def levels_upto_def)

lemma level_pairs_upper: "set (level_pairs b ((nxt ^^ a) xs)) \<subseteq> set (level_pairs (a + b) xs)"
proof -
  have "(nxt ^^ j) ((nxt ^^ a) xs) = (nxt ^^ (a + j)) xs" for j
    by (simp add: funpow_add add.commute [of a])
  then show ?thesis by (fastforce simp: level_pairs_def levels_upto_def)
qed

lemma level_pairs_block:
  "set (level_pairs m (take (k * 2 ^ m) (drop (s * 2 ^ m) xs))) \<subseteq> set (level_pairs m xs)"
proof (induction m arbitrary: xs)
  case (Suc m)
  let ?b = "take (k * 2 ^ Suc m) (drop (s * 2 ^ Suc m) xs)"
  have e: "?b = take (2 * (k * 2 ^ m)) (drop (2 * (s * 2 ^ m)) xs)" by (simp add: algebra_simps)
  have "set (node_pairs ?b) \<subseteq> set (node_pairs xs)"
    unfolding e node_pairs_take node_pairs_drop by (meson order_trans set_drop_subset set_take_subset)
  moreover have "set (level_pairs m (nxt ?b)) \<subseteq> set (level_pairs m (nxt xs))"
    unfolding e nxt_take nxt_drop by (rule Suc.IH)
  ultimately show ?case by (auto simp: level_pairs_Suc)
qed (simp add: level_pairs_def)

text \<open>Paths read off the levels climb to the ancestor of the node they start from.\<close>

lemma path_from_climb:
  "i < length xs \<Longrightarrow>
   \<exists>path. path_from (levels_upto m xs) i = Some path \<and> length path = m \<and>
     climb node (xs ! i) path i = (nxt ^^ m) xs ! (i div 2 ^ m)"
proof (induction m arbitrary: xs i)
  case (Suc m)
  then have "i div 2 < length (nxt xs)" by (simp add: length_nxt)
  from Suc.IH [OF this] Suc.prems show ?case
    by (auto simp: sibling_in_range nxt_nth div_mult2_eq funpow_swap1)
qed simp

text \<open>Conversely a path that ends in the ancestor of \<open>i\<close> started in node \<open>i\<close>.\<close>

lemma climb_sound:
  "\<lbrakk> i < length xs; length path = m; climb node x path i = (nxt ^^ m) xs ! (i div 2 ^ m);
     inj_on (\<lambda>(a, b). node a b) (set (climb_pairs node x path i) \<union> set (level_pairs m xs)) \<rbrakk>
   \<Longrightarrow> x = xs ! i"
proof (induction path arbitrary: m xs i x)
  case (Cons s path)
  obtain m' where m: "m = Suc m'" and l: "length path = m'" using Cons.prems(2) by auto
  let ?x = "if i mod 2 = 0 then node x s else node s x"
  have i: "i div 2 < length (nxt xs)" using Cons.prems(1) by (simp add: length_nxt)
  have "?x = nxt xs ! (i div 2)"
  proof (rule Cons.IH [OF i l])
    show "climb node ?x path (i div 2) = (nxt ^^ m') (nxt xs) ! (i div 2 div 2 ^ m')"
      using Cons.prems(3) m by (simp add: div_mult2_eq funpow_swap1)
    show "inj_on (\<lambda>(a, b). node a b)
        (set (climb_pairs node ?x path (i div 2)) \<union> set (level_pairs m' (nxt xs)))"
      using Cons.prems(4) m by (auto simp: level_pairs_Suc intro: inj_on_subset)
  qed
  then have eq: "(\<lambda>(a, b). node a b) (if i mod 2 = 0 then (x, s) else (s, x)) =
      (\<lambda>(a, b). node a b) (node_pairs xs ! (i div 2))"
    using node_pairs_nth [OF Cons.prems(1)] nxt_nth [OF Cons.prems(1)] by (auto split: if_splits)
  have "node_pairs xs ! (i div 2) \<in> set (node_pairs xs)"
    using i by (simp add: length_nxt length_node_pairs)
  then have "(if i mod 2 = 0 then (x, s) else (s, x)) = node_pairs xs ! (i div 2)"
    by (intro inj_onD [OF Cons.prems(4) eq]) (auto simp: m level_pairs_Suc)
  with node_pairs_nth [OF Cons.prems(1)] show ?case by (auto split: if_splits)
qed simp

text \<open>Blocks of the same size that fold to the same nodes are equal.\<close>

lemma node_pairs_inj: "length xs = length ys \<Longrightarrow> node_pairs xs = node_pairs ys \<Longrightarrow> xs = ys"
proof (induction xs arbitrary: ys rule: node_pairs.induct)
  case (2 l)
  then show ?case by (cases ys) auto
next
  case (3 l r rest)
  then obtain l' r' rest' where "ys = l' # r' # rest'" "length rest = length rest'"
    by (metis length_Suc_conv length_Cons)
  with 3 show ?case by simp
qed simp

lemma pow_inj:
  "\<lbrakk> length xs = length ys; (nxt ^^ m) xs = (nxt ^^ m) ys;
     inj_on (\<lambda>(a, b). node a b) (set (level_pairs m xs) \<union> set (level_pairs m ys)) \<rbrakk> \<Longrightarrow> xs = ys"
proof (induction m arbitrary: xs ys)
  case (Suc m)
  have "nxt xs = nxt ys"
  proof (rule Suc.IH)
    show "length (nxt xs) = length (nxt ys)" using Suc.prems(1) by (simp add: length_nxt)
    show "(nxt ^^ m) (nxt xs) = (nxt ^^ m) (nxt ys)" using Suc.prems(2) by (simp add: funpow_swap1)
    show "inj_on (\<lambda>(a, b). node a b) (set (level_pairs m (nxt xs)) \<union> set (level_pairs m (nxt ys)))"
      using Suc.prems(3) by (auto simp: level_pairs_Suc intro: inj_on_subset)
  qed
  moreover have "inj_on (\<lambda>(a, b). node a b) (set (node_pairs xs) \<union> set (node_pairs ys))"
    using Suc.prems(3) by (auto simp: level_pairs_Suc intro: inj_on_subset)
  ultimately have "node_pairs xs = node_pairs ys"
    by (auto simp: nxt_pairs intro: map_inj_on)
  with Suc.prems(1) show ?case by (rule node_pairs_inj)
qed simp

end

interpretation merkle: level_builder "node_hash b3" "build_next_level b3" for b3
  by unfold_locales simp_all

section \<open>What a built tree is\<close>

abbreviation leaf_level :: "(bytes \<Rightarrow> hash32) \<Rightarrow> (xor_name \<times> hash32) list \<Rightarrow> hash32 list" where
  "leaf_level b3 es \<equiv> map (\<lambda>(k, bh). leaf_hash b3 k bh) es"

definition tree_of :: "(bytes \<Rightarrow> hash32) \<Rightarrow> (xor_name \<times> hash32) list \<Rightarrow> merkle_tree" where
  "tree_of b3 es = \<lparr>mt_leaves = map (\<lambda>(k, bh). (k, leaf_hash b3 k bh)) es,
     mt_levels = merkle.levels_upto b3 (Suc (clog2 (length es))) (leaf_level b3 es)\<rparr>"

lemma build_levels_eq:
  "level \<noteq> [] \<Longrightarrow> build_levels b3 level acc =
     acc @ merkle.levels_upto b3 (clog2 (length level)) (build_next_level b3 level)"
proof (induction b3 level acc rule: build_levels.induct)
  case (1 b3 level acc)
  show ?case
  proof (cases "length level > 1")
    case True
    then have ne: "build_next_level b3 level \<noteq> []" by (simp flip: length_greater_0_conv)
    have "clog2 (length level) = Suc (clog2 (length (build_next_level b3 level)))"
      using True by (subst clog2.simps) simp
    with "1.IH" [OF True refl ne] True show ?thesis
      by (simp add: build_levels.simps [of b3 level] Let_def)
  next
    case False
    with "1.prems" have "length level = 1" by (cases level) auto
    then show ?thesis by (simp add: build_levels.simps [of b3 level])
  qed
qed

lemma first_duplicate_None:
  "sorted (map fst xs) \<Longrightarrow> first_duplicate xs = None \<longleftrightarrow> distinct (map fst xs)"
proof (induction xs rule: first_duplicate.induct)
  case (1 a b rest)
  show ?case
  proof (cases "fst a = fst b")
    case False
    with "1.prems" have "\<forall>x\<in>set (b # rest). fst a < fst x" by fastforce
    with 1 False show ?thesis by force
  qed simp
qed simp_all

lemma distinct_sort_key_fst: "distinct (map fst (sort_key fst es)) \<longleftrightarrow> distinct (map fst es)"
proof -
  have "mset (map fst (sort_key fst es)) = mset (map fst es)" by simp
  then show ?thesis by (rule mset_eq_imp_distinct_iff)
qed

lemma build_ok_iff:
  "build b3 mx es = Inr t \<longleftrightarrow>
     es \<noteq> [] \<and> length es \<le> mx \<and> distinct (map fst es) \<and> t = tree_of b3 (sort_key fst es)"
proof -
  let ?s = "sort_key fst es"
  have "first_duplicate ?s = None \<longleftrightarrow> distinct (map fst es)"
    by (simp add: first_duplicate_None distinct_sort_key_fst)
  moreover have "es \<noteq> [] \<Longrightarrow>
      build_levels b3 (leaf_level b3 ?s) [leaf_level b3 ?s] = mt_levels (tree_of b3 ?s)"
    by (subst build_levels_eq) (auto simp: tree_of_def simp flip: length_greater_0_conv)
  ultimately show ?thesis
    by (auto simp: build_def Let_def tree_of_def comp_def case_prod_unfold split: option.splits)
qed

lemma tree_of_simps [simp]:
  "mt_leaves (tree_of b3 es) = map (\<lambda>(k, bh). (k, leaf_hash b3 k bh)) es"
  "length (mt_levels (tree_of b3 es)) = Suc (clog2 (length es))"
  "map fst (mt_leaves (tree_of b3 es)) = map fst es"
  "key_count (tree_of b3 es) = (if length es \<le> u32_max then length es else u32_max)"
  by (auto simp: tree_of_def key_count_def u32_try_from_def)

lemma tree_of_level:
  "j \<le> clog2 (length es) \<Longrightarrow>
   mt_levels (tree_of b3 es) ! j = (build_next_level b3 ^^ j) (leaf_level b3 es)"
  by (simp add: tree_of_def merkle.levels_upto_nth del: merkle.levels_upto_simps)

lemma top_level_single:
  assumes "es \<noteq> []"
  shows "length ((build_next_level b3 ^^ clog2 (length es)) (leaf_level b3 es)) = 1"
proof -
  let ?n = "length es" and ?p = "2 ^ clog2 (length es) :: nat"
  have "(?n + ?p - 1) div ?p = 1"
  proof (rule div_nat_eqI)
    have "?n \<le> ?p" "0 < ?n" using assms clog2_bounds [of ?n] by auto
    then show "?p * 1 \<le> ?n + ?p - 1" "?n + ?p - 1 < ?p * Suc 1"
      unfolding mult_Suc_right mult_1_right One_nat_def mult_0_right by linarith+
  qed
  then show ?thesis by (simp add: merkle.length_pow)
qed

lemma root_tree_of:
  assumes "es \<noteq> []"
  shows "root (tree_of b3 es) = (build_next_level b3 ^^ clog2 (length es)) (leaf_level b3 es) ! 0"
proof -
  let ?top = "(build_next_level b3 ^^ clog2 (length es)) (leaf_level b3 es)"
  have ne: "mt_levels (tree_of b3 es) \<noteq> []" by (simp flip: length_greater_0_conv)
  then have "last (mt_levels (tree_of b3 es)) = ?top"
    by (simp add: last_conv_nth tree_of_level)
  moreover obtain h where "?top = [h]"
    using top_level_single [OF assms, of b3] by (cases ?top) auto
  ultimately show ?thesis using ne by (simp add: root_def list.case_eq_if)
qed

lemma binary_search_correct:
  "\<lbrakk> sorted xs; distinct xs; hi \<le> length xs; \<forall>j<lo. xs ! j < k;
     \<forall>j. hi \<le> j \<and> j < length xs \<longrightarrow> k < xs ! j \<rbrakk> \<Longrightarrow>
   binary_search xs k lo hi = Some i \<longleftrightarrow> i < length xs \<and> xs ! i = k"
proof (induction xs k lo hi rule: binary_search.induct)
  case (1 xs k lo hi)
  show ?case
  proof (cases "lo < hi")
    case False
    then have "j < lo \<or> hi \<le> j" for j by linarith
    then have "\<And>j. j < length xs \<Longrightarrow> xs ! j \<noteq> k" using "1.prems"(4,5)
      by (metis less_irrefl)
    with False show ?thesis by (auto simp: binary_search.simps [of xs k lo hi])
  next
    case True
    define mid where "mid = lo + (hi - lo) div 2"
    have mid: "lo \<le> mid" "mid < hi" "mid < length xs" using True "1.prems"(3) by (auto simp: mid_def)
    have unf: "binary_search xs k lo hi =
        (if xs ! mid = k then Some mid else if xs ! mid < k then binary_search xs k (mid + 1) hi
         else binary_search xs k lo mid)"
      using True by (simp add: binary_search.simps [of xs k lo hi] mid_def Let_def)
    have mono: "\<And>j l. j \<le> l \<Longrightarrow> l < length xs \<Longrightarrow> xs ! j \<le> xs ! l"
      using "1.prems"(1) by (simp add: sorted_nth_mono)
    consider "xs ! mid = k" | "xs ! mid < k" | "k < xs ! mid" by fastforce
    then show ?thesis
    proof cases
      case 1
      with unf mid "1.prems"(2) show ?thesis by (auto simp: nth_eq_iff_index_eq)
    next
      case 2
      have "\<forall>j<mid + 1. xs ! j < k" using 2 mono mid(3)
        by (metis add.commute le_less_trans less_Suc_eq_le plus_1_eq_Suc)
      with "1.IH"(1) [OF True mid_def] "1.prems" 2 unf show ?thesis by auto
    next
      case 3
      have "\<forall>j. mid \<le> j \<and> j < length xs \<longrightarrow> k < xs ! j" using 3 mono
        by (metis less_le_trans)
      with "1.IH"(2) [OF True mid_def] "1.prems" 3 unf mid show ?thesis by auto
    qed
  qed
qed

lemma key_index_tree_of:
  "sorted (map fst es) \<Longrightarrow> distinct (map fst es) \<Longrightarrow>
   key_index (tree_of b3 es) k = Some i \<longleftrightarrow> i < length es \<and> fst (es ! i) = k"
  using binary_search_correct [of "map fst es" "length es" 0 k i]
  unfolding key_index_def tree_of_simps(3) by (auto dest!: meta_mp)

section \<open>Collisions\<close>

text \<open>
  The inputs hashed when the tree over \<open>es\<close> is built and when a path is verified. The guarantees
  for the auditor assume that BLAKE3 has no collision among these finitely many inputs.
\<close>

definition tree_inputs :: "(bytes \<Rightarrow> hash32) \<Rightarrow> (xor_name \<times> hash32) list \<Rightarrow> bytes list" where
  "tree_inputs b3 es = (let es' = sort_key fst es in
     map (\<lambda>(k, bh). leaf_input k bh) es' @
     map (\<lambda>(l, r). node_input l r) (merkle.level_pairs b3 (clog2 (length es')) (leaf_level b3 es')))"

definition path_inputs ::
  "(bytes \<Rightarrow> hash32) \<Rightarrow> xor_name \<Rightarrow> hash32 \<Rightarrow> hash32 list \<Rightarrow> nat \<Rightarrow> bytes list" where
  "path_inputs b3 k bh path i = leaf_input k bh #
     map (\<lambda>(l, r). node_input l r) (climb_pairs (node_hash b3) (leaf_hash b3 k bh) path i)"

lemma node_input_inject [simp]: "node_input a b = node_input c d \<longleftrightarrow> a = c \<and> b = d"
  by (simp add: node_input_def)

lemma leaf_input_inject [simp]: "leaf_input a b = leaf_input c d \<longleftrightarrow> a = c \<and> b = d"
  by (simp add: leaf_input_def)

lemma leaf_node_input_distinct [simp]:
  "leaf_input a b \<noteq> node_input c d" "node_input c d \<noteq> leaf_input a b"
proof -
  have "DOMAIN_LEAF \<noteq> DOMAIN_NODE" "length DOMAIN_LEAF = length DOMAIN_NODE"
    by (simp_all add: DOMAIN_LEAF_def DOMAIN_NODE_def)
  then show "leaf_input a b \<noteq> node_input c d" "node_input c d \<noteq> leaf_input a b"
    by (auto simp: leaf_input_def node_input_def)
qed

lemma inj_on_node_hash:
  "inj_on b3 S \<Longrightarrow> (\<lambda>(l, r). node_input l r) ` Q \<subseteq> S \<Longrightarrow> inj_on (\<lambda>(l, r). node_hash b3 l r) Q"
  unfolding inj_on_def node_hash_def by (auto simp: image_subset_iff) (metis case_prod_conv node_input_inject)+

lemma leaf_hash_inject:
  "inj_on b3 S \<Longrightarrow> leaf_input a b \<in> S \<Longrightarrow> leaf_input c d \<in> S \<Longrightarrow>
   leaf_hash b3 a b = leaf_hash b3 c d \<Longrightarrow> a = c \<and> b = d"
  unfolding leaf_hash_def by (drule (3) inj_onD) simp

lemma expected_path_length:
  "0 < n \<Longrightarrow> n \<le> 2 ^ 31 \<Longrightarrow> checked_next_power_of_two32 n = Some (2 ^ clog2 n)"
  using power_increasing [OF clog2_le [of n 31], of "2::nat"]
  by (auto simp: checked_next_power_of_two32_def u32_max_def Let_def)

lemma checked_next_power_SomeD:
  "checked_next_power_of_two32 n = Some p \<Longrightarrow> trailing_zeros32 p = clog2 n"
  by (auto simp: checked_next_power_of_two32_def Let_def split: if_splits)

lemma sorted_entries:
  assumes "build b3 mx es = Inr t"
  obtains ss where "t = tree_of b3 ss" "ss = sort_key fst es" "sorted (map fst ss)"
    "distinct (map fst ss)" "ss \<noteq> []" "set ss = set es" "length ss \<le> mx"
  using assms unfolding build_ok_iff
  by (auto simp: distinct_sort_key_fst simp flip: length_greater_0_conv)

section \<open>Properties\<close>

text \<open>
  Every committed key has a path that verifies: for a tree built over \<open>es\<close> (at most \<open>2 ^ 31\<close>
  keys, which the protocol's cap guarantees) the inclusion path of a committed key exists, never
  indexes out of a level, and verifies against the root and key count of the tree at the key's
  index; a key that is not committed has no path.
\<close>

theorem honest_path_verifies:
  assumes "build b3 mx es = Inr t" and "mx \<le> 2 ^ 31"
  shows "((k, bh) \<in> set es \<longrightarrow>
      (\<exists>i path. key_index t k = Some i \<and> path_for t k = Some (Some path) \<and>
        verify_path b3 mx (leaf_hash b3 k bh) path i (key_count t) (root t))) \<and>
    (k \<notin> fst ` set es \<longrightarrow> path_for t k = Some None)"
proof -
  from assms(1) obtain ss where t: "t = tree_of b3 ss" and ss: "sorted (map fst ss)"
    "distinct (map fst ss)" "ss \<noteq> []" "set ss = set es" "length ss \<le> mx" by (rule sorted_entries)
  let ?n = "length ss" and ?L = "leaf_level b3 ss"
  have kc: "key_count t = ?n" using ss(5) assms(2) by (simp add: t u32_max_def)
  have lv: "take (length (mt_levels t) - 1) (mt_levels t) = merkle.levels_upto b3 (clog2 ?n) ?L"
    by (simp add: t tree_of_def merkle.levels_upto_def take_map del: merkle.levels_upto_simps upt_Suc)
  show ?thesis
  proof (intro conjI impI)
    assume "(k, bh) \<in> set es"
    then obtain i where i: "i < ?n" "ss ! i = (k, bh)" using ss(4) by (metis in_set_conv_nth)
    obtain path where path: "path_from (merkle.levels_upto b3 (clog2 ?n) ?L) i = Some path"
        "length path = clog2 ?n"
        "climb (node_hash b3) (?L ! i) path i =
           (build_next_level b3 ^^ clog2 ?n) ?L ! (i div 2 ^ clog2 ?n)"
      using merkle.path_from_climb [of i ?L b3 "clog2 ?n"] i(1) by auto
    have "i < 2 ^ clog2 ?n" using i(1) clog2_bounds [of ?n] by linarith
    with path(3) i ss(3) have "climb (node_hash b3) (leaf_hash b3 k bh) path i = root t"
      by (simp add: t root_tree_of)
    moreover have "key_index t k = Some i" using i ss(1,2) by (simp add: t key_index_tree_of)
    ultimately show "\<exists>i path. key_index t k = Some i \<and> path_for t k = Some (Some path) \<and>
        verify_path b3 mx (leaf_hash b3 k bh) path i (key_count t) (root t)"
      using i(1) path(1,2) ss(5) assms(2)
      by (intro exI [of _ i] exI [of _ path])
        (auto simp: path_for_def lv [simplified] verify_path_def kc expected_path_length)
  next
    assume "k \<notin> fst ` set es"
    then have "key_index t k \<noteq> Some i" for i
      using ss by (auto simp: t key_index_tree_of image_iff)
    then have "key_index t k = None" by (cases "key_index t k") auto
    then show "path_for t k = Some None" by (simp add: path_for_def)
  qed
qed

text \<open>
  C15. A path proves what it claims: if a path for the leaf \<open>(k, bh)\<close> at index \<open>i\<close> verifies
  against the root of the tree over \<open>es\<close>, and BLAKE3 does not collide on the inputs hashed by the
  two sides, then \<open>(k, bh)\<close> is one of the committed entries, at index \<open>i\<close>.
\<close>

theorem verified_path_committed:
  assumes "build b3 mx es = Inr t" and "mx \<le> u32_max"
    and "verify_path b3 mx (leaf_hash b3 k bh) path i (key_count t) (root t)"
    and "inj_on b3 (set (tree_inputs b3 es) \<union> set (path_inputs b3 k bh path i))"
  shows "(k, bh) \<in> set es \<and> key_index t k = Some i"
proof -
  from assms(1) obtain ss where t: "t = tree_of b3 ss" and ss: "ss = sort_key fst es"
    "sorted (map fst ss)" "distinct (map fst ss)" "ss \<noteq> []" "set ss = set es" "length ss \<le> mx"
    by (rule sorted_entries)
  let ?n = "length ss" and ?L = "leaf_level b3 ss"
  have kc: "key_count t = ?n" using ss(6) assms(2) by (simp add: t)
  have v: "i < ?n" "length path = clog2 ?n" "climb (node_hash b3) (leaf_hash b3 k bh) path i = root t"
    using assms(3) by (auto simp: verify_path_def kc dest: checked_next_power_SomeD
        split: if_splits option.splits)
  have "i < 2 ^ clog2 ?n" using v(1) clog2_bounds [of ?n] by linarith
  then have top: "climb (node_hash b3) (leaf_hash b3 k bh) path i =
      (build_next_level b3 ^^ clog2 ?n) ?L ! (i div 2 ^ clog2 ?n)"
    using v(3) ss(4) by (simp add: t root_tree_of)
  have "inj_on (\<lambda>(l, r). node_hash b3 l r)
      (set (climb_pairs (node_hash b3) (leaf_hash b3 k bh) path i) \<union>
       set (merkle.level_pairs b3 (clog2 ?n) ?L))"
    by (rule inj_on_node_hash [OF assms(4)]) (auto simp: tree_inputs_def path_inputs_def ss(1) Let_def)
  then have "leaf_hash b3 k bh = ?L ! i"
    using v(1) by (intro merkle.climb_sound [OF _ v(2) top]) auto
  moreover obtain k' bh' where e: "ss ! i = (k', bh')" by fastforce
  moreover have "(k', bh') \<in> set ss" using nth_mem [OF v(1)] e by simp
  then have "leaf_input k' bh' \<in> set (tree_inputs b3 es)"
    by (force simp: tree_inputs_def ss(1) Let_def)
  ultimately have "k = k' \<and> bh = bh'"
    using v(1) by (intro leaf_hash_inject [OF assms(4)]) (auto simp: path_inputs_def)
  then show ?thesis
    using e v(1) ss(2,3,5) nth_mem [of i ss] by (auto simp: t key_index_tree_of)
qed

text \<open>
  A concrete hash for the examples: a function that separates the two leaves and the node of a tree
  with two entries.
\<close>

definition example_hash :: "bytes \<Rightarrow> hash32" where
  "example_hash bs = (if bs = leaf_input 1 10 then 1 else if bs = leaf_input 3 30 then 2 else 3)"

definition example_entries :: "(xor_name \<times> hash32) list" where
  "example_entries = [(3, 30), (1, 10)]"

lemma example_hash_simps:
  "leaf_hash example_hash 1 10 = 1" "leaf_hash example_hash 3 30 = 2" "node_hash example_hash a b = 3"
  by (simp_all add: leaf_hash_def node_hash_def example_hash_def)

lemma example_sorted: "sort_key fst example_entries = [(1, 10), (3, 30)]"
  by (simp add: example_entries_def word_le_def)

lemma example_build:
  "build example_hash 8 example_entries = Inr (tree_of example_hash [(1, 10), (3, 30)])"
  unfolding build_ok_iff by (simp add: example_sorted) (simp add: example_entries_def)

theorem honest_path_verifies_witness:
  "\<exists>i path. key_index (tree_of example_hash [(1, 10), (3, 30)]) 3 = Some i \<and>
     verify_path example_hash 8 (leaf_hash example_hash 3 30) path i 2
       (root (tree_of example_hash [(1, 10), (3, 30)]))"
proof -
  have "key_count (tree_of example_hash [(1, 10), (3, 30)]) = 2" by (simp add: u32_max_def)
  with honest_path_verifies [OF example_build, of 3 30] show ?thesis
    by (auto simp: example_entries_def)
qed

lemma clog2_2 [simp]: "clog2 2 = 1" "clog2 (Suc (Suc 0)) = 1"
  by (simp_all add: clog2.simps)

lemma example_root: "root (tree_of example_hash [(1, 10), (3, 30)]) = 3"
  by (simp add: root_tree_of example_hash_simps)

theorem verified_path_committed_witness:
  "verify_path example_hash 8 (leaf_hash example_hash 3 30) [1] 1 2 3 \<and>
   (3, 30) \<in> set example_entries \<and>
   key_index (tree_of example_hash [(1, 10), (3, 30)]) 3 = Some 1"
proof -
  have v: "verify_path example_hash 8 (leaf_hash example_hash 3 30) [1] 1 2 3"
    by (simp add: verify_path_def expected_path_length example_hash_simps)
      (simp add: trailing_zeros32.simps)
  have "inj_on example_hash (set (tree_inputs example_hash example_entries) \<union>
      set (path_inputs example_hash 3 30 [1] 1))"
    by (simp add: tree_inputs_def path_inputs_def example_sorted example_hash_simps
        merkle.level_pairs_def Let_def) (auto simp: example_hash_def)
  moreover have "key_count (tree_of example_hash [(1, 10), (3, 30)]) = 2"
    by (simp add: u32_max_def)
  ultimately have "(3, 30) \<in> set example_entries \<and>
      key_index (tree_of example_hash [(1, 10), (3, 30)]) 3 = Some 1"
    using v by (intro verified_path_committed [OF example_build])
      (simp_all only: example_root, simp add: u32_max_def)
  with v show ?thesis by blast
qed

text \<open>
  The root is a function of the set of entries: building fails exactly for an empty set, too
  many entries or a repeated key (and then reports a key that is repeated), and two lists of the
  same entries give the same tree whatever their order.
\<close>

theorem build_deterministic:
  "((\<exists>t. build b3 mx es = Inr t) \<longleftrightarrow> es \<noteq> [] \<and> length es \<le> mx \<and> distinct (map fst es)) \<and>
   (build b3 mx es = Inl (DuplicateKey k) \<longrightarrow> 2 \<le> length (filter (\<lambda>e. fst e = k) es)) \<and>
   (distinct (map fst es) \<and> mset es = mset es' \<longrightarrow> build b3 mx es = build b3 mx es')"
proof (intro conjI impI)
  show "(\<exists>t. build b3 mx es = Inr t) \<longleftrightarrow> es \<noteq> [] \<and> length es \<le> mx \<and> distinct (map fst es)"
    by (simp add: build_ok_iff)
  have dup: "first_duplicate xs = Some k \<Longrightarrow> 2 \<le> length (filter (\<lambda>e. fst e = k) xs)"
    for xs :: "(xor_name \<times> hash32) list"
    by (induction xs rule: first_duplicate.induct) (auto split: if_splits)
  assume "build b3 mx es = Inl (DuplicateKey k)"
  then have "2 \<le> length (filter (\<lambda>e. fst e = k) (sort_key fst es))"
    by (intro dup) (auto simp: build_def Let_def split: if_splits option.splits)
  also have "\<dots> = length (filter (\<lambda>e. fst e = k) es)"
    by (rule mset_eq_length) simp
  finally show "2 \<le> length (filter (\<lambda>e. fst e = k) es)" .
next
  assume a: "distinct (map fst es) \<and> mset es = mset es'"
  then have "sort_key fst es = sort_key fst es'"
    by (intro sort_key_inj_key_eq) (auto simp: distinct_map)
  moreover from a have "length es = length es'" by (metis size_mset)
  moreover from this have "es = [] \<longleftrightarrow> es' = []" by auto
  ultimately show "build b3 mx es = build b3 mx es'" by (simp add: build_def)
qed

theorem build_deterministic_witness:
  "build example_hash 8 [(3, 30), (1, 10)] = build example_hash 8 [(1, 10), (3, 30)]"
  using build_deterministic [of example_hash 8 "[(3, 30), (1, 10)]" 0 "[(1, 10), (3, 30)]"]
  by (simp add: add_mset_commute)

lemma le_bytes32_inject:
  assumes "m < 2 ^ 32" "n < 2 ^ 32" "le_bytes32 m = le_bytes32 n"
  shows "m = n"
proof -
  have d: "m div 256 ^ i mod 256 = n div 256 ^ i mod 256" if "i < 4" for i
  proof -
    from assms(3) that have "(of_nat (m div 256 ^ i) :: 8 word) = of_nat (n div 256 ^ i)"
      unfolding le_bytes32_def by (metis (no_types, lifting) atLeastLessThan_iff
          map_eq_conv set_upt zero_le)
    then show ?thesis by (simp add: word_of_nat_eq_iff take_bit_eq_mod)
  qed
  have "m mod 256 ^ k = n mod 256 ^ k" if "k \<le> 4" for k
    using that
  proof (induction k)
    case (Suc k)
    then show ?case using d [of k] by (simp add: mult.commute [of 256] mod_mult2_eq)
  qed simp
  from this [of 4] assms(1,2) show ?thesis by simp
qed

text \<open>
  The signed payload is a canonical encoding: two commitments (with a key count in range and
  public keys shorter than \<open>2 ^ 32\<close> bytes) have the same payload only if root, key count, sender
  and public key all agree, so a signature never covers two different commitments.
\<close>

theorem signed_payload_canonical:
  assumes "kc < 2 ^ 32" "kc' < 2 ^ 32" "length pk < 2 ^ 32" "length pk' < 2 ^ 32"
  shows "commitment_signed_payload r kc p pk = commitment_signed_payload r' kc' p' pk' \<longleftrightarrow>
    r = r' \<and> kc = kc' \<and> p = p' \<and> pk = pk'"
proof -
  have "le_bytes32 a @ xs = le_bytes32 b @ ys \<longleftrightarrow> le_bytes32 a = le_bytes32 b \<and> xs = ys" for a b xs ys
    by (simp add: le_bytes32_def)
  then show ?thesis
    using assms le_bytes32_inject [of kc kc']
    by (auto simp: commitment_signed_payload_def u32_try_from_def u32_max_def)
qed

theorem signed_payload_canonical_witness:
  "commitment_signed_payload 1 2 3 [4] \<noteq> commitment_signed_payload 1 2 3 [4, 5]"
  using signed_payload_canonical [of 2 2 "[4]" "[4, 5]" 1 3 1 3] by simp

end
