(* ===== verification/Subtree.thy ===== *)
theory Subtree
  imports Commitment
begin

text \<open>
  The contiguous-subtree storage proof of \<open>src/src/replication/subtree.rs\<close>: the geometry of the
  left-packed tree, the nonce-driven choice of one subtree, the proof a responder builds and the
  structural check of the auditor. The theorems: the choice is never empty and covers at least the
  square root of the committed keys, an honest responder's proof is accepted, and an accepted proof
  lists exactly the committed entries of the chosen range unless BLAKE3 collides.
\<close>

section \<open>Data\<close>

definition SMALL_TREE_FULL_AUDIT_FLOOR :: nat where "SMALL_TREE_FULL_AUDIT_FLOOR = 4"

record subtree_leaf_data =
  sl_key :: xor_name
  sl_bytes_hash :: hash32
  sl_nonced_hash :: hash32

record subtree_proof =
  sp_leaves :: "subtree_leaf_data list"
  sp_cut_hashes :: "hash32 list"

record subtree_path =
  st_depth :: nat
  st_slot :: nat
  st_leaf_start :: nat
  st_leaf_end :: nat

definition real_leaf_count :: "subtree_path \<Rightarrow> nat" where
  "real_leaf_count p = st_leaf_end p - st_leaf_start p"

section \<open>Geometry\<close>

definition tree_depth :: "nat \<Rightarrow> nat \<Rightarrow> nat option" where
  "tree_depth max_key_count kc =
     (if kc = 0 \<or> kc > max_key_count then None
      else map_option trailing_zeros32 (checked_next_power_of_two32 kc))"

definition real_leaves_under :: "nat \<Rightarrow> nat \<Rightarrow> nat \<Rightarrow> nat \<Rightarrow> nat" where
  "real_leaves_under depth slot kc total_depth =
     (let span = 2 ^ (total_depth - depth);
          start = min (sat_mul64 slot span) kc;
          end' = min (sat_mul64 (sat_add64 slot 1) span) kc
      in unwrap_or (u32_try_from (end' - start)) 0)"

function newton_sqrt :: "nat \<Rightarrow> nat \<Rightarrow> nat \<Rightarrow> nat" where
  "newton_sqrt n x y = (if y < x then newton_sqrt n y ((y + n div y) div 2) else x)"
  by auto
termination by (relation "measure (\<lambda>(_, x, _). x)") auto

declare newton_sqrt.simps [simp del]

definition sqrt_floor :: "nat \<Rightarrow> nat" where
  "sqrt_floor n =
     (if n \<le> 1 then 1
      else let x = newton_sqrt n n ((n + 1) div 2);
               ceil = (if sat_mul64 x x = n then x else x + 1)
           in unwrap_or (u32_try_from (max ceil 1)) u32_max)"

definition nonce_bit :: "hash32 \<Rightarrow> nat \<Rightarrow> bool" where
  "nonce_bit nonce index =
     (let byte = index div 8
      in byte < 32 \<and> bit (bytes_of32 nonce ! byte) (7 - index mod 8))"

section \<open>Choosing the subtree\<close>

function descend :: "hash32 \<Rightarrow> nat \<Rightarrow> nat \<Rightarrow> nat \<Rightarrow> nat \<Rightarrow> nat \<Rightarrow> nat \<times> nat" where
  "descend nonce kc total_depth floor' depth slot =
     (if depth < total_depth
      then let go_left = nonce_bit nonce depth;
               child_slot = slot * 2 + (if go_left then 0 else 1);
               child_real = real_leaves_under (depth + 1) child_slot kc total_depth
           in if child_real < floor' then (depth, slot)
              else descend nonce kc total_depth floor' (depth + 1) child_slot
      else (depth, slot))"
  by auto
termination by (relation "measure (\<lambda>(_, _, total_depth, _, depth, _). total_depth - depth)") auto

declare descend.simps [simp del]

definition select_subtree_path :: "nat \<Rightarrow> hash32 \<Rightarrow> nat \<Rightarrow> subtree_path option" where
  "select_subtree_path max_key_count nonce kc =
     (case tree_depth max_key_count kc of
        None \<Rightarrow> None
      | Some total_depth \<Rightarrow>
          if kc \<le> SMALL_TREE_FULL_AUDIT_FLOOR
          then Some \<lparr>st_depth = 0, st_slot = 0, st_leaf_start = 0, st_leaf_end = kc\<rparr>
          else
            let (depth, slot) = descend nonce kc total_depth (sqrt_floor kc) 0 0;
                span = 2 ^ (total_depth - depth)
            in Some \<lparr>st_depth = depth, st_slot = unwrap_or (u32_try_from slot) u32_max,
                 st_leaf_start = unwrap_or (u32_try_from (min (sat_mul64 slot span) kc)) kc,
                 st_leaf_end =
                   unwrap_or (u32_try_from (min (sat_mul64 (sat_add64 slot 1) span) kc)) kc\<rparr>)"

section \<open>Deterministic spot-check indices\<close>

definition le_u32 :: "bytes \<Rightarrow> nat" where
  "le_u32 bs = (\<Sum>i<4. unat (bs ! i) * 256 ^ i)"

definition spotcheck_index :: "(bytes \<Rightarrow> hash32) \<Rightarrow> hash32 \<Rightarrow> nat \<Rightarrow> nat \<Rightarrow> nat" where
  "spotcheck_index b3 nonce n counter =
     le_u32 (bytes_of32 (b3 (map of_char ''autonomi.ant.replication.audit_spotcheck.v1'' @
       bytes_of32 nonce @ le_bytes32 counter))) mod n"

text \<open>
  The hash stream: it stops when enough indices are found or the counter (32 bits, wrapping)
  passes \<open>k.saturating_mul(64)\<close>; for a huge \<open>k\<close> the latter may never happen.
\<close>

partial_function (option) hash_stream ::
  "(bytes \<Rightarrow> hash32) \<Rightarrow> hash32 \<Rightarrow> nat \<Rightarrow> nat \<Rightarrow> nat list \<Rightarrow> nat \<Rightarrow> nat list option" where
  "hash_stream b3 nonce n k out counter =
     (if unwrap_or (u32_try_from (length out)) u32_max < k
      then let idx = spotcheck_index b3 nonce n counter;
               out' = (if idx \<in> set out then out else out @ [idx]);
               counter' = (counter + 1) mod 2 ^ 32
           in if counter' > min (k * 64) u32_max then Some out'
              else hash_stream b3 nonce n k out' counter'
      else Some out)"

function top_up :: "nat \<Rightarrow> nat \<Rightarrow> nat list \<Rightarrow> nat \<Rightarrow> nat list" where
  "top_up n k out candidate =
     (if unwrap_or (u32_try_from (length out)) u32_max < k \<and> candidate < n
      then top_up n k (if candidate \<in> set out then out else out @ [candidate]) (candidate + 1)
      else out)"
  by auto
termination by (relation "measure (\<lambda>(n, _, _, candidate). n - candidate)") auto

declare top_up.simps [simp del]

definition select_spotcheck_indices ::
  "(bytes \<Rightarrow> hash32) \<Rightarrow> hash32 \<Rightarrow> subtree_path \<Rightarrow> nat \<Rightarrow> nat list option" where
  "select_spotcheck_indices b3 nonce path k =
     (let n = real_leaf_count path
      in if n = 0 then Some []
         else if n \<le> k then Some [0..<n]
         else map_option (\<lambda>out. top_up n k out 0) (hash_stream b3 nonce n k [] 0))"

section \<open>Verifying a proof\<close>

datatype structure_verdict = Valid | Invalid string

fun strictly_ascending :: "subtree_leaf_data list \<Rightarrow> bool" where
  "strictly_ascending (a # b # rest) = (sl_key a < sl_key b \<and> strictly_ascending (b # rest))"
| "strictly_ascending _ = True"

definition fold_levels :: "(bytes \<Rightarrow> hash32) \<Rightarrow> hash32 list \<Rightarrow> nat \<Rightarrow> hash32" where
  "fold_levels b3 level levels =
     (if level = [] then 0
      else case (build_next_level b3 ^^ levels) level of [] \<Rightarrow> 0 | h # _ \<Rightarrow> h)"

text \<open>
  The climb consumes the root-first cut-hashes from the last to the first; \<open>None\<close> is the early
  return for a missing one.
\<close>

fun climb_cuts ::
  "(bytes \<Rightarrow> hash32) \<Rightarrow> hash32 list \<Rightarrow> nat \<Rightarrow> hash32 \<Rightarrow> nat \<Rightarrow> hash32 option" where
  "climb_cuts b3 cuts 0 cur node_index = Some cur"
| "climb_cuts b3 cuts (Suc level_above) cur node_index =
     (if level_above < length cuts
      then let sibling = cuts ! level_above
           in climb_cuts b3 cuts level_above
                (if node_index mod 2 = 0 then node_hash b3 cur sibling else node_hash b3 sibling cur)
                (node_index div 2)
      else None)"

definition verify_subtree_proof ::
  "(bytes \<Rightarrow> hash32) \<Rightarrow> nat \<Rightarrow> subtree_proof \<Rightarrow> hash32 \<Rightarrow> storage_commitment \<Rightarrow> structure_verdict" where
  "verify_subtree_proof b3 max_key_count proof nonce commitment =
     (case select_subtree_path max_key_count nonce (sc_key_count commitment) of
        None \<Rightarrow> Invalid ''out-of-protocol key_count''
      | Some path \<Rightarrow>
          if length (sp_leaves proof) \<noteq> real_leaf_count path then Invalid ''wrong leaf count''
          else if length (sp_cut_hashes proof) \<noteq> st_depth path then Invalid ''wrong cut-hash count''
          else if \<not> strictly_ascending (sp_leaves proof)
          then Invalid ''leaves not strictly ascending''
          else case tree_depth max_key_count (sc_key_count commitment) of
            None \<Rightarrow> Invalid ''out-of-protocol key_count''
          | Some total_depth \<Rightarrow>
              let leaf_hashes = map (\<lambda>l. leaf_hash b3 (sl_key l) (sl_bytes_hash l)) (sp_leaves proof);
                  cur = fold_levels b3 leaf_hashes (total_depth - st_depth path)
              in case climb_cuts b3 (sp_cut_hashes proof) (st_depth path) cur (st_slot path) of
                   None \<Rightarrow> Invalid ''missing cut-hash''
                 | Some cur \<Rightarrow> if cur = sc_root commitment then Valid else Invalid ''root mismatch'')"

section \<open>Building a proof\<close>

datatype build_proof_error = BadKeyCount | MissingKey nat | MissingBytes xor_name

definition compute_audit_digest ::
  "(bytes \<Rightarrow> hash32) \<Rightarrow> hash32 \<Rightarrow> hash32 \<Rightarrow> xor_name \<Rightarrow> bytes \<Rightarrow> hash32" where
  "compute_audit_digest b3 nonce challenged_peer_id key record_bytes =
     b3 (bytes_of32 nonce @ bytes_of32 challenged_peer_id @ bytes_of32 key @ record_bytes)"

definition nonced_leaf_hash ::
  "(bytes \<Rightarrow> hash32) \<Rightarrow> hash32 \<Rightarrow> hash32 \<Rightarrow> xor_name \<Rightarrow> bytes \<Rightarrow> hash32" where
  "nonced_leaf_hash b3 nonce challenged_peer_id key record_bytes =
     compute_audit_digest b3 nonce challenged_peer_id key record_bytes"

definition subtree_leaf ::
  "(bytes \<Rightarrow> hash32) \<Rightarrow> hash32 \<Rightarrow> hash32 \<Rightarrow> xor_name \<Rightarrow> bytes \<Rightarrow> subtree_leaf_data" where
  "subtree_leaf b3 nonce challenged_peer_id key bs =
     \<lparr>sl_key = key, sl_bytes_hash = b3 bs,
      sl_nonced_hash = nonced_leaf_hash b3 nonce challenged_peer_id key bs\<rparr>"

record subtree_plan_data =
  pl_leaf_keys :: "xor_name list"
  pl_cut_hashes :: "hash32 list"

fun plan_keys :: "merkle_tree \<Rightarrow> nat list \<Rightarrow> build_proof_error + xor_name list" where
  "plan_keys tree [] = Inr []"
| "plan_keys tree (idx # idxs) =
     (case key_at tree idx of None \<Rightarrow> Inl (MissingKey idx)
      | Some key \<Rightarrow> (case plan_keys tree idxs of Inl e \<Rightarrow> Inl e | Inr ks \<Rightarrow> Inr (key # ks)))"

text \<open>The cut-hash loop over \<open>d\<close> from \<open>d\<close> to the depth of the subtree; \<open>child ^ 1\<close> is XOR.\<close>

fun plan_cuts ::
  "merkle_tree \<Rightarrow> hash32 \<Rightarrow> nat \<Rightarrow> nat list \<Rightarrow> nat \<Rightarrow> build_proof_error + hash32 list" where
  "plan_cuts tree nonce total_depth [] slot = Inr []"
| "plan_cuts tree nonce total_depth (d # ds) slot =
     (let child = slot * 2 + (if nonce_bit nonce d then 0 else 1);
          sibling = child XOR 1;
          level_from_leaves = total_depth - (d + 1);
          chosen_hash = node_at tree level_from_leaves child
      in case (case node_at tree level_from_leaves sibling of Some h \<Rightarrow> Some h | None \<Rightarrow> chosen_hash) of
           None \<Rightarrow> Inl BadKeyCount
         | Some sib_hash \<Rightarrow>
             (case plan_cuts tree nonce total_depth ds child of
                Inl e \<Rightarrow> Inl e | Inr cuts \<Rightarrow> Inr (sib_hash # cuts)))"

definition subtree_plan ::
  "nat \<Rightarrow> merkle_tree \<Rightarrow> hash32 \<Rightarrow> build_proof_error + subtree_plan_data" where
  "subtree_plan max_key_count tree nonce =
     (case select_subtree_path max_key_count nonce (key_count tree) of
        None \<Rightarrow> Inl BadKeyCount
      | Some path \<Rightarrow>
          (case plan_keys tree [st_leaf_start path..<st_leaf_end path] of
             Inl e \<Rightarrow> Inl e
           | Inr ks \<Rightarrow>
               let total_depth = unwrap_or (u32_try_from (levels_count tree - 1)) 0
               in (case plan_cuts tree nonce total_depth [0..<st_depth path] 0 of
                     Inl e \<Rightarrow> Inl e
                   | Inr cuts \<Rightarrow> Inr \<lparr>pl_leaf_keys = ks, pl_cut_hashes = cuts\<rparr>)))"

fun proof_leaves ::
  "(bytes \<Rightarrow> hash32) \<Rightarrow> hash32 \<Rightarrow> hash32 \<Rightarrow> (xor_name \<Rightarrow> bytes option) \<Rightarrow> xor_name list \<Rightarrow>
     build_proof_error + subtree_leaf_data list" where
  "proof_leaves b3 nonce peer bytes_for [] = Inr []"
| "proof_leaves b3 nonce peer bytes_for (key # ks) =
     (case bytes_for key of None \<Rightarrow> Inl (MissingBytes key)
      | Some bs \<Rightarrow>
          (case proof_leaves b3 nonce peer bytes_for ks of
             Inl e \<Rightarrow> Inl e | Inr ls \<Rightarrow> Inr (subtree_leaf b3 nonce peer key bs # ls)))"

definition build_subtree_proof ::
  "(bytes \<Rightarrow> hash32) \<Rightarrow> nat \<Rightarrow> merkle_tree \<Rightarrow> hash32 \<Rightarrow> hash32 \<Rightarrow> (xor_name \<Rightarrow> bytes option) \<Rightarrow>
     build_proof_error + subtree_proof" where
  "build_subtree_proof b3 max_key_count tree nonce challenged_peer_id bytes_for =
     (case subtree_plan max_key_count tree nonce of
        Inl e \<Rightarrow> Inl e
      | Inr plan \<Rightarrow>
          (case proof_leaves b3 nonce challenged_peer_id bytes_for (pl_leaf_keys plan) of
             Inl e \<Rightarrow> Inl e
           | Inr ls \<Rightarrow> Inr \<lparr>sp_leaves = ls, sp_cut_hashes = pl_cut_hashes plan\<rparr>))"

section \<open>The integer square root\<close>

lemma newton_step_upper:
  fixes x n :: nat
  assumes "0 < x"
  shows "n < ((x + n div x) div 2 + 1) ^ 2"
proof -
  define q where "q = n div x"
  have "n < x * (q + 1)" using assms dividend_less_times_div [of x n] by (simp add: q_def algebra_simps)
  also have "4 * (x * (q + 1)) \<le> (x + q + 1) ^ 2"
  proof -
    have "4 * (int x * (int q + 1)) \<le> (int x + int q + 1) ^ 2"
      using zero_le_power2 [of "int x - int q - 1"] by (simp add: power2_eq_square algebra_simps)
    then have "int (4 * (x * (q + 1))) \<le> int ((x + q + 1) ^ 2)" by (simp add: algebra_simps)
    then show ?thesis by (simp only: of_nat_le_iff)
  qed
  finally have "4 * n < (x + q + 1) ^ 2" by linarith
  also have "\<dots> \<le> (2 * ((x + q) div 2 + 1)) ^ 2" by (intro power_mono) auto
  finally show ?thesis by (simp add: q_def power2_eq_square)
qed

lemma newton_sqrt_correct:
  "0 < x \<Longrightarrow> n < (x + 1) ^ 2 \<Longrightarrow> n < (y + 1) ^ 2 \<Longrightarrow> 0 < n \<Longrightarrow> (x \<le> y \<longrightarrow> x ^ 2 \<le> n) \<Longrightarrow>
   newton_sqrt n x y ^ 2 \<le> n \<and> n < (newton_sqrt n x y + 1) ^ 2"
proof (induction n x y rule: newton_sqrt.induct)
  case (1 n x y)
  show ?case
  proof (cases "y < x")
    case True
    have y: "0 < y" using "1.prems"(3,4) by (cases y) auto
    let ?z = "(y + n div y) div 2"
    have "y \<le> ?z \<longrightarrow> y ^ 2 \<le> n"
    proof
      assume "y \<le> ?z"
      then have "y \<le> n div y" by linarith
      then have "y * y \<le> n" using y by (metis div_times_less_eq_dividend mult_le_mono1 order_trans)
      then show "y ^ 2 \<le> n" by (simp add: power2_eq_square)
    qed
    with "1.IH" [OF True y "1.prems"(3) newton_step_upper [OF y] "1.prems"(4)] True show ?thesis
      by (simp add: newton_sqrt.simps [of n x y])
  next
    case False
    with "1.prems" show ?thesis by (simp add: newton_sqrt.simps [of n x y])
  qed
qed

lemma sqrt_floor_ceil:
  assumes "0 < n" "n \<le> u32_max"
  shows "n \<le> sqrt_floor n ^ 2" "(sqrt_floor n - 1) ^ 2 < n" "1 \<le> sqrt_floor n" "sqrt_floor n \<le> n"
proof -
  consider "n = 1" | "2 \<le> n" using assms(1) by linarith
  then have "n \<le> sqrt_floor n ^ 2 \<and> (sqrt_floor n - 1) ^ 2 < n \<and> 1 \<le> sqrt_floor n \<and> sqrt_floor n \<le> n"
  proof cases
    case 1
    then show ?thesis by (simp add: sqrt_floor_def)
  next
    case 2
    define x where "x = newton_sqrt n n ((n + 1) div 2)"
    have "n < ((n + 1) div 2 + 1) ^ 2"
    proof -
      have "4 * n < (n + 2) ^ 2" by (simp add: power2_eq_square algebra_simps)
      also have "\<dots> \<le> (2 * ((n + 1) div 2 + 1)) ^ 2" by (intro power_mono) auto
      finally show ?thesis by (simp add: power2_eq_square)
    qed
    with 2 have x: "x ^ 2 \<le> n" "n < (x + 1) ^ 2"
      using newton_sqrt_correct [of n n "(n + 1) div 2"]
      by (auto simp: x_def power2_eq_square algebra_simps)
    have "1 \<le> x" using x(2) 2 by (cases x) auto
    then have le: "x \<le> x ^ 2" by (simp add: power2_eq_square)
    have "x + 1 \<le> n \<or> x ^ 2 = n" using x(1) le by linarith
    have sq: "sat_mul64 x x = x ^ 2"
      using x(1) assms(2) by (simp add: sat_mul64_def u64_max_def u32_max_def power2_eq_square)
    have "sqrt_floor n =
        unwrap_or (u32_try_from (max (if sat_mul64 x x = n then x else x + 1) 1)) u32_max"
      using 2 by (simp only: sqrt_floor_def x_def Let_def) simp
    also have "\<dots> = (if x ^ 2 = n then x else x + 1)"
      using \<open>1 \<le> x\<close> \<open>x + 1 \<le> n \<or> x ^ 2 = n\<close> le x(1) assms(2)
      by (simp add: sq u32_try_from_def max_def)
    finally have r: "sqrt_floor n = (if x ^ 2 = n then x else x + 1)" .
    show ?thesis
    proof (cases "x ^ 2 = n")
      case True
      have "(x - 1) ^ 2 < x ^ 2" using \<open>1 \<le> x\<close> by (intro power_strict_mono) auto
      with True r le \<open>1 \<le> x\<close> show ?thesis by simp
    next
      case False
      with r x \<open>x + 1 \<le> n \<or> x ^ 2 = n\<close> show ?thesis by simp
    qed
  qed
  then show "n \<le> sqrt_floor n ^ 2" "(sqrt_floor n - 1) ^ 2 < n" "1 \<le> sqrt_floor n" "sqrt_floor n \<le> n"
    by auto
qed

section \<open>The chosen subtree\<close>

text \<open>The slot the nonce bits lead to at each depth, and the committed leaves below a slot.\<close>

fun nonce_slot :: "hash32 \<Rightarrow> nat \<Rightarrow> nat" where
  "nonce_slot nonce 0 = 0"
| "nonce_slot nonce (Suc d) = nonce_slot nonce d * 2 + (if nonce_bit nonce d then 0 else 1)"

definition leaves_below :: "nat \<Rightarrow> nat \<Rightarrow> nat \<Rightarrow> nat \<Rightarrow> nat" where
  "leaves_below D kc d s = min ((s + 1) * 2 ^ (D - d)) kc - min (s * 2 ^ (D - d)) kc"

lemma nonce_slot_less: "nonce_slot nonce d < 2 ^ d"
  by (induction d) auto

lemma slot_span_le:
  fixes s :: nat
  assumes "d \<le> D" "D \<le> 31" "s < 2 ^ d"
  shows "(s + 1) * 2 ^ (D - d) \<le> 2 ^ 31"
proof -
  have "(s + 1) * 2 ^ (D - d) \<le> 2 ^ d * 2 ^ (D - d)" using assms(3) by (intro mult_le_mono1) simp
  also have "\<dots> = 2 ^ D" using assms(1) by (simp flip: power_add)
  also have "\<dots> \<le> 2 ^ 31" using assms(2) by (intro power_increasing) auto
  finally show ?thesis .
qed

lemma sat_slot:
  assumes "d \<le> D" "D \<le> 31" "s < 2 ^ d"
  shows "sat_mul64 s (2 ^ (D - d)) = s * 2 ^ (D - d)"
    "sat_mul64 (sat_add64 s 1) (2 ^ (D - d)) = (s + 1) * 2 ^ (D - d)"
proof -
  have le: "(s + 1) * 2 ^ (D - d) \<le> 2 ^ 31" using assms by (rule slot_span_le)
  moreover have "(s + 1) * 1 \<le> (s + 1) * 2 ^ (D - d)" by (intro mult_le_mono2) simp
  ultimately have "s + 1 \<le> u64_max" by (simp add: u64_max_def)
  with le show "sat_mul64 s (2 ^ (D - d)) = s * 2 ^ (D - d)"
    "sat_mul64 (sat_add64 s 1) (2 ^ (D - d)) = (s + 1) * 2 ^ (D - d)"
    by (simp_all add: sat_mul64_def sat_add64_def u64_max_def)
qed

lemma real_leaves_under_eq:
  assumes "d \<le> D" "D \<le> 31" "s < 2 ^ d" "kc \<le> u32_max"
  shows "real_leaves_under d s kc D = leaves_below D kc d s"
  using assms(4) unfolding real_leaves_under_def Let_def sat_slot [OF assms(1-3)] leaves_below_def
  by (simp add: u32_try_from_def)

lemma descend_spec:
  "D \<le> 31 \<Longrightarrow> kc \<le> u32_max \<Longrightarrow> descend nonce kc D f depth slot = (d, s) \<Longrightarrow> slot = nonce_slot nonce depth \<Longrightarrow> depth \<le> D \<Longrightarrow>
    f \<le> leaves_below D kc depth slot \<Longrightarrow>
    depth \<le> d \<and> d \<le> D \<and> s = nonce_slot nonce d \<and> f \<le> leaves_below D kc d s \<and>
    (d < D \<longrightarrow> leaves_below D kc (Suc d) (nonce_slot nonce (Suc d)) < f)"
proof (induction nonce kc D f depth slot rule: descend.induct)
  case (1 nonce kc D f depth slot)
  let ?c = "nonce_slot nonce (Suc depth)"
  show ?case
  proof (cases "depth < D")
    case True
    have eq: "real_leaves_under (depth + 1) ?c kc D = leaves_below D kc (Suc depth) ?c"
      using real_leaves_under_eq [of "Suc depth" D ?c kc] True "1.prems"(1,2)
        nonce_slot_less [of nonce "Suc depth"] by simp
    have step: "descend nonce kc D f depth slot =
        (if leaves_below D kc (Suc depth) ?c < f then (depth, slot)
         else descend nonce kc D f (depth + 1) ?c)"
      using True "1.prems"(4) eq by (simp add: descend.simps [of nonce kc D f depth] Let_def)
    show ?thesis
    proof (cases "leaves_below D kc (Suc depth) ?c < f")
      case True
      with step "1.prems" show ?thesis by auto
    next
      case child: False
      have "depth + 1 \<le> d \<and> d \<le> D \<and> s = nonce_slot nonce d \<and> f \<le> leaves_below D kc d s \<and>
          (d < D \<longrightarrow> leaves_below D kc (Suc d) (nonce_slot nonce (Suc d)) < f)"
        using child step "1.prems" True eq
        by (intro "1.IH" [OF True refl refl refl]) (simp_all del: nonce_slot.simps add: nonce_slot.simps(2) [symmetric])
      then show ?thesis by linarith
    qed
  next
    case False
    with "1.prems" show ?thesis by (auto simp: descend.simps [of nonce kc D f depth])
  qed
qed

lemma tree_depth_Some:
  "tree_depth mx kc = Some D \<Longrightarrow> 0 < kc \<and> kc \<le> mx \<and> D = clog2 kc \<and> D \<le> 31 \<and> kc \<le> 2 ^ D \<and> kc \<le> u32_max"
proof -
  assume a: "tree_depth mx kc = Some D"
  then have kc: "0 < kc" "kc \<le> mx" and p: "checked_next_power_of_two32 kc = Some (2 ^ clog2 kc)"
      "D = clog2 kc"
    by (auto simp: tree_depth_def checked_next_power_of_two32_def Let_def split: if_splits)
  from p(1) have le: "(2::nat) ^ clog2 kc \<le> u32_max"
    by (auto simp: checked_next_power_of_two32_def Let_def split: if_splits)
  have "clog2 kc \<le> 31"
  proof (rule ccontr)
    assume "\<not> clog2 kc \<le> 31"
    then have "(2::nat) ^ 32 \<le> 2 ^ clog2 kc" by (intro power_increasing) auto
    with le show False by (simp add: u32_max_def)
  qed
  with kc p(2) le clog2_bounds [of kc] show ?thesis by (auto intro: order_trans)
qed

lemma tree_depth_ok: "0 < kc \<Longrightarrow> kc \<le> mx \<Longrightarrow> kc \<le> 2 ^ 31 \<Longrightarrow> tree_depth mx kc = Some (clog2 kc)"
  by (simp add: tree_depth_def expected_path_length)

lemma leaves_below_pos:
  "0 < leaves_below D kc d s \<Longrightarrow> s * 2 ^ (D - d) < kc"
  by (rule ccontr) (simp add: leaves_below_def not_less min_absorb2)

lemma select_subtree_path_spec:
  assumes "tree_depth mx kc = Some D"
  obtains p where "select_subtree_path mx nonce kc = Some p" "st_depth p \<le> D"
    "st_slot p = nonce_slot nonce (st_depth p)"
    "st_leaf_start p = st_slot p * 2 ^ (D - st_depth p)"
    "st_leaf_end p = min ((st_slot p + 1) * 2 ^ (D - st_depth p)) kc"
    "sqrt_floor kc \<le> real_leaf_count p" "st_leaf_start p < st_leaf_end p"
    "kc \<le> 4 \<longrightarrow> real_leaf_count p = kc"
    "4 < kc \<and> st_depth p < D \<longrightarrow>
       leaves_below D kc (Suc (st_depth p)) (nonce_slot nonce (Suc (st_depth p))) < sqrt_floor kc"
proof (cases "kc \<le> 4")
  case True
  with assms sqrt_floor_ceil [of kc] tree_depth_Some [OF assms] show ?thesis
    by (intro that [of "\<lparr>st_depth = 0, st_slot = 0, st_leaf_start = 0, st_leaf_end = kc\<rparr>"])
      (auto simp: select_subtree_path_def SMALL_TREE_FULL_AUDIT_FLOOR_def real_leaf_count_def)
next
  case False
  note td = tree_depth_Some [OF assms]
  obtain d s where ds: "descend nonce kc D (sqrt_floor kc) 0 0 = (d, s)" by fastforce
  have sf: "1 \<le> sqrt_floor kc" "sqrt_floor kc \<le> kc" using sqrt_floor_ceil [of kc] td by auto
  have "sqrt_floor kc \<le> leaves_below D kc 0 0" using sf td by (auto simp: leaves_below_def)
  with descend_spec [OF _ _ ds] td
  have spec: "d \<le> D" "s = nonce_slot nonce d" "sqrt_floor kc \<le> leaves_below D kc d s"
      "d < D \<longrightarrow> leaves_below D kc (Suc d) (nonce_slot nonce (Suc d)) < sqrt_floor kc"
    by (auto simp del: nonce_slot.simps(2))
  have s: "s < 2 ^ d" using spec(2) nonce_slot_less by simp
  have lt: "s * 2 ^ (D - d) < kc" using spec(3) sf(1) by (intro leaves_below_pos) linarith
  have "s \<le> s * 2 ^ (D - d)" by simp
  with lt td have su: "s \<le> u32_max" by linarith
  define p where "p = \<lparr>st_depth = d, st_slot = s, st_leaf_start = s * 2 ^ (D - d),
      st_leaf_end = min ((s + 1) * 2 ^ (D - d)) kc\<rparr>"
  have sat: "sat_mul64 s (2 ^ (D - d)) = s * 2 ^ (D - d)"
      "sat_mul64 (sat_add64 s 1) (2 ^ (D - d)) = (s + 1) * 2 ^ (D - d)"
    using sat_slot [OF spec(1) _ s] td by auto
  have sel: "select_subtree_path mx nonce kc = Some p"
    using False lt td su unfolding select_subtree_path_def assms option.case ds case_prod_conv Let_def sat
    by (auto simp: SMALL_TREE_FULL_AUDIT_FLOOR_def u32_try_from_def p_def min_le_iff_disj)
  have rl: "real_leaf_count p = leaves_below D kc d s"
    using lt by (simp add: real_leaf_count_def p_def leaves_below_def)
  have "st_leaf_start p < st_leaf_end p"
    using rl spec(3) sf(1) by (simp add: real_leaf_count_def)
  with sel rl spec False show ?thesis
    by (intro that [of p]) (auto simp: p_def simp del: nonce_slot.simps)
qed

section \<open>The two sides of a proof\<close>

lemma fold_levels_block:
  assumes "s < length ((build_next_level b3 ^^ m) xs)" "take (2 ^ m) (drop (s * 2 ^ m) xs) \<noteq> []"
  shows "fold_levels b3 (take (2 ^ m) (drop (s * 2 ^ m) xs)) m = (build_next_level b3 ^^ m) xs ! s"
  using assms merkle.pow_block [OF assms(1)] by (simp add: fold_levels_def)

lemma climb_cuts_climb:
  "length cuts = depth \<Longrightarrow>
   climb_cuts b3 cuts depth cur i = Some (climb (node_hash b3) cur (rev cuts) i)"
proof (induction cuts arbitrary: depth cur i rule: rev_induct)
  case (snoc c cuts)
  have "d \<le> length cuts \<Longrightarrow> climb_cuts b3 (cuts @ [c]) d x j = climb_cuts b3 cuts d x j" for d x j
    by (induction d arbitrary: x j) (auto simp: nth_append Let_def)
  with snoc show ?case by (auto simp: Let_def)
qed simp

lemma strictly_ascending_iff: "strictly_ascending ls \<longleftrightarrow> sorted_wrt (<) (map sl_key ls)"
  by (induction ls rule: strictly_ascending.induct) (auto simp: image_iff intro: less_trans)

lemma plan_keys_ok:
  "\<forall>i\<in>set idxs. i < length (mt_leaves t) \<Longrightarrow>
   plan_keys t idxs = Inr (map (\<lambda>i. fst (mt_leaves t ! i)) idxs)"
  by (induction idxs) (auto simp: key_at_def)

lemma nth_range: "e \<le> length xs \<Longrightarrow> map (\<lambda>i. f (xs ! i)) [b..<e] = map f (drop b (take e xs))"
  by (rule nth_equalityI) auto

text \<open>
  The cut-hashes of the plan are, read from the subtree towards the root, the path of the subtree's
  root node in the upper part of the tree.
\<close>

lemma node_at_tree_of:
  "es \<noteq> [] \<Longrightarrow> l \<le> clog2 (length es) \<Longrightarrow>
   node_at (tree_of b3 es) l i =
     (let level = (build_next_level b3 ^^ l) (leaf_level b3 es)
      in if i < length level then Some (level ! i) else None)"
  by (simp add: node_at_def tree_of_level Let_def)

lemma sibling_xor:
  "i < length level \<Longrightarrow>
   (if i XOR 1 < length level then level ! (i XOR 1) else level ! i) = level ! sibling_idx level i"
proof (cases "even i")
  case True
  then have "i XOR 1 = i + 1" by (simp add: xor_Suc_0_eq)
  with True show ?thesis by (simp add: sibling_idx_def even_iff_mod_2_eq_zero)
next
  case False
  then have "i XOR 1 = i - 1" "i mod 2 = 1" by (auto simp: xor_Suc_0_eq odd_iff_mod_2_eq_one)
  moreover assume "i < length level"
  ultimately show ?thesis by (auto simp: sibling_idx_def)
qed

abbreviation tree_level :: "(bytes \<Rightarrow> hash32) \<Rightarrow> (xor_name \<times> hash32) list \<Rightarrow> nat \<Rightarrow> hash32 list" where
  "tree_level b3 es j \<equiv> (build_next_level b3 ^^ j) (leaf_level b3 es)"

definition honest_cut :: "(bytes \<Rightarrow> hash32) \<Rightarrow> (xor_name \<times> hash32) list \<Rightarrow> hash32 \<Rightarrow> nat \<Rightarrow> hash32" where
  "honest_cut b3 es nonce i =
     (let level = tree_level b3 es (clog2 (length es) - Suc i)
      in level ! sibling_idx level (nonce_slot nonce (Suc i)))"

lemma nonce_slot_div: "j \<le> d \<Longrightarrow> nonce_slot nonce d div 2 ^ (d - j) = nonce_slot nonce j"
proof (induction d)
  case (Suc d)
  show ?case
  proof (cases "j = Suc d")
    case False
    with Suc.prems have "j \<le> d" by simp
    moreover from this have "Suc d - j = Suc (d - j)" by simp
    moreover have "nonce_slot nonce (Suc d) div 2 = nonce_slot nonce d" by simp
    ultimately show ?thesis using Suc.IH by (simp only: power_Suc div_mult2_eq)
  qed simp
qed simp

lemma nonce_slot_in_level:
  assumes "nonce_slot nonce d * 2 ^ (D - d) < length xs" "j \<le> d" "d \<le> D"
  shows "nonce_slot nonce j < length ((build_next_level b3 ^^ (D - j)) xs)"
proof -
  have "nonce_slot nonce d * 2 ^ (D - d) div 2 ^ (D - j) = nonce_slot nonce j"
  proof -
    have "D - j = (D - d) + (d - j)" using assms(2,3) by simp
    then show ?thesis using nonce_slot_div [OF assms(2)] by (simp add: power_add div_mult2_eq)
  qed
  with merkle.pow_index [OF assms(1), where m = "D - j"] show ?thesis by simp
qed

lemma plan_cuts_eq:
  assumes es: "es \<noteq> []" and D: "D = clog2 (length es)" and d: "d \<le> D"
    and lt: "nonce_slot nonce d * 2 ^ (D - d) < length es"
  shows "j \<le> d \<Longrightarrow> plan_cuts (tree_of b3 es) nonce D [j..<d] (nonce_slot nonce j) =
    Inr (map (honest_cut b3 es nonce) [j..<d])"
proof (induction "d - j" arbitrary: j)
  case (Suc n)
  then have j: "j < d" by simp
  let ?c = "nonce_slot nonce (Suc j)" and ?L = "tree_level b3 es (D - Suc j)"
  have c: "?c < length ?L" using nonce_slot_in_level [of nonce d D "leaf_level b3 es" "Suc j"] lt d j
    by simp
  have "(case node_at (tree_of b3 es) (D - Suc j) (?c XOR 1) of Some h \<Rightarrow> Some h
      | None \<Rightarrow> node_at (tree_of b3 es) (D - Suc j) ?c) = Some (honest_cut b3 es nonce j)"
    using c sibling_xor [OF c] es by (auto simp: node_at_tree_of D honest_cut_def Let_def
        simp del: nonce_slot.simps split: if_splits)
  moreover have "plan_cuts (tree_of b3 es) nonce D [Suc j..<d] ?c =
      Inr (map (honest_cut b3 es nonce) [Suc j..<d])"
    using Suc j by (intro Suc.hyps(1)) simp_all
  ultimately show ?case
    by (simp only: upt_conv_Cons [OF j] plan_cuts.simps Let_def nonce_slot.simps(2) [symmetric]
        Suc_eq_plus1 [symmetric] option.case sum.case list.map)
qed simp

lemma honest_cuts_climb:
  assumes es: "es \<noteq> []" and D: "D = clog2 (length es)" and d: "d \<le> D"
    and lt: "nonce_slot nonce d * 2 ^ (D - d) < length es"
  shows "j \<le> d \<Longrightarrow> climb (node_hash b3) (tree_level b3 es (D - j) ! nonce_slot nonce j)
      (rev (map (honest_cut b3 es nonce) [0..<j])) (nonce_slot nonce j) = root (tree_of b3 es)"
proof (induction j)
  case 0
  then show ?case using es by (simp add: root_tree_of D)
next
  case (Suc j)
  let ?c = "nonce_slot nonce (Suc j)" and ?L = "tree_level b3 es (D - Suc j)"
  have c: "?c < length ?L"
    using nonce_slot_in_level [of nonce d D "leaf_level b3 es" "Suc j"] lt d Suc.prems by simp
  have "D - j = Suc (D - Suc j)" using Suc.prems d by simp
  then have "build_next_level b3 ?L = tree_level b3 es (D - j)" by simp
  then have "(if ?c mod 2 = 0 then node_hash b3 (?L ! ?c) (honest_cut b3 es nonce j)
      else node_hash b3 (honest_cut b3 es nonce j) (?L ! ?c)) = tree_level b3 es (D - j) ! (?c div 2)"
    using merkle.nxt_nth [OF c, of b3] by (simp add: honest_cut_def D Let_def del: nonce_slot.simps)
  moreover have "?c div 2 = nonce_slot nonce j" by simp
  ultimately show ?case using Suc by (simp del: nonce_slot.simps)
qed

lemma proof_leaves_ok:
  "\<forall>k\<in>set ks. bytes_for k \<noteq> None \<Longrightarrow>
   proof_leaves b3 nonce peer bytes_for ks =
     Inr (map (\<lambda>k. subtree_leaf b3 nonce peer k (the (bytes_for k))) ks)"
  by (induction ks) (auto split: option.splits)

lemma proof_leaves_error:
  "proof_leaves b3 nonce peer bytes_for ks = Inl e \<Longrightarrow>
   \<exists>k\<in>set ks. e = MissingBytes k \<and> bytes_for k = None"
  by (induction ks) (auto split: option.splits sum.splits)

text \<open>The plan for a built tree: the keys of the chosen range and the honest cut-hashes.\<close>

lemma subtree_plan_built:
  assumes es: "es \<noteq> []" "length es \<le> mx" "mx \<le> 2 ^ 31"
    and p: "select_subtree_path mx nonce (length es) = Some p"
  shows "subtree_plan mx (tree_of b3 es) nonce = Inr
    \<lparr>pl_leaf_keys = map fst (drop (st_leaf_start p) (take (st_leaf_end p) es)),
     pl_cut_hashes = map (honest_cut b3 es nonce) [0..<st_depth p]\<rparr>"
proof -
  let ?n = "length es" and ?D = "clog2 (length es)"
  have td: "tree_depth mx ?n = Some ?D" using es by (intro tree_depth_ok) auto
  note spec = select_subtree_path_spec [OF td, of nonce]
  have D: "?D \<le> 31" using tree_depth_Some [OF td] by simp
  have kc: "key_count (tree_of b3 es) = ?n" using es(2,3) by (simp add: u32_max_def)
  from spec p have ps: "st_depth p \<le> ?D" "st_leaf_end p \<le> ?n"
      "nonce_slot nonce (st_depth p) * 2 ^ (?D - st_depth p) < ?n"
    by (metis option.inject, metis option.inject min.cobounded2,
        metis option.inject min.cobounded2 order_less_le_trans)
  have "plan_keys (tree_of b3 es) [st_leaf_start p..<st_leaf_end p] =
      Inr (map fst (drop (st_leaf_start p) (take (st_leaf_end p) es)))"
    using ps(2) by (subst plan_keys_ok) (auto simp: nth_range [symmetric] case_prod_unfold)
  moreover have "plan_cuts (tree_of b3 es) nonce ?D [0..<st_depth p] 0 =
      Inr (map (honest_cut b3 es nonce) [0..<st_depth p])"
    using plan_cuts_eq [OF es(1) refl ps(1,3), of 0] by simp
  moreover have "unwrap_or (u32_try_from (levels_count (tree_of b3 es) - 1)) 0 = ?D"
    using D by (simp add: levels_count_def u32_try_from_def u32_max_def)
  ultimately show ?thesis by (simp only: subtree_plan_def kc p Let_def option.case sum.case)
qed

lemma chosen_block:
  "drop (s * 2 ^ m) (take (min ((s + 1) * 2 ^ m) (length xs)) xs) = take (2 ^ m) (drop (s * 2 ^ m) xs)"
  by (simp add: drop_take take_all_iff min_def)

lemma verify_subtree_proof_iff:
  assumes "tree_depth mx (sc_key_count c) = Some D"
    and "select_subtree_path mx nonce (sc_key_count c) = Some p"
  shows "verify_subtree_proof b3 mx pf nonce c = Valid \<longleftrightarrow>
    length (sp_leaves pf) = real_leaf_count p \<and> length (sp_cut_hashes pf) = st_depth p \<and>
    sorted_wrt (<) (map sl_key (sp_leaves pf)) \<and>
    climb (node_hash b3)
      (fold_levels b3 (map (\<lambda>l. leaf_hash b3 (sl_key l) (sl_bytes_hash l)) (sp_leaves pf))
        (D - st_depth p)) (rev (sp_cut_hashes pf)) (st_slot p) = sc_root c"
  using assms
  by (auto simp: verify_subtree_proof_def strictly_ascending_iff climb_cuts_climb Let_def)

text \<open>The chosen range of a built tree folds to the node of the chosen slot.\<close>

lemma chosen_range:
  assumes es: "es \<noteq> []" "length es \<le> mx" "mx \<le> 2 ^ 31"
  obtains p where "tree_depth mx (length es) = Some (clog2 (length es))"
    "select_subtree_path mx nonce (length es) = Some p" "st_depth p \<le> clog2 (length es)"
    "st_slot p = nonce_slot nonce (st_depth p)"
    "nonce_slot nonce (st_depth p) * 2 ^ (clog2 (length es) - st_depth p) < length es"
    "drop (st_leaf_start p) (take (st_leaf_end p) es) =
       take (2 ^ (clog2 (length es) - st_depth p))
         (drop (st_slot p * 2 ^ (clog2 (length es) - st_depth p)) es)"
    "length (drop (st_leaf_start p) (take (st_leaf_end p) es)) = real_leaf_count p"
    "0 < real_leaf_count p"
proof -
  let ?n = "length es" and ?D = "clog2 (length es)"
  have td: "tree_depth mx ?n = Some ?D" using es by (intro tree_depth_ok) auto
  obtain p where p: "select_subtree_path mx nonce ?n = Some p" "st_depth p \<le> ?D"
    "st_slot p = nonce_slot nonce (st_depth p)"
    "st_leaf_start p = st_slot p * 2 ^ (?D - st_depth p)"
    "st_leaf_end p = min ((st_slot p + 1) * 2 ^ (?D - st_depth p)) ?n"
    "st_leaf_start p < st_leaf_end p"
    by (rule select_subtree_path_spec [OF td])
  have le: "st_leaf_end p \<le> ?n" unfolding p(5) by (rule min.cobounded2)
  then have len: "length (drop (st_leaf_start p) (take (st_leaf_end p) es)) = real_leaf_count p"
    by (simp add: real_leaf_count_def)
  have blk: "drop (st_leaf_start p) (take (st_leaf_end p) es) =
      take (2 ^ (?D - st_depth p)) (drop (st_slot p * 2 ^ (?D - st_depth p)) es)"
    unfolding p(4,5) by (rule chosen_block)
  have "nonce_slot nonce (st_depth p) * 2 ^ (?D - st_depth p) < ?n"
    using le p(6) unfolding p(4) p(3) [symmetric] by linarith
  moreover have "0 < real_leaf_count p" using p(6) by (simp add: real_leaf_count_def)
  ultimately show ?thesis by (rule that [OF td p(1-3) _ blk len])
qed

lemma chosen_range_node:
  assumes "nonce_slot nonce d * 2 ^ (D - d) < length xs" "d \<le> D"
  shows "fold_levels b3 (take (2 ^ (D - d)) (drop (nonce_slot nonce d * 2 ^ (D - d)) xs)) (D - d) =
    (build_next_level b3 ^^ (D - d)) xs ! nonce_slot nonce d"
  using assms nonce_slot_in_level [OF assms(1), of d b3] by (intro fold_levels_block) auto

section \<open>Properties\<close>

text \<open>
  The choice of the subtree: for every key count of the protocol and every nonce a subtree is
  chosen, its leaf range is not empty and lies within the committed leaves, it covers at least the
  square root of them (all of them for at most four), it is aligned to its own size, and the child
  the nonce points to would fall below the square root; a key count outside the protocol has none.
\<close>

theorem selected_subtree_large:
  assumes "mx \<le> 2 ^ 31"
  shows "if kc = 0 \<or> mx < kc then select_subtree_path mx nonce kc = None
    else \<exists>p. select_subtree_path mx nonce kc = Some p \<and>
      st_leaf_start p < st_leaf_end p \<and> st_leaf_end p \<le> kc \<and>
      kc \<le> real_leaf_count p ^ 2 \<and> (kc \<le> 4 \<longrightarrow> real_leaf_count p = kc) \<and>
      2 ^ (clog2 kc - st_depth p) dvd st_leaf_start p \<and>
      (4 < kc \<and> st_depth p < clog2 kc \<longrightarrow>
         (leaves_below (clog2 kc) kc (Suc (st_depth p)) (nonce_slot nonce (Suc (st_depth p))) - 1) ^ 2 < kc)"
proof (cases "kc = 0 \<or> mx < kc")
  case True
  then show ?thesis by (auto simp: select_subtree_path_def tree_depth_def)
next
  case False
  then have td: "tree_depth mx kc = Some (clog2 kc)" using assms by (intro tree_depth_ok) auto
  obtain p where p: "select_subtree_path mx nonce kc = Some p"
    "st_leaf_start p = st_slot p * 2 ^ (clog2 kc - st_depth p)"
    "st_leaf_end p = min ((st_slot p + 1) * 2 ^ (clog2 kc - st_depth p)) kc"
    "sqrt_floor kc \<le> real_leaf_count p" "st_leaf_start p < st_leaf_end p"
    "kc \<le> 4 \<longrightarrow> real_leaf_count p = kc"
    "4 < kc \<and> st_depth p < clog2 kc \<longrightarrow>
       leaves_below (clog2 kc) kc (Suc (st_depth p)) (nonce_slot nonce (Suc (st_depth p))) < sqrt_floor kc"
    by (rule select_subtree_path_spec [OF td])
  have kc: "0 < kc" "kc \<le> u32_max" using False assms by (auto simp: u32_max_def)
  have "kc \<le> sqrt_floor kc ^ 2" using kc by (rule sqrt_floor_ceil)
  also have "\<dots> \<le> real_leaf_count p ^ 2" using p(4) by (rule power_mono) simp
  finally have "kc \<le> real_leaf_count p ^ 2" .
  moreover have "(m - 1) ^ 2 < kc" if "m < sqrt_floor kc" for m
    using sqrt_floor_ceil(2) [OF kc] that
    by (intro le_less_trans [OF power_mono [of "m - 1" "sqrt_floor kc - 1" 2]]) auto
  ultimately show ?thesis using False p
    by (auto simp del: nonce_slot.simps intro!: exI [of _ p])
qed

theorem selected_subtree_large_witness:
  "\<exists>p. select_subtree_path 1000000 0 100 = Some p \<and> 100 \<le> real_leaf_count p ^ 2"
  using selected_subtree_large [of 1000000 100 0] by auto

text \<open>
  An honest responder passes: for a tree built over \<open>es\<close> and a store that has, for every
  committed key, bytes that hash to the committed value, the responder's proof for any nonce is
  built and accepted against the commitment of that tree. When a proof cannot be built, the reason
  is a committed key whose bytes are missing.
\<close>

theorem honest_subtree_proof_accepted:
  assumes "build b3 mx es = Inr t" and "mx \<le> 2 ^ 31"
    and "sc_key_count c = key_count t" and "sc_root c = root t"
  shows "((\<forall>(k, bh)\<in>set es. \<exists>bs. bytes_for k = Some bs \<and> b3 bs = bh) \<longrightarrow>
      (\<exists>pf. build_subtree_proof b3 mx t nonce peer bytes_for = Inr pf \<and>
        verify_subtree_proof b3 mx pf nonce c = Valid)) \<and>
    (\<forall>e. build_subtree_proof b3 mx t nonce peer bytes_for = Inl e \<longrightarrow>
      (\<exists>k\<in>fst ` set es. e = MissingBytes k \<and> bytes_for k = None))"
proof -
  from assms(1) obtain ss where t: "t = tree_of b3 ss" and ss: "sorted (map fst ss)"
    "distinct (map fst ss)" "ss \<noteq> []" "set ss = set es" "length ss \<le> mx" by (rule sorted_entries)
  let ?n = "length ss" and ?D = "clog2 (length ss)"
  have kc: "sc_key_count c = ?n" using ss(5) assms(2,3) by (simp add: t u32_max_def)
  obtain p where td: "tree_depth mx ?n = Some ?D" and p: "select_subtree_path mx nonce ?n = Some p"
    "st_depth p \<le> ?D" "st_slot p = nonce_slot nonce (st_depth p)"
    "nonce_slot nonce (st_depth p) * 2 ^ (?D - st_depth p) < ?n"
    "drop (st_leaf_start p) (take (st_leaf_end p) ss) =
       take (2 ^ (?D - st_depth p)) (drop (st_slot p * 2 ^ (?D - st_depth p)) ss)"
    "length (drop (st_leaf_start p) (take (st_leaf_end p) ss)) = real_leaf_count p"
    by (rule chosen_range [OF ss(3,5) assms(2)])
  let ?B = "drop (st_leaf_start p) (take (st_leaf_end p) ss)"
  let ?cuts = "map (honest_cut b3 ss nonce) [0..<st_depth p]"
  note plan = subtree_plan_built [OF ss(3,5) assms(2) p(1), of b3, folded t]
  have sub: "set ?B \<subseteq> set es" using ss(4) by (auto dest: in_set_dropD in_set_takeD)
  show ?thesis
  proof (intro conjI allI impI)
    assume ok: "\<forall>(k, bh)\<in>set es. \<exists>bs. bytes_for k = Some bs \<and> b3 bs = bh"
    let ?f = "\<lambda>k. subtree_leaf b3 nonce peer k (the (bytes_for k))"
    let ?pf = "\<lparr>sp_leaves = map ?f (map fst ?B), sp_cut_hashes = ?cuts\<rparr>"
    have pl: "proof_leaves b3 nonce peer bytes_for (map fst ?B) = Inr (map ?f (map fst ?B))"
      using ok sub by (intro proof_leaves_ok) fastforce
    have leaves: "map (\<lambda>l. leaf_hash b3 (sl_key l) (sl_bytes_hash l)) (sp_leaves ?pf) = leaf_level b3 ?B"
      using ok sub by (fastforce simp: subtree_leaf_def)
    have "fold_levels b3 (leaf_level b3 ?B) (?D - st_depth p) =
        tree_level b3 ss (?D - st_depth p) ! nonce_slot nonce (st_depth p)"
      using chosen_range_node [of nonce "st_depth p" ?D "leaf_level b3 ss" b3] p(2,3,4)
      unfolding p(5) by (simp add: take_map drop_map)
    then have "climb (node_hash b3) (fold_levels b3 (leaf_level b3 ?B) (?D - st_depth p))
        (rev ?cuts) (st_slot p) = sc_root c"
      using honest_cuts_climb [OF ss(3) refl p(2,4) order_refl] assms(4) p(3) by (simp add: t)
    moreover have "sorted_wrt (<) (map fst ?B)"
      using ss(1,2) by (simp add: strict_sorted_iff drop_map take_map sorted_wrt_drop sorted_wrt_take
          flip: drop_map take_map)
    moreover have "map sl_key (sp_leaves ?pf) = map fst ?B" by (simp add: subtree_leaf_def)
    moreover have "length (sp_leaves ?pf) = real_leaf_count p" "length (sp_cut_hashes ?pf) = st_depth p"
      using p(6) by simp_all
    ultimately have "verify_subtree_proof b3 mx ?pf nonce c = Valid"
      unfolding verify_subtree_proof_iff [where c = c, unfolded kc, OF td p(1)] leaves
      by (simp only: subtree_proof.simps)
    moreover have "build_subtree_proof b3 mx t nonce peer bytes_for = Inr ?pf"
      by (simp add: build_subtree_proof_def plan pl [simplified])
    ultimately show "\<exists>pf. build_subtree_proof b3 mx t nonce peer bytes_for = Inr pf \<and>
        verify_subtree_proof b3 mx pf nonce c = Valid" by blast
  next
    fix e assume "build_subtree_proof b3 mx t nonce peer bytes_for = Inl e"
    then have "proof_leaves b3 nonce peer bytes_for (map fst ?B) = Inl e"
      by (auto simp: build_subtree_proof_def plan split: sum.splits)
    then show "\<exists>k\<in>fst ` set es. e = MissingBytes k \<and> bytes_for k = None"
      using sub by (fastforce dest: proof_leaves_error)
  qed
qed

theorem honest_subtree_proof_accepted_witness:
  "\<exists>pf. build_subtree_proof (\<lambda>bs. case bs of [b] \<Rightarrow> ucast b | _ \<Rightarrow> 0) 8
       (tree_of (\<lambda>bs. case bs of [b] \<Rightarrow> ucast b | _ \<Rightarrow> 0) [(1, 7), (2, 9)]) 5 6
       [1 \<mapsto> [7], 2 \<mapsto> [9]] = Inr pf"
proof -
  let ?h = "\<lambda>bs::bytes. (case bs of [b] \<Rightarrow> ucast b | _ \<Rightarrow> 0) :: hash32"
  let ?t = "tree_of ?h [(1, 7), (2, 9)]"
  have "build ?h 8 [(1, 7), (2, 9)] = Inr ?t" unfolding build_ok_iff by simp
  moreover have "\<forall>(k, bh)\<in>set [(1::xor_name, 7), (2, 9)]. \<exists>bs. [1 \<mapsto> [7], 2 \<mapsto> [9]] k = Some bs \<and> ?h bs = bh"
    by simp
  ultimately show ?thesis
    using honest_subtree_proof_accepted [of ?h 8 "[(1, 7), (2, 9)]" ?t
        "\<lparr>sc_root = root ?t, sc_key_count = key_count ?t, sc_sender_peer_id = 0,
          sc_sender_public_key = [], sc_signature = []\<rparr>" "[1 \<mapsto> [7], 2 \<mapsto> [9]]" 5 6]
    by auto
qed

text \<open>The inputs hashed when a subtree proof is checked.\<close>

definition subtree_inputs ::
  "(bytes \<Rightarrow> hash32) \<Rightarrow> nat \<Rightarrow> subtree_path \<Rightarrow> subtree_proof \<Rightarrow> bytes list" where
  "subtree_inputs b3 D p pf =
     (let ls = map (\<lambda>l. leaf_hash b3 (sl_key l) (sl_bytes_hash l)) (sp_leaves pf)
      in map (\<lambda>l. leaf_input (sl_key l) (sl_bytes_hash l)) (sp_leaves pf) @
         map (\<lambda>(l, r). node_input l r)
           (merkle.level_pairs b3 (D - st_depth p) ls @
            climb_pairs (node_hash b3) (fold_levels b3 ls (D - st_depth p))
              (rev (sp_cut_hashes pf)) (st_slot p)))"

lemma fold_levels_single:
  "xs \<noteq> [] \<Longrightarrow> length xs \<le> 2 ^ m \<Longrightarrow> (build_next_level b3 ^^ m) xs = [fold_levels b3 xs m]"
proof -
  assume xs: "xs \<noteq> []" "length xs \<le> 2 ^ m"
  have "(length xs + 2 ^ m - 1) div 2 ^ m = 1"
  proof (rule div_nat_eqI)
    have "0 < length xs" using xs(1) by simp
    with xs(2) show "2 ^ m * 1 \<le> length xs + 2 ^ m - 1" "length xs + 2 ^ m - 1 < 2 ^ m * Suc 1"
      unfolding mult_Suc_right mult_1_right One_nat_def mult_0_right by linarith+
  qed
  then have "length ((build_next_level b3 ^^ m) xs) = 1" by (simp add: merkle.length_pow)
  then show ?thesis using xs(1)
    by (cases "(build_next_level b3 ^^ m) xs") (auto simp: fold_levels_def)
qed

lemma leaf_level_inject:
  "inj_on b3 S \<Longrightarrow> (\<lambda>(k, bh). leaf_input k bh) ` set es \<subseteq> S \<Longrightarrow>
   (\<lambda>(k, bh). leaf_input k bh) ` set es' \<subseteq> S \<Longrightarrow> leaf_level b3 es = leaf_level b3 es' \<Longrightarrow> es = es'"
proof (induction es arbitrary: es')
  case (Cons e es)
  obtain e' r where "es' = e' # r" using Cons.prems(4) by (cases es') auto
  with Cons show ?case
    by (cases e; cases e') (auto dest: leaf_hash_inject)
qed simp

lemma block_sound:
  assumes ss: "ss \<noteq> []" and D: "D = clog2 (length ss)" and d: "d \<le> D"
    and lt: "nonce_slot nonce d * 2 ^ (D - d) < length ss"
    and len: "length es = length (take (2 ^ (D - d)) (drop (nonce_slot nonce d * 2 ^ (D - d)) ss))"
    and cuts: "length cuts = d"
    and climb: "climb (node_hash b3) (fold_levels b3 (leaf_level b3 es) (D - d)) (rev cuts)
      (nonce_slot nonce d) = root (tree_of b3 ss)"
    and inj: "inj_on (\<lambda>(l, r). node_hash b3 l r)
      (set (merkle.level_pairs b3 D (leaf_level b3 ss)) \<union>
       set (merkle.level_pairs b3 (D - d) (leaf_level b3 es)) \<union>
       set (climb_pairs (node_hash b3) (fold_levels b3 (leaf_level b3 es) (D - d)) (rev cuts)
         (nonce_slot nonce d)))"
  shows "leaf_level b3 es =
    leaf_level b3 (take (2 ^ (D - d)) (drop (nonce_slot nonce d * 2 ^ (D - d)) ss))"
proof -
  let ?m = "D - d" and ?s = "nonce_slot nonce d" and ?L = "leaf_level b3 ss"
  let ?B = "take (2 ^ ?m) (drop (?s * 2 ^ ?m) ?L)"
  have "fold_levels b3 (leaf_level b3 es) ?m = tree_level b3 ss ?m ! ?s"
  proof (rule merkle.climb_sound [where m = d and path = "rev cuts"])
    show "?s < length (tree_level b3 ss ?m)"
      using nonce_slot_in_level [of nonce d D ?L d b3] lt d by simp
    have "(build_next_level b3 ^^ d) (tree_level b3 ss ?m) = tree_level b3 ss D"
      using d funpow_add [of d ?m "build_next_level b3"] by simp
    then show "climb (node_hash b3) (fold_levels b3 (leaf_level b3 es) ?m) (rev cuts) ?s =
        (build_next_level b3 ^^ d) (tree_level b3 ss ?m) ! (?s div 2 ^ d)"
      using climb ss nonce_slot_less [of nonce d] by (simp add: root_tree_of D)
    show "inj_on (\<lambda>(a, b). node_hash b3 a b)
        (set (climb_pairs (node_hash b3) (fold_levels b3 (leaf_level b3 es) ?m) (rev cuts) ?s) \<union>
         set (merkle.level_pairs b3 d (tree_level b3 ss ?m)))"
      using merkle.level_pairs_upper [of b3 d ?m ?L] d
      by (intro inj_on_subset [OF inj]) auto
  qed (simp add: cuts)
  also have "\<dots> = fold_levels b3 ?B ?m"
    using chosen_range_node [of nonce d D ?L b3] lt d by simp
  finally have fold: "fold_levels b3 (leaf_level b3 es) ?m = fold_levels b3 ?B ?m" .
  have "?B \<noteq> []" "length ?B \<le> 2 ^ ?m" "length (leaf_level b3 es) = length ?B"
    using lt len by auto
  moreover from this have "leaf_level b3 es \<noteq> []" by (metis length_0_conv)
  ultimately have "(build_next_level b3 ^^ ?m) (leaf_level b3 es) = (build_next_level b3 ^^ ?m) ?B"
    using fold by (simp add: fold_levels_single del: length_map)
  then have "leaf_level b3 es = ?B"
  proof (rule merkle.pow_inj [rotated])
    show "length (leaf_level b3 es) = length ?B" using len by simp
    have "set (merkle.level_pairs b3 ?m ?B) \<subseteq> set (merkle.level_pairs b3 D ?L)"
      using merkle.level_pairs_block [of b3 ?m 1 ?s ?L] merkle.level_pairs_mono [of ?m D b3 ?L] by simp
    then show "inj_on (\<lambda>(a, b). node_hash b3 a b)
        (set (merkle.level_pairs b3 ?m (leaf_level b3 es)) \<union> set (merkle.level_pairs b3 ?m ?B))"
      by (intro inj_on_subset [OF inj]) auto
  qed
  then show ?thesis by (simp add: take_map drop_map)
qed

text \<open>
  An accepted proof is the committed data: if the auditor accepts a proof against the
  commitment of the tree over \<open>es\<close>, and BLAKE3 does not collide on the inputs hashed on both sides,
  then the keys and content hashes of the proof are exactly the entries of the chosen range of the
  tree, in order. A responder cannot leave out, replace or reorder a committed entry.
\<close>

theorem accepted_subtree_proof_committed:
  assumes "build b3 mx es = Inr t" and "mx \<le> 2 ^ 31"
    and "sc_key_count c = key_count t" and "sc_root c = root t"
    and "select_subtree_path mx nonce (key_count t) = Some p"
    and "verify_subtree_proof b3 mx pf nonce c = Valid"
    and "inj_on b3 (set (tree_inputs b3 es) \<union> set (subtree_inputs b3 (clog2 (length es)) p pf))"
  shows "map (\<lambda>l. (sl_key l, sl_bytes_hash l)) (sp_leaves pf) =
    drop (st_leaf_start p) (take (st_leaf_end p) (sort_key fst es))"
proof -
  from assms(1) obtain ss where t: "t = tree_of b3 ss" and ss: "ss = sort_key fst es" "ss \<noteq> []"
    "length ss \<le> mx" by (rule sorted_entries)
  let ?n = "length ss" and ?D = "clog2 (length ss)" and ?L = "leaf_level b3 ss"
  have kc: "key_count t = ?n" using ss(3) assms(2) by (simp add: t u32_max_def)
  obtain p' where td: "tree_depth mx ?n = Some ?D" and p': "select_subtree_path mx nonce ?n = Some p'"
    "st_depth p' \<le> ?D" "st_slot p' = nonce_slot nonce (st_depth p')"
    "nonce_slot nonce (st_depth p') * 2 ^ (?D - st_depth p') < ?n"
    "drop (st_leaf_start p') (take (st_leaf_end p') ss) =
       take (2 ^ (?D - st_depth p')) (drop (st_slot p' * 2 ^ (?D - st_depth p')) ss)"
    "length (drop (st_leaf_start p') (take (st_leaf_end p') ss)) = real_leaf_count p'"
    "0 < real_leaf_count p'"
    by (rule chosen_range [OF ss(2,3) assms(2)])
  have "p' = p" using p'(1) assms(5) kc by simp
  note p = p' [unfolded this]
  define es' where "es' = map (\<lambda>l. (sl_key l, sl_bytes_hash l)) (sp_leaves pf)"
  define B where "B = take (2 ^ (?D - st_depth p)) (drop (st_slot p * 2 ^ (?D - st_depth p)) ss)"
  let ?m = "?D - st_depth p" and ?S = "set (tree_inputs b3 es) \<union> set (subtree_inputs b3 ?D p pf)"
  have inj: "inj_on b3 ?S" using assms(7) by (simp add: ss(1))
  have v: "length es' = length B" "length (sp_cut_hashes pf) = st_depth p"
      "climb (node_hash b3) (fold_levels b3 (leaf_level b3 es') ?m) (rev (sp_cut_hashes pf)) (st_slot p) = root t"
    using assms(6) p(5,6) assms(3,4) kc
    unfolding verify_subtree_proof_iff [where c = c, unfolded assms(3) kc, OF td p(1)]
    by (auto simp: es'_def B_def comp_def)
  have "leaf_level b3 es' = leaf_level b3 B"
    unfolding B_def p(3)
    by (rule block_sound [OF ss(2) refl p(2,4) v(1) [unfolded B_def p(3)] v(2) v(3) [unfolded t p(3)]],
        rule inj_on_node_hash [OF inj])
      (auto simp: tree_inputs_def subtree_inputs_def ss(1) Let_def es'_def comp_def p(3) image_Un)
  then have "es' = B"
  proof (rule leaf_level_inject [OF inj, rotated 2])
    show "(\<lambda>(k, bh). leaf_input k bh) ` set es' \<subseteq> ?S"
      by (auto simp: subtree_inputs_def es'_def Let_def)
    show "(\<lambda>(k, bh). leaf_input k bh) ` set B \<subseteq> ?S"
      using set_mp [OF order_trans [OF set_take_subset set_drop_subset]]
      by (fastforce simp: tree_inputs_def B_def ss(1) Let_def dest: in_set_takeD in_set_dropD)
  qed
  then show ?thesis unfolding es'_def B_def p(5) ss(1) [symmetric] .
qed

definition example_proof :: subtree_proof where
  "example_proof = \<lparr>sp_leaves = [\<lparr>sl_key = 1, sl_bytes_hash = 10, sl_nonced_hash = 0\<rparr>,
      \<lparr>sl_key = 3, sl_bytes_hash = 30, sl_nonced_hash = 0\<rparr>], sp_cut_hashes = []\<rparr>"

definition example_commitment :: storage_commitment where
  "example_commitment = \<lparr>sc_root = 3, sc_key_count = 2, sc_sender_peer_id = 0,
     sc_sender_public_key = [], sc_signature = []\<rparr>"

theorem accepted_subtree_proof_committed_witness:
  "verify_subtree_proof example_hash 8 example_proof 0 example_commitment = Valid \<and>
   map (\<lambda>l. (sl_key l, sl_bytes_hash l)) (sp_leaves example_proof) = sort_key fst example_entries"
proof -
  let ?t = "tree_of example_hash [(1, 10), (3, 30)]"
  let ?p = "\<lparr>st_depth = 0, st_slot = 0, st_leaf_start = 0, st_leaf_end = 2\<rparr>"
  have kc: "key_count ?t = 2" by (simp add: u32_max_def)
  have td: "tree_depth 8 2 = Some 1" by (subst tree_depth_ok) simp_all
  then have sel: "select_subtree_path 8 0 2 = Some ?p"
    by (simp add: select_subtree_path_def SMALL_TREE_FULL_AUDIT_FLOOR_def)
  have v: "verify_subtree_proof example_hash 8 example_proof 0 example_commitment = Valid"
    by (simp add: verify_subtree_proof_def example_commitment_def sel td example_proof_def
        real_leaf_count_def fold_levels_def example_hash_simps)
  have "inj_on example_hash (set (tree_inputs example_hash example_entries) \<union>
      set (subtree_inputs example_hash (clog2 (length example_entries)) ?p example_proof))"
    by (simp add: tree_inputs_def subtree_inputs_def example_sorted example_hash_simps
        example_proof_def merkle.level_pairs_def Let_def) (auto simp: example_hash_def example_entries_def)
  with v kc sel example_root show ?thesis
    using accepted_subtree_proof_committed [OF example_build, of example_commitment 0 ?p example_proof]
    by (simp add: example_commitment_def example_sorted)
qed

section \<open>Spot-check indices\<close>

lemma top_up_spec:
  "distinct out \<Longrightarrow> set out \<subseteq> {..<n} \<Longrightarrow> {..<candidate} \<subseteq> set out \<Longrightarrow> length out \<le> k \<Longrightarrow>
   k < n \<Longrightarrow> n \<le> u32_max \<Longrightarrow> candidate \<le> n \<Longrightarrow>
   distinct (top_up n k out candidate) \<and> set (top_up n k out candidate) \<subseteq> {..<n} \<and>
   length (top_up n k out candidate) = k"
proof (induction n k out candidate rule: top_up.induct)
  case (1 n k out candidate)
  have len: "unwrap_or (u32_try_from (length out)) u32_max = length out"
    using "1.prems" by (simp add: u32_try_from_def)
  show ?case
  proof (cases "length out < k \<and> candidate < n")
    case True
    let ?out = "if candidate \<in> set out then out else out @ [candidate]"
    have "top_up n k out candidate = top_up n k ?out (candidate + 1)"
      using True len by (simp add: top_up.simps [of n k out])
    moreover have "distinct ?out" "set ?out \<subseteq> {..<n}" "{..<candidate + 1} \<subseteq> set ?out"
        "length ?out \<le> k" "candidate + 1 \<le> n"
      using True "1.prems"(1-3) by (auto simp: lessThan_Suc)
    ultimately show ?thesis using "1.IH" True "1.prems"(5,6) len by simp
  next
    case False
    have "length out = k"
    proof (rule ccontr)
      assume "length out \<noteq> k"
      with False "1.prems" have "candidate = n" by simp
      with "1.prems" have "{..<n} \<subseteq> set out" by simp
      then have "n \<le> card (set out)" by (metis card_lessThan card_mono finite_set)
      with "1.prems" show False by (simp add: distinct_card)
    qed
    with False len "1.prems" show ?thesis by (simp add: top_up.simps [of n k out])
  qed
qed

lemma hash_stream_spec:
  assumes "0 < n" "k * 64 < u32_max"
  shows "distinct out \<Longrightarrow> set out \<subseteq> {..<n} \<Longrightarrow> length out \<le> k \<Longrightarrow> counter \<le> k * 64 \<Longrightarrow>
    \<exists>r. hash_stream b3 nonce n k out counter = Some r \<and> distinct r \<and> set r \<subseteq> {..<n} \<and> length r \<le> k"
proof (induction "k * 64 - counter" arbitrary: out counter rule: less_induct)
  case less
  have len: "unwrap_or (u32_try_from (length out)) u32_max = length out"
    using less.prems assms(2) by (simp add: u32_try_from_def)
  show ?case
  proof (cases "length out < k")
    case True
    define idx where "idx = spotcheck_index b3 nonce n counter"
    define out' where "out' = (if idx \<in> set out then out else out @ [idx])"
    have "idx < n" using assms(1) by (simp add: idx_def spotcheck_index_def)
    then have out': "distinct out'" "set out' \<subseteq> {..<n}" "length out' \<le> k"
      using less.prems True by (auto simp: out'_def)
    have "counter + 1 < 2 ^ 32" using less.prems(4) assms(2) by (simp add: u32_max_def)
    then have "hash_stream b3 nonce n k out counter =
        (if counter + 1 > k * 64 then Some out' else hash_stream b3 nonce n k out' (counter + 1))"
      using True len assms(2)
      by (subst hash_stream.simps) (simp add: Let_def idx_def [symmetric] out'_def [symmetric])
    with out' less.hyps [of "counter + 1" out'] show ?thesis by auto
  next
    case False
    with less.prems len show ?thesis by (subst hash_stream.simps) simp
  qed
qed

text \<open>
  The deterministic spot-check sample always terminates with exactly \<open>min k n\<close> distinct
  indices below the number \<open>n\<close> of leaves of the chosen subtree, however the hash stream collides.
\<close>

theorem spotcheck_sample_exact:
  assumes "real_leaf_count p \<le> u32_max" and "k * 64 < u32_max"
  shows "\<exists>out. select_spotcheck_indices b3 nonce p k = Some out \<and> distinct out \<and>
    set out \<subseteq> {..<real_leaf_count p} \<and> length out = min k (real_leaf_count p)"
proof (cases "k < real_leaf_count p")
  case True
  let ?n = "real_leaf_count p"
  obtain r where r: "hash_stream b3 nonce ?n k [] 0 = Some r" "distinct r" "set r \<subseteq> {..<?n}" "length r \<le> k"
    using hash_stream_spec [of ?n k "[]" 0 b3 nonce] True assms(2) by auto
  with top_up_spec [of r ?n 0 k] True assms(1) show ?thesis
    by (auto simp: select_spotcheck_indices_def)
next
  case False
  then show ?thesis
    by (cases "real_leaf_count p = 0") (auto simp: select_spotcheck_indices_def Let_def)
qed

theorem spotcheck_sample_exact_witness:
  "\<exists>out. select_spotcheck_indices example_hash 0
     \<lparr>st_depth = 2, st_slot = 1, st_leaf_start = 32, st_leaf_end = 64\<rparr> 5 = Some out \<and> length out = 5"
  using spotcheck_sample_exact [of "\<lparr>st_depth = 2, st_slot = 1, st_leaf_start = 32, st_leaf_end = 64\<rparr>"
      5 example_hash 0]
  by (auto simp: real_leaf_count_def u32_max_def)

end
