(* ===== verification/Recent_Provers.thy ===== *)
theory Recent_Provers
  imports Prelude
begin

text \<open>
  The holder-eligibility cache of \<open>src/src/replication/recent_provers.rs\<close>: per key a list of
  recent proofs, at most sixteen, ordered by time. Credit as a holder is tied to a recent proof
  under the peer's current commitment. The invariant is shown for every sequence of operations,
  and credit is shown to come only from a recorded proof that was not withdrawn since.
\<close>

section \<open>State and operations\<close>

definition MAX_PROVERS_PER_KEY :: nat where "MAX_PROVERS_PER_KEY = 16"

definition PROVER_ENTRY_TTL :: duration where "PROVER_ENTRY_TTL = from_secs (40 * 60)"

record prover_entry =
  pe_peer_id :: peer_id
  pe_proved_at :: instant
  pe_commitment_hash :: hash32

type_synonym recent_provers = "(xor_name \<times> prover_entry list) list"

definition provers_new :: recent_provers where "provers_new = []"

text \<open>
  The in-place refresh: the first entry with the peer and the hash gets the new time; \<open>None\<close> when
  there is none.
\<close>

fun refresh_first :: "peer_id \<Rightarrow> hash32 \<Rightarrow> instant \<Rightarrow> prover_entry list \<Rightarrow> prover_entry list option" where
  "refresh_first p h t [] = None"
| "refresh_first p h t (e # es) =
     (if pe_peer_id e = p \<and> pe_commitment_hash e = h then Some (e\<lparr>pe_proved_at := t\<rparr> # es)
      else map_option (Cons e) (refresh_first p h t es))"

definition record_in_bucket :: "peer_id \<Rightarrow> hash32 \<Rightarrow> instant \<Rightarrow> prover_entry list \<Rightarrow> prover_entry list" where
  "record_in_bucket p h t bucket =
     (case refresh_first p h t bucket of
        Some bucket' \<Rightarrow> sort_key pe_proved_at bucket'
      | None \<Rightarrow>
          let kept = (if length bucket \<ge> MAX_PROVERS_PER_KEY then tl bucket else bucket)
          in sort_key pe_proved_at
               (kept @ [\<lparr>pe_peer_id = p, pe_proved_at = t, pe_commitment_hash = h\<rparr>]))"

definition record_proof ::
  "xor_name \<Rightarrow> peer_id \<Rightarrow> hash32 \<Rightarrow> instant \<Rightarrow> recent_provers \<Rightarrow> recent_provers" where
  "record_proof key p h t rp =
     AList.update key (record_in_bucket p h t (unwrap_or (map_of rp key) [])) rp"

definition is_credited_holder ::
  "recent_provers \<Rightarrow> xor_name \<Rightarrow> peer_id \<Rightarrow> hash32 \<Rightarrow> instant \<Rightarrow> bool" where
  "is_credited_holder rp key p current_hash now =
     is_some_and (map_of rp key) (list_ex (\<lambda>e. pe_peer_id e = p \<and>
       pe_commitment_hash e = current_hash \<and> now - pe_proved_at e < PROVER_ENTRY_TTL))"

definition retain_entries :: "(prover_entry \<Rightarrow> bool) \<Rightarrow> recent_provers \<Rightarrow> recent_provers" where
  "retain_entries P rp = filter (\<lambda>(_, b). b \<noteq> []) (map (\<lambda>(k, b). (k, filter P b)) rp)"

definition total_entries :: "recent_provers \<Rightarrow> nat" where
  "total_entries rp = sum_list (map (\<lambda>(_, b). length b) rp)"

definition sweep_expired :: "instant \<Rightarrow> recent_provers \<Rightarrow> nat \<times> recent_provers" where
  "sweep_expired now rp =
     (let P = (\<lambda>e. now - pe_proved_at e < PROVER_ENTRY_TTL);
          dropped = sum_list (map (\<lambda>(_, b). length b - length (filter P b)) rp)
      in (dropped, retain_entries P rp))"

definition forget_peer :: "peer_id \<Rightarrow> recent_provers \<Rightarrow> recent_provers" where
  "forget_peer p = retain_entries (\<lambda>e. pe_peer_id e \<noteq> p)"

definition forget_commitment :: "hash32 \<Rightarrow> recent_provers \<Rightarrow> recent_provers" where
  "forget_commitment stale_hash = retain_entries (\<lambda>e. pe_commitment_hash e \<noteq> stale_hash)"

definition provers_for :: "recent_provers \<Rightarrow> xor_name \<Rightarrow> nat" where
  "provers_for rp key = (case map_of rp key of None \<Rightarrow> 0 | Some b \<Rightarrow> length b)"

section \<open>Invariant\<close>

text \<open>A bucket is within its cap, ordered by time and has one entry per peer and commitment.\<close>

abbreviation entry_id :: "prover_entry \<Rightarrow> peer_id \<times> hash32" where
  "entry_id e \<equiv> (pe_peer_id e, pe_commitment_hash e)"

definition bucket_inv :: "prover_entry list \<Rightarrow> bool" where
  "bucket_inv b \<longleftrightarrow> length b \<le> MAX_PROVERS_PER_KEY \<and> sorted (map pe_proved_at b) \<and> distinct (map entry_id b)"

definition provers_inv :: "recent_provers \<Rightarrow> bool" where
  "provers_inv rp \<longleftrightarrow> dkeys rp \<and> (\<forall>(k, b)\<in>set rp. b \<noteq> [] \<and> bucket_inv b)"

lemma refresh_first_None: "refresh_first p h t b = None \<longleftrightarrow> (p, h) \<notin> entry_id ` set b"
  by (induction b) auto

lemma refresh_first_Some:
  "refresh_first p h t b = Some b' \<Longrightarrow>
   map entry_id b' = map entry_id b \<and>
   \<lparr>pe_peer_id = p, pe_proved_at = t, pe_commitment_hash = h\<rparr> \<in> set b' \<and>
   set b' \<subseteq> insert \<lparr>pe_peer_id = p, pe_proved_at = t, pe_commitment_hash = h\<rparr> (set b)"
  by (induction b arbitrary: b') (auto split: if_splits)

lemma distinct_sort_entries: "distinct (map entry_id (sort_key pe_proved_at b)) \<longleftrightarrow> distinct (map entry_id b)"
proof -
  have "mset (map entry_id (sort_key pe_proved_at b)) = mset (map entry_id b)" by simp
  then show ?thesis by (rule mset_eq_imp_distinct_iff)
qed

lemma record_in_bucket_set:
  "\<lparr>pe_peer_id = p, pe_proved_at = t, pe_commitment_hash = h\<rparr> \<in> set (record_in_bucket p h t b)"
  "set (record_in_bucket p h t b) \<subseteq>
     insert \<lparr>pe_peer_id = p, pe_proved_at = t, pe_commitment_hash = h\<rparr> (set b)"
  by (auto simp: record_in_bucket_def Let_def dest: refresh_first_Some list.set_sel(2) [rotated]
      split: option.splits if_splits)
    (metis list.sel(2) list.set_sel(2))+

lemma record_in_bucket_nonempty: "record_in_bucket p h t b \<noteq> []"
  using record_in_bucket_set(1) [of p t h b] by auto

lemma record_in_bucket_inv:
  assumes "bucket_inv b"
  shows "bucket_inv (record_in_bucket p h t b) \<and> record_in_bucket p h t b \<noteq> []"
proof (cases "refresh_first p h t b")
  case None
  let ?kept = "if length b \<ge> MAX_PROVERS_PER_KEY then tl b else b"
  have "(p, h) \<notin> entry_id ` set b" using None refresh_first_None [of p h t b] by blast
  moreover have "set ?kept \<subseteq> set b" by (cases b) auto
  moreover have "distinct (map entry_id ?kept)"
    using assms by (auto simp: bucket_inv_def map_tl distinct_tl)
  ultimately have "distinct (map entry_id (?kept @ [\<lparr>pe_peer_id = p, pe_proved_at = t, pe_commitment_hash = h\<rparr>]))"
    by (auto simp: image_iff)
  moreover have "length ?kept < MAX_PROVERS_PER_KEY"
    using assms by (auto simp: bucket_inv_def MAX_PROVERS_PER_KEY_def)
  ultimately have "bucket_inv (sort_key pe_proved_at
      (?kept @ [\<lparr>pe_peer_id = p, pe_proved_at = t, pe_commitment_hash = h\<rparr>]))"
    unfolding bucket_inv_def distinct_sort_entries by simp
  with None record_in_bucket_nonempty [of p h t b] show ?thesis by (simp add: record_in_bucket_def Let_def)
next
  case (Some b')
  from refresh_first_Some [OF Some] have "map entry_id b' = map entry_id b" "b' \<noteq> []" by auto
  moreover from this have "length b' = length b" by (intro map_eq_imp_length_eq)
  ultimately have "bucket_inv (sort_key pe_proved_at b')"
    using assms unfolding bucket_inv_def distinct_sort_entries by simp
  with Some record_in_bucket_nonempty [of p h t b] show ?thesis by (simp add: record_in_bucket_def)
qed

lemma bucket_inv_filter: "bucket_inv b \<Longrightarrow> bucket_inv (filter P b)"
  by (auto simp: bucket_inv_def distinct_map_filter sorted_filter intro: order_trans [OF length_filter_le])

lemma retain_entries_inv: "provers_inv rp \<Longrightarrow> provers_inv (retain_entries P rp)"
proof -
  assume a: "provers_inv rp"
  have "map fst (map (\<lambda>(k, b). (k, filter P b)) rp) = map fst rp" by auto
  then have "dkeys (retain_entries P rp)"
    unfolding retain_entries_def using a by (intro dkeys_filter) (simp only: provers_inv_def)
  then show ?thesis using a by (auto simp: provers_inv_def retain_entries_def intro!: bucket_inv_filter)
qed

lemma record_proof_inv: "provers_inv rp \<Longrightarrow> provers_inv (record_proof key p h t rp)"
proof -
  assume a: "provers_inv rp"
  have "bucket_inv (unwrap_or (map_of rp key) [])"
    using a by (cases "map_of rp key") (auto simp: provers_inv_def bucket_inv_def dest!: map_of_SomeD)
  note b = record_in_bucket_inv [OF this, of p h t]
  show ?thesis
    using a b set_update_subset [of key "record_in_bucket p h t (unwrap_or (map_of rp key) [])" rp]
    unfolding provers_inv_def record_proof_def by (auto simp: distinct_update)
qed

section \<open>Histories\<close>

text \<open>Any sequence of calls on the cache.\<close>

datatype prover_event =
    RecordProof xor_name peer_id hash32 instant
  | SweepExpired instant
  | ForgetPeer peer_id
  | ForgetCommitment hash32

fun apply_event :: "prover_event \<Rightarrow> recent_provers \<Rightarrow> recent_provers" where
  "apply_event (RecordProof key p h t) rp = record_proof key p h t rp"
| "apply_event (SweepExpired now) rp = snd (sweep_expired now rp)"
| "apply_event (ForgetPeer p) rp = forget_peer p rp"
| "apply_event (ForgetCommitment h) rp = forget_commitment h rp"

definition run_events :: "prover_event list \<Rightarrow> recent_provers" where
  "run_events evs = fold apply_event evs provers_new"

lemma run_events_snoc: "run_events (evs @ [ev]) = apply_event ev (run_events evs)"
  by (simp add: run_events_def)

lemma provers_inv_run: "provers_inv (run_events evs)"
proof (induction evs rule: rev_induct)
  case Nil
  then show ?case by (simp add: run_events_def provers_new_def provers_inv_def)
next
  case (snoc ev evs)
  then show ?case
    by (cases ev) (auto simp: run_events_snoc sweep_expired_def Let_def forget_peer_def
        forget_commitment_def intro: record_proof_inv retain_entries_inv)
qed

lemma retain_entries_lookup:
  "provers_inv rp \<Longrightarrow> map_of (retain_entries P rp) k =
     (case map_of rp k of None \<Rightarrow> None | Some b \<Rightarrow> if filter P b = [] then None else Some (filter P b))"
proof -
  assume a: "provers_inv rp"
  let ?m = "map (\<lambda>(k, b). (k, filter P b)) rp"
  have "map fst ?m = map fst rp" by auto
  then have "dkeys ?m" using a by (simp only: provers_inv_def)
  then show ?thesis
    unfolding retain_entries_def
    by (subst map_of_filter_dkeys [of ?m "\<lambda>_ b. b \<noteq> []"]) (auto simp: map_of_map split: option.splits)
qed

text \<open>The entry of a peer and commitment in a bucket and what the last calls left of it.\<close>

definition withdrawn :: "peer_id \<Rightarrow> hash32 \<Rightarrow> prover_event \<Rightarrow> bool" where
  "withdrawn p h ev \<longleftrightarrow> ev = ForgetPeer p \<or> ev = ForgetCommitment h"

definition recorded_since :: "prover_event list \<Rightarrow> xor_name \<Rightarrow> prover_entry \<Rightarrow> bool" where
  "recorded_since evs key e \<longleftrightarrow>
     (\<exists>pre post. evs = pre @ [RecordProof key (pe_peer_id e) (pe_commitment_hash e) (pe_proved_at e)] @ post \<and>
        \<not> list_ex (withdrawn (pe_peer_id e) (pe_commitment_hash e)) post)"

lemma recorded_since_snoc:
  "recorded_since evs key e \<Longrightarrow> \<not> withdrawn (pe_peer_id e) (pe_commitment_hash e) ev \<Longrightarrow>
   recorded_since (evs @ [ev]) key e"
proof -
  let ?rec = "RecordProof key (pe_peer_id e) (pe_commitment_hash e) (pe_proved_at e)"
  assume "recorded_since evs key e" and ev: "\<not> withdrawn (pe_peer_id e) (pe_commitment_hash e) ev"
  then obtain pre post where "evs = pre @ [?rec] @ post"
      "\<not> list_ex (withdrawn (pe_peer_id e) (pe_commitment_hash e)) post"
    by (auto simp: recorded_since_def)
  with ev show ?thesis unfolding recorded_since_def
    by (intro exI [of _ pre] exI [of _ "post @ [ev]"]) simp
qed

lemma entries_recorded:
  "map_of (run_events evs) key = Some b \<Longrightarrow> e \<in> set b \<Longrightarrow> recorded_since evs key e"
proof (induction evs arbitrary: key b rule: rev_induct)
  case Nil
  then show ?case by (simp add: run_events_def provers_new_def)
next
  case (snoc ev evs)
  have retained: "recorded_since (evs @ [ev]) key e"
    if "run_events (evs @ [ev]) = retain_entries P (run_events evs)"
      "P e \<Longrightarrow> \<not> withdrawn (pe_peer_id e) (pe_commitment_hash e) ev" for P
    using that snoc retain_entries_lookup [OF provers_inv_run, of P evs key]
    by (auto split: option.splits if_splits intro!: recorded_since_snoc)
  show ?case
  proof (cases ev)
    case (RecordProof key' p h t)
    show ?thesis
    proof (cases "key' = key \<and> e = \<lparr>pe_peer_id = p, pe_proved_at = t, pe_commitment_hash = h\<rparr>")
      case True
      then show ?thesis unfolding recorded_since_def RecordProof
        by (intro exI [of _ evs] exI [of _ "[]"]) simp
    next
      case False
      have "\<exists>b'. map_of (run_events evs) key = Some b' \<and> e \<in> set b'"
        using snoc.prems False record_in_bucket_set(2) [of p h t "unwrap_or (map_of (run_events evs) key) []"]
        by (cases "map_of (run_events evs) key")
          (auto simp: run_events_snoc RecordProof record_proof_def update_conv' split: if_splits)
      with snoc.IH show ?thesis by (auto simp: RecordProof withdrawn_def intro!: recorded_since_snoc)
    qed
  next
    case (SweepExpired now)
    then show ?thesis
      by (intro retained [of "\<lambda>e. now - pe_proved_at e < PROVER_ENTRY_TTL"])
        (simp_all add: run_events_snoc sweep_expired_def Let_def withdrawn_def)
  next
    case (ForgetPeer p)
    then show ?thesis
      by (intro retained [of "\<lambda>e. pe_peer_id e \<noteq> p"])
        (simp_all add: run_events_snoc forget_peer_def withdrawn_def)
  next
    case (ForgetCommitment h)
    then show ?thesis
      by (intro retained [of "\<lambda>e. pe_commitment_hash e \<noteq> h"])
        (simp_all add: run_events_snoc forget_commitment_def withdrawn_def)
  qed
qed

section \<open>Properties\<close>

text \<open>
  Whatever the sequence of calls, every bucket of the cache is non-empty, holds at most sixteen
  entries in order of time and at most one per peer and commitment.
\<close>

theorem provers_reachable_inv:
  "provers_inv (run_events evs)"
  by (rule provers_inv_run)

text \<open>
  C16. Credit as a holder comes only from proofs and is lost by rotation: after any sequence of
  calls a peer is credited for a key under its current commitment only if a proof of exactly that
  key by that peer under that commitment was recorded less than forty minutes ago and neither the
  peer nor the commitment was forgotten since; and a proof just recorded gives credit until it is
  forty minutes old.
\<close>

theorem credit_iff_recent_proof:
  "(is_credited_holder (run_events evs) key p h now \<longrightarrow>
     (\<exists>t pre post. evs = pre @ [RecordProof key p h t] @ post \<and> now - t < PROVER_ENTRY_TTL \<and>
        \<not> list_ex (withdrawn p h) post)) \<and>
   (now - t < PROVER_ENTRY_TTL \<longrightarrow>
     is_credited_holder (record_proof key p h t (run_events evs)) key p h now)"
proof (intro conjI impI)
  assume "is_credited_holder (run_events evs) key p h now"
  then obtain b e where "map_of (run_events evs) key = Some b" and e: "e \<in> set b"
      "pe_peer_id e = p" "pe_commitment_hash e = h" "now - pe_proved_at e < PROVER_ENTRY_TTL"
    by (auto simp: is_credited_holder_def is_some_and_iff list_ex_iff)
  then have "recorded_since evs key e" by (intro entries_recorded)
  with e show "\<exists>t pre post. evs = pre @ [RecordProof key p h t] @ post \<and> now - t < PROVER_ENTRY_TTL \<and>
      \<not> list_ex (withdrawn p h) post"
    by (auto simp: recorded_since_def)
next
  assume "now - t < PROVER_ENTRY_TTL"
  then show "is_credited_holder (record_proof key p h t (run_events evs)) key p h now"
    using record_in_bucket_set(1) [of p t h "unwrap_or (map_of (run_events evs) key) []"]
    by (auto simp: is_credited_holder_def record_proof_def update_conv' list_ex_iff intro!: bexI)
qed

theorem credit_iff_recent_proof_witness:
  "is_credited_holder (record_proof 1 2 3 (from_secs 10) (run_events [ForgetPeer 2])) 1 2 3 (from_secs 2400)"
  using credit_iff_recent_proof [of "[ForgetPeer 2]" 1 2 3 "from_secs 2400" "from_secs 10"]
  by (simp add: from_secs_def PROVER_ENTRY_TTL_def)

end
