(* ===== verification/Commitment_State.thy ===== *)
theory Commitment_State
  imports Commitment
begin

text \<open>
  The commitment state of \<open>src/src/replication/commitment_state.rs\<close>: what an auditor keeps of a
  peer's commitment, and the responder's retention of its own commitments (current slot, slots
  still answerable because they were gossiped, gossip deadlines, persistence across restarts).
  The hash of a commitment, signing and signature verification are parameters. The theorems: an
  advertised commitment stays answerable for its whole window whatever happens meanwhile, retention
  is bounded, and a restart loses no commitment that is still owed an answer.
\<close>

section \<open>Auditor side: the record of a peer\<close>

record peer_commitment_record =
  pc_last_commitment :: "storage_commitment option"
  pc_cached_hash :: "hash32 option"
  pc_commitment_capable :: bool
  pc_received_at :: instant
  pc_last_sig_verify_at :: instant

definition from_verified ::
  "(storage_commitment \<Rightarrow> hash32 option) \<Rightarrow> storage_commitment \<Rightarrow> instant \<Rightarrow> peer_commitment_record" where
  "from_verified commitment_hash c now =
     \<lparr>pc_last_commitment = Some c, pc_cached_hash = commitment_hash c, pc_commitment_capable = True,
      pc_received_at = now, pc_last_sig_verify_at = now\<rparr>"

definition capable_but_no_commitment :: "instant \<Rightarrow> peer_commitment_record" where
  "capable_but_no_commitment now =
     \<lparr>pc_last_commitment = None, pc_cached_hash = None, pc_commitment_capable = True,
      pc_received_at = now, pc_last_sig_verify_at = now\<rparr>"

definition set_commitment ::
  "(storage_commitment \<Rightarrow> hash32 option) \<Rightarrow> storage_commitment \<Rightarrow> instant \<Rightarrow>
     peer_commitment_record \<Rightarrow> peer_commitment_record" where
  "set_commitment commitment_hash c now r =
     r\<lparr>pc_cached_hash := commitment_hash c, pc_last_commitment := Some c, pc_received_at := now\<rparr>"

definition clear_commitment :: "peer_commitment_record \<Rightarrow> peer_commitment_record" where
  "clear_commitment r = r\<lparr>pc_last_commitment := None, pc_cached_hash := None\<rparr>"

section \<open>Built commitments\<close>

record built_commitment =
  bc_commitment :: storage_commitment
  bc_hash :: hash32
  bc_tree :: merkle_tree

definition build_from_tree ::
  "('sk \<Rightarrow> bytes \<Rightarrow> bytes option) \<Rightarrow> (storage_commitment \<Rightarrow> hash32 option) \<Rightarrow> merkle_tree \<Rightarrow> hash32 \<Rightarrow>
     'sk \<Rightarrow> bytes \<Rightarrow> commitment_error + built_commitment" where
  "build_from_tree sign commitment_hash tree sender_peer_id secret_key sender_public_key =
     (case sign_commitment sign secret_key (root tree) (key_count tree) sender_peer_id sender_public_key of
        Inl e \<Rightarrow> Inl e
      | Inr signature \<Rightarrow>
          let c = \<lparr>sc_root = root tree, sc_key_count = key_count tree, sc_sender_peer_id = sender_peer_id,
                sc_sender_public_key = sender_public_key, sc_signature = signature\<rparr>
          in (case commitment_hash c of
                None \<Rightarrow> Inl SignatureFailed
              | Some h \<Rightarrow> Inr \<lparr>bc_commitment = c, bc_hash = h, bc_tree = tree\<rparr>))"

definition build_commitment ::
  "(bytes \<Rightarrow> hash32) \<Rightarrow> nat \<Rightarrow> ('sk \<Rightarrow> bytes \<Rightarrow> bytes option) \<Rightarrow> (storage_commitment \<Rightarrow> hash32 option) \<Rightarrow>
     (xor_name \<times> hash32) list \<Rightarrow> hash32 \<Rightarrow> 'sk \<Rightarrow> bytes \<Rightarrow> commitment_error + built_commitment" where
  "build_commitment b3 max_key_count sign commitment_hash entries sender_peer_id secret_key sender_public_key =
     (case build b3 max_key_count entries of
        Inl e \<Rightarrow> Inl e
      | Inr tree \<Rightarrow> build_from_tree sign commitment_hash tree sender_peer_id secret_key sender_public_key)"

text \<open>
  \<open>proof_for\<close>: the outer option is the panic of \<open>path_for\<close>, the inner one the answer of the code.
\<close>

definition proof_for :: "built_commitment \<Rightarrow> xor_name \<Rightarrow> (hash32 list \<times> nat) option option" where
  "proof_for b key =
     (case key_index (bc_tree b) key of
        None \<Rightarrow> Some None
      | Some idx \<Rightarrow>
          map_option (map_option (\<lambda>path. (path, unwrap_or (u32_try_from idx) u32_max)))
            (path_for (bc_tree b) key))"

definition bc_contains_key :: "built_commitment \<Rightarrow> xor_name \<Rightarrow> bool" where
  "bc_contains_key b key = tree_contains_key (bc_tree b) key"

definition from_persisted ::
  "(storage_commitment \<Rightarrow> bool) \<Rightarrow> (storage_commitment \<Rightarrow> hash32 option) \<Rightarrow> storage_commitment \<Rightarrow>
     merkle_tree \<Rightarrow> built_commitment option" where
  "from_persisted verify_commitment_signature commitment_hash c tree =
     (if root tree \<noteq> sc_root c \<or> key_count tree \<noteq> sc_key_count c then None
      else if \<not> verify_commitment_signature c then None
      else case commitment_hash c of
        None \<Rightarrow> None
      | Some h \<Rightarrow> Some \<lparr>bc_commitment = c, bc_hash = h, bc_tree = tree\<rparr>)"

section \<open>Responder side: retention\<close>

definition MAX_RETAINED_GOSSIPED_SLOTS :: nat where "MAX_RETAINED_GOSSIPED_SLOTS = 16"

definition GOSSIP_ANSWERABILITY_TTL :: duration where "GOSSIP_ANSWERABILITY_TTL = from_secs (3 * 3600)"

definition RESTART_STAMP_GRACE :: duration where "RESTART_STAMP_GRACE = from_secs (5 * 60)"

definition RETENTION_FORMAT_VERSION :: nat where "RETENTION_FORMAT_VERSION = 1"

record gossiped_at =
  ga_hash :: hash32
  ga_expires_at :: instant

record inner =
  in_slots :: "built_commitment list"
  in_has_current :: bool
  in_recently_gossiped :: "gossiped_at list"

definition state_new :: inner where
  "state_new = \<lparr>in_slots = [], in_has_current = False, in_recently_gossiped = []\<rparr>"

text \<open>The index of a slot decides about the exemption of the current one: \<open>retain\<close> with a counter.\<close>

definition prune_slots :: "instant \<Rightarrow> inner \<Rightarrow> inner" where
  "prune_slots now st =
     (let gossiped = filter (\<lambda>g. ga_expires_at g > now) (in_recently_gossiped st);
          live = map ga_hash gossiped;
          slots = map snd (filter (\<lambda>(idx, c). (in_has_current st \<and> idx = 0) \<or> bc_hash c \<in> set live)
            (enumerate 0 (in_slots st)))
      in \<lparr>in_slots = slots, in_has_current = (if slots = [] then False else in_has_current st),
          in_recently_gossiped = gossiped\<rparr>)"

definition mark_gossiped_locked :: "hash32 \<Rightarrow> instant \<Rightarrow> inner \<Rightarrow> inner" where
  "mark_gossiped_locked h now st =
     (let others = filter (\<lambda>g. ga_hash g \<noteq> h) (in_recently_gossiped st);
          stamped = \<lparr>ga_hash = h, ga_expires_at = now + GOSSIP_ANSWERABILITY_TTL\<rparr> # others
      in prune_slots now (st\<lparr>in_recently_gossiped := take MAX_RETAINED_GOSSIPED_SLOTS stamped\<rparr>))"

definition rotate :: "built_commitment \<Rightarrow> instant \<Rightarrow> inner \<Rightarrow> inner" where
  "rotate new_current now st =
     prune_slots now (st\<lparr>in_slots := new_current # in_slots st, in_has_current := True\<rparr>)"

definition retire_current :: "instant \<Rightarrow> inner \<Rightarrow> inner" where
  "retire_current now st = prune_slots now (st\<lparr>in_has_current := False\<rparr>)"

definition mark_gossiped :: "hash32 \<Rightarrow> instant \<Rightarrow> inner \<Rightarrow> inner" where
  "mark_gossiped h now st = mark_gossiped_locked h now st"

definition current_for_gossip :: "instant \<Rightarrow> inner \<Rightarrow> built_commitment option \<times> inner" where
  "current_for_gossip now st =
     (if \<not> in_has_current st then (None, st)
      else case in_slots st of
        [] \<Rightarrow> (None, st)
      | current # _ \<Rightarrow> (Some current, mark_gossiped_locked (bc_hash current) now st))"

definition current_for_quote :: "instant \<Rightarrow> inner \<Rightarrow> built_commitment option \<times> inner" where
  "current_for_quote now st =
     (if \<not> in_has_current st then (None, st)
      else case in_slots st of
        [] \<Rightarrow> (None, st)
      | current # _ \<Rightarrow> (Some current, mark_gossiped_locked (bc_hash current) now st))"

definition age_out :: "instant \<Rightarrow> inner \<Rightarrow> inner" where
  "age_out now st = prune_slots now st"

definition lookup_by_hash :: "inner \<Rightarrow> hash32 \<Rightarrow> built_commitment option" where
  "lookup_by_hash st h = find (\<lambda>c. bc_hash c = h) (in_slots st)"

definition is_held :: "inner \<Rightarrow> xor_name \<Rightarrow> bool" where
  "is_held st key = list_ex (\<lambda>c. bc_contains_key c key) (in_slots st)"

definition current :: "inner \<Rightarrow> built_commitment option" where
  "current st = (if in_has_current st then (case in_slots st of [] \<Rightarrow> None | c # _ \<Rightarrow> Some c) else None)"

definition retained_slot_count :: "inner \<Rightarrow> nat" where
  "retained_slot_count st = length (in_slots st)"

definition clear_all :: "inner \<Rightarrow> inner" where
  "clear_all st = \<lparr>in_slots = [], in_has_current = False, in_recently_gossiped = []\<rparr>"

record quote_binding =
  qb_key_count :: nat
  qb_pin :: hash32

definition current_binding_for_quote :: "instant \<Rightarrow> inner \<Rightarrow> quote_binding option \<times> inner" where
  "current_binding_for_quote now st =
     (let (b, st') = current_for_quote now st
      in (map_option (\<lambda>built. \<lparr>qb_key_count = sc_key_count (bc_commitment built),
            qb_pin = bc_hash built\<rparr>) b, st'))"

definition commitment_blob_for_pin ::
  "(storage_commitment \<Rightarrow> bytes option) \<Rightarrow> inner \<Rightarrow> hash32 \<Rightarrow> bytes option" where
  "commitment_blob_for_pin rmp_to_vec st pin =
     (case lookup_by_hash st pin of None \<Rightarrow> None | Some built \<Rightarrow> rmp_to_vec (bc_commitment built))"

section \<open>Persistence\<close>

text \<open>
  Wall-clock times are nanoseconds since the Unix epoch. On Unix a \<open>SystemTime\<close> and an
  \<open>Instant\<close> hold 64-bit signed seconds; the checked additions fail beyond them.
\<close>

definition time_max :: nat where "time_max = (2 ^ 63 - 1) * 10 ^ 9 + 999999999"

definition checked_add_time :: "nat \<Rightarrow> duration \<Rightarrow> nat option" where
  "checked_add_time t d = (if t + d \<le> time_max then Some (t + d) else None)"

record persisted_slot =
  ps_commitment :: storage_commitment
  ps_leaf_keys :: "xor_name list"
  ps_expires_at_unix :: "nat option"

record persisted_retention =
  pr_version :: nat
  pr_slots :: "persisted_slot list"
  pr_has_current :: bool

definition expiry_of_slot :: "instant \<Rightarrow> nat \<Rightarrow> gossiped_at list \<Rightarrow> hash32 \<Rightarrow> nat option" where
  "expiry_of_slot now_i now_s gossiped h =
     (case find (\<lambda>g. ga_hash g = h) gossiped of
        None \<Rightarrow> None
      | Some g \<Rightarrow>
          let remaining = ga_expires_at g - now_i
          in if remaining = 0 then None
             else map_option (\<lambda>w. w div 10 ^ 9) (checked_add_time now_s remaining))"

definition snapshot :: "instant \<Rightarrow> nat \<Rightarrow> inner \<Rightarrow> persisted_retention" where
  "snapshot now_i now_s st =
     \<lparr>pr_version = RETENTION_FORMAT_VERSION,
      pr_slots = map (\<lambda>c. \<lparr>ps_commitment = bc_commitment c, ps_leaf_keys = leaf_keys (bc_tree c),
         ps_expires_at_unix = expiry_of_slot now_i now_s (in_recently_gossiped st) (bc_hash c)\<rparr>)
        (in_slots st),
      pr_has_current = in_has_current st\<rparr>"

definition wall_expiry_to_instant :: "nat \<Rightarrow> nat \<Rightarrow> instant \<Rightarrow> instant option" where
  "wall_expiry_to_instant expires_unix now_s now_i =
     (case checked_add_time 0 (from_secs expires_unix) of
        None \<Rightarrow> None
      | Some expires_wall \<Rightarrow>
          (case checked_add_time expires_wall RESTART_STAMP_GRACE of
             None \<Rightarrow> None
           | Some effective_wall \<Rightarrow>
               if effective_wall < now_s then None
               else let remaining = effective_wall - now_s
                    in if remaining = 0 then None
                       else checked_add_time now_i
                         (min remaining (GOSSIP_ANSWERABILITY_TTL + RESTART_STAMP_GRACE))))"

text \<open>The body of the restore loop for slot \<open>i\<close>, on the state and the flag \<open>first_slot_restored\<close>.\<close>

definition restore_slot ::
  "(bytes \<Rightarrow> hash32) \<Rightarrow> nat \<Rightarrow> (storage_commitment \<Rightarrow> bool) \<Rightarrow> (storage_commitment \<Rightarrow> hash32 option) \<Rightarrow>
     instant \<Rightarrow> nat \<Rightarrow> nat \<times> persisted_slot \<Rightarrow> inner \<times> bool \<Rightarrow> inner \<times> bool" where
  "restore_slot b3 mx verify_sig chash now_i now_s = (\<lambda>(i, slot) (st, first_restored).
     case build b3 mx (map (\<lambda>k. (k, k)) (ps_leaf_keys slot)) of
       Inl _ \<Rightarrow> (st, first_restored)
     | Inr tree \<Rightarrow>
         (case from_persisted verify_sig chash (ps_commitment slot) tree of
            None \<Rightarrow> (st, first_restored)
          | Some built \<Rightarrow>
              let st1 = st\<lparr>in_slots := in_slots st @ [built]\<rparr>;
                  st2 = (case ps_expires_at_unix slot of
                      None \<Rightarrow> st1
                    | Some exp_unix \<Rightarrow>
                        (case wall_expiry_to_instant exp_unix now_s now_i of
                           None \<Rightarrow> st1
                         | Some e \<Rightarrow> st1\<lparr>in_recently_gossiped := in_recently_gossiped st1 @
                             [\<lparr>ga_hash = bc_hash built, ga_expires_at = e\<rparr>]\<rparr>))
              in (st2, if i = 0 then True else first_restored)))"

definition restore ::
  "(bytes \<Rightarrow> hash32) \<Rightarrow> nat \<Rightarrow> (storage_commitment \<Rightarrow> bool) \<Rightarrow> (storage_commitment \<Rightarrow> hash32 option) \<Rightarrow>
     instant \<Rightarrow> nat \<Rightarrow> persisted_retention \<Rightarrow> inner" where
  "restore b3 mx verify_sig chash now_i now_s persisted =
     (let (st, first_restored) =
            fold (restore_slot b3 mx verify_sig chash now_i now_s) (enumerate 0 (pr_slots persisted))
              (state_new, False)
      in prune_slots now_i (st\<lparr>in_has_current := pr_has_current persisted \<and> first_restored\<rparr>))"

section \<open>Pruning\<close>

lemma filter_enumerate_pos:
  "0 < n \<Longrightarrow> map snd (filter (\<lambda>(i, c). (b \<and> i = 0) \<or> P c) (enumerate n cs)) = filter P cs"
  by (induction cs arbitrary: n) auto

lemma filter_enumerate_all:
  "map snd (filter (\<lambda>(i, c). P c) (enumerate n cs)) = filter P cs"
  by (induction cs arbitrary: n) auto

lemma prune_slots_simps:
  "in_recently_gossiped (prune_slots now st) = filter (\<lambda>g. ga_expires_at g > now) (in_recently_gossiped st)"
  "in_slots (prune_slots now st) =
     (let covered = (\<lambda>c. bc_hash c \<in> ga_hash ` {g \<in> set (in_recently_gossiped st). ga_expires_at g > now})
      in case in_slots st of [] \<Rightarrow> []
         | c # cs \<Rightarrow> (if in_has_current st \<or> covered c then [c] else []) @ filter covered cs)"
  "in_has_current (prune_slots now st) \<longleftrightarrow> in_has_current st \<and> in_slots (prune_slots now st) \<noteq> []"
  by (auto simp: prune_slots_def Let_def filter_enumerate_pos filter_enumerate_all
      split: list.splits)

lemma prune_slots_subset: "set (in_slots (prune_slots now st)) \<subseteq> set (in_slots st)"
  by (cases "in_slots st") (auto simp: prune_slots_simps Let_def)

lemma prune_slots_keeps:
  "c \<in> set (in_slots st) \<Longrightarrow> g \<in> set (in_recently_gossiped st) \<Longrightarrow> ga_hash g = bc_hash c \<Longrightarrow>
   now < ga_expires_at g \<Longrightarrow> c \<in> set (in_slots (prune_slots now st))"
  by (cases "in_slots st") (auto simp: prune_slots_simps Let_def intro!: image_eqI [of _ _ g])

lemma distinct_prune:
  "distinct (map bc_hash (in_slots st)) \<Longrightarrow> distinct (map bc_hash (in_slots (prune_slots now st)))"
  by (cases "in_slots st") (auto simp: prune_slots_simps Let_def distinct_map_filter)

section \<open>The retention invariant\<close>

text \<open>
  The state of the responder with the time of its last operation. A rotation installs a commitment
  whose hash is not retained yet: signatures are randomised, so a fresh commitment has a fresh hash.
\<close>

inductive retention_step :: "instant \<times> inner \<Rightarrow> instant \<times> inner \<Rightarrow> bool" where
  rotate: "t \<le> now \<Longrightarrow> bc_hash c \<notin> bc_hash ` set (in_slots st) \<Longrightarrow>
    retention_step (t, st) (now, rotate c now st)"
| retire: "t \<le> now \<Longrightarrow> retention_step (t, st) (now, retire_current now st)"
| mark: "t \<le> now \<Longrightarrow> retention_step (t, st) (now, mark_gossiped h now st)"
| gossip: "t \<le> now \<Longrightarrow> retention_step (t, st) (now, snd (current_for_gossip now st))"
| quote: "t \<le> now \<Longrightarrow> retention_step (t, st) (now, snd (current_for_quote now st))"
| age: "t \<le> now \<Longrightarrow> retention_step (t, st) (now, age_out now st)"
| clear: "t \<le> now \<Longrightarrow> retention_step (t, st) (now, clear_all st)"

definition covered_slots :: "inner \<Rightarrow> bool" where
  "covered_slots st \<longleftrightarrow>
     (in_has_current st \<longrightarrow> in_slots st \<noteq> []) \<and>
     (\<forall>c\<in>set (if in_has_current st then tl (in_slots st) else in_slots st).
        bc_hash c \<in> ga_hash ` set (in_recently_gossiped st))"

definition gossip_inv :: "instant \<Rightarrow> gossiped_at list \<Rightarrow> bool" where
  "gossip_inv t gs \<longleftrightarrow> length gs \<le> MAX_RETAINED_GOSSIPED_SLOTS \<and> distinct (map ga_hash gs) \<and>
     (\<forall>g\<in>set gs. ga_expires_at g \<le> t + GOSSIP_ANSWERABILITY_TTL)"

definition retention_inv :: "instant \<times> inner \<Rightarrow> bool" where
  "retention_inv = (\<lambda>(t, st). covered_slots st \<and> distinct (map bc_hash (in_slots st)) \<and>
     gossip_inv t (in_recently_gossiped st))"

lemma covered_prune: "covered_slots (prune_slots now st)"
  by (cases "in_slots st") (auto simp: covered_slots_def prune_slots_simps Let_def)

lemma gossip_inv_prune:
  "gossip_inv t (in_recently_gossiped st) \<Longrightarrow> t \<le> now \<Longrightarrow>
   gossip_inv now (in_recently_gossiped (prune_slots now st))"
  by (auto simp: gossip_inv_def prune_slots_simps distinct_map_filter
      intro: order_trans [OF length_filter_le])

lemma gossip_inv_mono: "gossip_inv t gs \<Longrightarrow> t \<le> now \<Longrightarrow> gossip_inv now gs"
  by (auto simp: gossip_inv_def)

lemma gossip_inv_stamp:
  "gossip_inv t gs \<Longrightarrow> t \<le> now \<Longrightarrow>
   gossip_inv now (take MAX_RETAINED_GOSSIPED_SLOTS
     (\<lparr>ga_hash = h, ga_expires_at = now + GOSSIP_ANSWERABILITY_TTL\<rparr> # filter (\<lambda>g. ga_hash g \<noteq> h) gs))"
proof -
  let ?g = "\<lparr>ga_hash = h, ga_expires_at = now + GOSSIP_ANSWERABILITY_TTL\<rparr>"
    and ?o = "filter (\<lambda>g. ga_hash g \<noteq> h) gs"
  assume g: "gossip_inv t gs" and t: "t \<le> now"
  have "distinct (map ga_hash (?g # ?o))" using g by (auto simp: gossip_inv_def distinct_map_filter)
  then have "distinct (map ga_hash (take MAX_RETAINED_GOSSIPED_SLOTS (?g # ?o)))"
    unfolding take_map [symmetric] by (rule distinct_take)
  moreover have "\<forall>x\<in>set (?g # ?o). ga_expires_at x \<le> now + GOSSIP_ANSWERABILITY_TTL"
    using g t by (fastforce simp: gossip_inv_def)
  ultimately show ?thesis unfolding gossip_inv_def
    by (intro conjI ballI) (simp, assumption, blast dest: in_set_takeD)
qed

lemma retention_inv_mark:
  "retention_inv (t, st) \<Longrightarrow> t \<le> now \<Longrightarrow> retention_inv (now, mark_gossiped_locked h now st)"
  unfolding retention_inv_def mark_gossiped_locked_def Let_def prod.case
  by (auto intro!: covered_prune distinct_prune gossip_inv_prune [of now] gossip_inv_stamp)

lemma retention_inv_step: "retention_inv s \<Longrightarrow> retention_step s s' \<Longrightarrow> retention_inv s'"
proof (erule retention_step.cases, goal_cases)
  case (1 t now c st)
  then show ?case unfolding retention_inv_def rotate_def prod.case
    by (auto intro!: covered_prune distinct_prune gossip_inv_prune [of t])
next
  case (2 t now st)
  then show ?case unfolding retention_inv_def retire_current_def prod.case
    by (auto intro!: covered_prune distinct_prune gossip_inv_prune [of t])
next
  case (3 t now st h)
  then show ?case by (simp add: mark_gossiped_def retention_inv_mark)
next
  case (4 t now st)
  then show ?case using retention_inv_mark gossip_inv_mono
    by (cases "in_slots st") (auto simp: current_for_gossip_def retention_inv_def)
next
  case (5 t now st)
  then show ?case using retention_inv_mark gossip_inv_mono
    by (cases "in_slots st") (auto simp: current_for_quote_def retention_inv_def)
next
  case (6 t now st)
  then show ?case unfolding retention_inv_def age_out_def prod.case
    by (auto intro!: covered_prune distinct_prune gossip_inv_prune [of t])
next
  case (7 t now st)
  then show ?case by (simp add: retention_inv_def clear_all_def covered_slots_def gossip_inv_def)
qed

interpretation retention: invariant_system retention_step "(0, state_new)" retention_inv
  by unfold_locales
    (simp add: retention_inv_def state_new_def covered_slots_def gossip_inv_def, rule retention_inv_step)

lemma retained_slots_bound:
  assumes "retention_inv (t, st)"
  shows "length (in_slots st) \<le> MAX_RETAINED_GOSSIPED_SLOTS + 1"
proof -
  let ?r = "if in_has_current st then tl (in_slots st) else in_slots st"
  have d: "distinct (map bc_hash ?r)" using assms by (auto simp: retention_inv_def map_tl distinct_tl)
  have "length ?r = card (bc_hash ` set ?r)" using distinct_card [OF d] by (auto simp: map_tl)
  also have "\<dots> \<le> card (ga_hash ` set (in_recently_gossiped st))"
    using assms by (intro card_mono) (auto simp: retention_inv_def covered_slots_def split: if_splits)
  also have "\<dots> \<le> length (in_recently_gossiped st)"
    by (metis card_length length_map list.set_map)
  also have "\<dots> \<le> MAX_RETAINED_GOSSIPED_SLOTS" using assms by (simp add: retention_inv_def gossip_inv_def)
  finally show ?thesis by (auto split: if_splits)
qed

section \<open>Answerability\<close>

text \<open>
  The calls that may follow an advertisement, with their times. \<open>stamp_of\<close> is the hash a call puts
  on the wire, and \<open>stamps\<close> collects the hashes of a whole run.
\<close>

datatype retention_event =
    EvRotate built_commitment
  | EvRetire
  | EvMark hash32
  | EvGossip
  | EvQuote
  | EvAgeOut

fun retention_apply :: "instant \<times> retention_event \<Rightarrow> inner \<Rightarrow> inner" where
  "retention_apply (now, EvRotate c) st = rotate c now st"
| "retention_apply (now, EvRetire) st = retire_current now st"
| "retention_apply (now, EvMark h) st = mark_gossiped h now st"
| "retention_apply (now, EvGossip) st = snd (current_for_gossip now st)"
| "retention_apply (now, EvQuote) st = snd (current_for_quote now st)"
| "retention_apply (now, EvAgeOut) st = age_out now st"

fun stamp_of :: "retention_event \<Rightarrow> inner \<Rightarrow> hash32 option" where
  "stamp_of (EvMark h) st = Some h"
| "stamp_of EvGossip st = map_option bc_hash (current st)"
| "stamp_of EvQuote st = map_option bc_hash (current st)"
| "stamp_of _ st = None"

fun stamps :: "(instant \<times> retention_event) list \<Rightarrow> inner \<Rightarrow> hash32 set" where
  "stamps [] st = {}"
| "stamps (ev # evs) st = set_option (stamp_of (snd ev) st) \<union> stamps evs (retention_apply ev st)"

text \<open>
  A commitment with hash \<open>h\<close> is retained and its gossip record holds until \<open>d\<close>; the records ahead
  of it are of other hashes, all in \<open>S\<close>.
\<close>

definition answerable :: "hash32 \<Rightarrow> instant \<Rightarrow> hash32 set \<Rightarrow> inner \<Rightarrow> bool" where
  "answerable h d S st \<longleftrightarrow> h \<in> bc_hash ` set (in_slots st) \<and>
     (\<exists>xs g ys. in_recently_gossiped st = xs @ g # ys \<and> ga_hash g = h \<and> d \<le> ga_expires_at g \<and>
        ga_hash ` set xs \<subseteq> S - {h} \<and> distinct (map ga_hash xs))"

lemma answerableI:
  "h \<in> bc_hash ` set (in_slots st) \<Longrightarrow> in_recently_gossiped st = xs @ g # ys \<Longrightarrow> ga_hash g = h \<Longrightarrow>
   d \<le> ga_expires_at g \<Longrightarrow> ga_hash ` set xs \<subseteq> S - {h} \<Longrightarrow> distinct (map ga_hash xs) \<Longrightarrow>
   answerable h d S st"
  unfolding answerable_def by blast

lemma answerable_mono: "answerable h d S st \<Longrightarrow> S \<subseteq> S' \<Longrightarrow> answerable h d S' st"
  unfolding answerable_def by blast

lemma answerable_prune:
  assumes "answerable h d S st" "now < d"
  shows "answerable h d S (prune_slots now st)"
proof -
  obtain xs g ys where g: "in_recently_gossiped st = xs @ g # ys" "ga_hash g = h" "d \<le> ga_expires_at g"
      "ga_hash ` set xs \<subseteq> S - {h}" "distinct (map ga_hash xs)"
    using assms(1) by (auto simp: answerable_def)
  obtain c where c: "c \<in> set (in_slots st)" "bc_hash c = h" using assms(1) by (auto simp: answerable_def)
  have live: "now < ga_expires_at g" using g(3) assms(2) by simp
  have "c \<in> set (in_slots (prune_slots now st))"
    using c g(1,2) live by (intro prune_slots_keeps [of c st g]) auto
  moreover have "in_recently_gossiped (prune_slots now st) =
      filter (\<lambda>g. now < ga_expires_at g) xs @ g # filter (\<lambda>g. now < ga_expires_at g) ys"
    using g(1) live by (simp add: prune_slots_simps)
  ultimately show ?thesis
    using c(2) g by (intro answerableI [of _ _ "filter (\<lambda>g. now < ga_expires_at g) xs" g
        "filter (\<lambda>g. now < ga_expires_at g) ys"]) (auto simp: distinct_map_filter)
qed

lemma answerable_slots:
  "answerable h d S st \<Longrightarrow> in_recently_gossiped st' = in_recently_gossiped st \<Longrightarrow>
   set (in_slots st) \<subseteq> set (in_slots st') \<Longrightarrow> answerable h d S st'"
  unfolding answerable_def by auto

lemma answerable_mark:
  assumes a: "answerable h (t0 + GOSSIP_ANSWERABILITY_TTL) S st"
    and t: "t0 \<le> now" "now < t0 + GOSSIP_ANSWERABILITY_TTL"
    and S: "finite S" "card (insert h' S - {h}) < MAX_RETAINED_GOSSIPED_SLOTS"
  shows "answerable h (t0 + GOSSIP_ANSWERABILITY_TTL) (insert h' S) (mark_gossiped_locked h' now st)"
proof -
  let ?new = "\<lparr>ga_hash = h', ga_expires_at = now + GOSSIP_ANSWERABILITY_TTL\<rparr>"
  let ?F = "filter (\<lambda>g. ga_hash g \<noteq> h')" and ?M = MAX_RETAINED_GOSSIPED_SLOTS
  obtain xs g ys where g: "in_recently_gossiped st = xs @ g # ys" "ga_hash g = h"
      "t0 + GOSSIP_ANSWERABILITY_TTL \<le> ga_expires_at g" "ga_hash ` set xs \<subseteq> S - {h}" "distinct (map ga_hash xs)"
    using a by (auto simp: answerable_def)
  have h: "h \<in> bc_hash ` set (in_slots st)" using a by (simp add: answerable_def)
  let ?st = "st\<lparr>in_recently_gossiped := take ?M (?new # ?F (in_recently_gossiped st))\<rparr>"
  have "answerable h (t0 + GOSSIP_ANSWERABILITY_TTL) (insert h' S) ?st"
  proof (cases "h' = h")
    case True
    have "take ?M (?new # ?F (in_recently_gossiped st)) = ?new # take (?M - 1) (?F (in_recently_gossiped st))"
      by (simp add: take_Cons' MAX_RETAINED_GOSSIPED_SLOTS_def)
    with True h t(1) show ?thesis
      by (intro answerableI [of _ _ "[]" ?new "take (?M - 1) (?F (in_recently_gossiped st))"]) auto
  next
    case False
    let ?xs = "?new # ?F xs"
    have d: "distinct (map ga_hash ?xs)" using g(5) by (auto simp: distinct_map_filter)
    have sub: "ga_hash ` set ?xs \<subseteq> insert h' S - {h}" using g(4) False by auto
    have "length ?xs = card (ga_hash ` set ?xs)" using distinct_card [OF d] by (simp del: list.map)
    also have "\<dots> \<le> card (insert h' S - {h})" using sub S(1) by (intro card_mono) auto
    finally have "length ?xs < ?M" using S(2) by simp
    then obtain k where k: "?M = length ?xs + Suc k" by (metis add_Suc_right less_natE)
    have "take ?M (?new # ?F (in_recently_gossiped st)) = ?xs @ g # take k (?F ys)"
      using g(1,2) False unfolding k by simp
    with d sub h g(2,3) show ?thesis
      by (intro answerableI [of _ _ ?xs g "take k (?F ys)"]) simp_all
  qed
  then show ?thesis unfolding mark_gossiped_locked_def Let_def by (rule answerable_prune [OF _ t(2)])
qed

lemma current_for_gossip_eq:
  "current_for_gossip now st =
     (case current st of None \<Rightarrow> (None, st) | Some c \<Rightarrow> (Some c, mark_gossiped_locked (bc_hash c) now st))"
  by (auto simp: current_for_gossip_def current_def split: list.splits)

lemma current_for_quote_eq: "current_for_quote now st = current_for_gossip now st"
  by (simp add: current_for_quote_def current_for_gossip_def)

lemma answerable_apply:
  assumes a: "answerable h (t0 + GOSSIP_ANSWERABILITY_TTL) S st"
    and t: "t0 \<le> fst ev" "fst ev < t0 + GOSSIP_ANSWERABILITY_TTL"
    and S: "finite S" "card (set_option (stamp_of (snd ev) st) \<union> S - {h}) < MAX_RETAINED_GOSSIPED_SLOTS"
  shows "answerable h (t0 + GOSSIP_ANSWERABILITY_TTL) (set_option (stamp_of (snd ev) st) \<union> S)
    (retention_apply ev st)"
proof -
  obtain now e where ev: "ev = (now, e)" by (cases ev)
  have mark: "answerable h (t0 + GOSSIP_ANSWERABILITY_TTL) (insert h' S) (mark_gossiped_locked h' now st)"
    if "stamp_of e st = Some h'" for h'
    using answerable_mark [OF a _ _ S(1)] t S(2) that by (simp add: ev)
  have prune: "answerable h (t0 + GOSSIP_ANSWERABILITY_TTL) S (prune_slots now st')"
    if "in_recently_gossiped st' = in_recently_gossiped st" "set (in_slots st) \<subseteq> set (in_slots st')" for st'
    using answerable_prune [OF answerable_slots [OF a that]] t(2) by (simp add: ev)
  show ?thesis
  proof (cases e)
    case (EvRotate c)
    then show ?thesis by (auto simp: ev rotate_def intro!: prune)
  next
    case EvRetire
    then show ?thesis by (auto simp: ev retire_current_def intro!: prune)
  next
    case (EvMark h')
    then show ?thesis using mark by (simp add: ev mark_gossiped_def)
  next
    case EvGossip
    then show ?thesis using mark a by (cases "current st") (auto simp: ev current_for_gossip_eq)
  next
    case EvQuote
    then show ?thesis using mark a
      by (cases "current st") (auto simp: ev current_for_quote_eq current_for_gossip_eq)
  next
    case EvAgeOut
    then show ?thesis by (auto simp: ev age_out_def intro!: prune)
  qed
qed

lemma finite_stamps: "finite (stamps evs st)"
  by (induction evs arbitrary: st) (auto split: option.split)

lemma answerable_run:
  "answerable h (t0 + GOSSIP_ANSWERABILITY_TTL) S st \<Longrightarrow> finite S \<Longrightarrow>
   \<forall>(t, _)\<in>set evs. t0 \<le> t \<and> t < t0 + GOSSIP_ANSWERABILITY_TTL \<Longrightarrow>
   card (stamps evs st \<union> S - {h}) < MAX_RETAINED_GOSSIPED_SLOTS \<Longrightarrow>
   answerable h (t0 + GOSSIP_ANSWERABILITY_TTL) (stamps evs st \<union> S) (fold retention_apply evs st)"
proof (induction evs arbitrary: st S)
  case (Cons ev evs)
  let ?s = "set_option (stamp_of (snd ev) st) \<union> S" and ?st = "retention_apply ev st"
  have fin: "finite ?s" using Cons.prems(2) by (auto split: option.split)
  have "card (?s - {h}) \<le> card (stamps (ev # evs) st \<union> S - {h})"
    using finite_stamps [of "ev # evs" st] Cons.prems(2) by (intro card_mono) auto
  then have "answerable h (t0 + GOSSIP_ANSWERABILITY_TTL) ?s ?st"
    using Cons.prems by (intro answerable_apply) (auto simp: case_prod_unfold)
  moreover have "stamps (ev # evs) st \<union> S = stamps evs ?st \<union> ?s" by auto
  ultimately show ?case using Cons.IH [of ?s ?st] Cons.prems fin by (simp add: case_prod_unfold)
qed simp

lemma lookup_by_hash_answerable: "answerable h d S st \<Longrightarrow> \<exists>c. lookup_by_hash st h = Some c \<and> bc_hash c = h"
  unfolding answerable_def lookup_by_hash_def
  by (cases "find (\<lambda>c. bc_hash c = h) (in_slots st)") (auto simp: find_None_iff find_Some_iff)

section \<open>Properties\<close>

text \<open>
  C17. Retention is bounded and expires: in every reachable state at most sixteen gossip records
  and seventeen slots are kept, every slot but the current one is covered by a record, and once a
  full answerability window passes without any further advertisement, ageing out leaves at most
  the current commitment.
\<close>

theorem retention_bounded:
  assumes "reachable_from retention_step (0, state_new) (t, st)"
  shows "length (in_recently_gossiped st) \<le> 16 \<and> length (in_slots st) \<le> 17 \<and> covered_slots st \<and>
    (t + GOSSIP_ANSWERABILITY_TTL \<le> now \<longrightarrow>
       in_recently_gossiped (age_out now st) = [] \<and>
       in_slots (age_out now st) = (case current st of None \<Rightarrow> [] | Some c \<Rightarrow> [c]))"
proof -
  have inv: "retention_inv (t, st)" using assms by (rule retention.inv_reachable)
  moreover have "in_recently_gossiped (age_out now st) = [] \<and>
      in_slots (age_out now st) = (case current st of None \<Rightarrow> [] | Some c \<Rightarrow> [c])"
    if now: "t + GOSSIP_ANSWERABILITY_TTL \<le> now"
  proof -
    have none: "\<forall>g\<in>set (in_recently_gossiped st). \<not> now < ga_expires_at g"
      using inv now by (fastforce simp: retention_inv_def gossip_inv_def)
    then have e: "{g \<in> set (in_recently_gossiped st). now < ga_expires_at g} = {}" by blast
    from none show ?thesis unfolding age_out_def prune_slots_simps Let_def e
      by (auto simp: current_def split: list.splits)
  qed
  ultimately show ?thesis
    using retained_slots_bound [OF inv]
    by (simp add: retention_inv_def gossip_inv_def MAX_RETAINED_GOSSIPED_SLOTS_def)
qed

definition example_built :: "hash32 \<Rightarrow> built_commitment" where
  "example_built h =
     \<lparr>bc_commitment = \<lparr>sc_root = h, sc_key_count = 1, sc_sender_peer_id = 0, sc_sender_public_key = [],
        sc_signature = []\<rparr>, bc_hash = h, bc_tree = \<lparr>mt_leaves = [], mt_levels = []\<rparr>\<rparr>"

theorem retention_bounded_witness:
  "length (in_slots (rotate (example_built 7) 5 state_new)) \<le> 17"
proof -
  have "reachable_from retention_step (0, state_new) (5, rotate (example_built 7) 5 state_new)"
    by (intro reachable_from.step [OF reachable_from.start] retention_step.rotate)
      (simp_all add: state_new_def)
  from retention_bounded [OF this] show ?thesis by simp
qed

text \<open>
  C18. What a node advertises it can answer: after a commitment was put on the wire, every lookup
  of its hash within the answerability window of three hours succeeds, whatever rotations,
  retirements, further advertisements and expiry runs happen in between, as long as fewer than
  sixteen other hashes are advertised in that time.
\<close>

theorem gossiped_commitment_answerable:
  assumes "current_for_gossip t0 st = (Some c, st')"
    and "\<forall>(t, _)\<in>set evs. t0 \<le> t \<and> t < t0 + GOSSIP_ANSWERABILITY_TTL"
    and "card (stamps evs st' - {bc_hash c}) < 16"
  shows "\<exists>b. lookup_by_hash (fold retention_apply evs st') (bc_hash c) = Some b \<and> bc_hash b = bc_hash c"
proof -
  have cur: "current st = Some c" and st': "st' = mark_gossiped_locked (bc_hash c) t0 st"
    using assms(1) by (auto simp: current_for_gossip_eq split: option.splits)
  let ?new = "\<lparr>ga_hash = bc_hash c, ga_expires_at = t0 + GOSSIP_ANSWERABILITY_TTL\<rparr>"
  let ?o = "filter (\<lambda>g. ga_hash g \<noteq> bc_hash c) (in_recently_gossiped st)"
  let ?st = "st\<lparr>in_recently_gossiped := take MAX_RETAINED_GOSSIPED_SLOTS (?new # ?o)\<rparr>"
  have "c \<in> set (in_slots st)" using cur by (auto simp: current_def split: if_splits list.splits)
  then have "answerable (bc_hash c) (t0 + GOSSIP_ANSWERABILITY_TTL) {} ?st"
    by (intro answerableI [of _ _ "[]" ?new "take (MAX_RETAINED_GOSSIPED_SLOTS - 1) ?o"])
      (auto simp: take_Cons' MAX_RETAINED_GOSSIPED_SLOTS_def)
  then have "answerable (bc_hash c) (t0 + GOSSIP_ANSWERABILITY_TTL) {} st'"
    unfolding st' mark_gossiped_locked_def Let_def
    by (rule answerable_prune) (simp add: GOSSIP_ANSWERABILITY_TTL_def from_secs_def)
  then have "answerable (bc_hash c) (t0 + GOSSIP_ANSWERABILITY_TTL) (stamps evs st' \<union> {})
      (fold retention_apply evs st')"
    using assms(2,3) by (intro answerable_run) (auto simp: MAX_RETAINED_GOSSIPED_SLOTS_def)
  then show ?thesis by (rule lookup_by_hash_answerable)
qed

theorem gossiped_commitment_answerable_witness:
  "\<exists>b. lookup_by_hash (fold retention_apply [(10, EvRotate (example_built 8)), (20, EvRetire)]
      (snd (current_for_gossip 5 \<lparr>in_slots = [example_built 7], in_has_current = True,
         in_recently_gossiped = []\<rparr>))) 7 = Some b"
proof -
  let ?st = "\<lparr>in_slots = [example_built 7], in_has_current = True, in_recently_gossiped = []\<rparr>"
  have c: "current_for_gossip 5 ?st = (Some (example_built 7), snd (current_for_gossip 5 ?st))"
    by (simp add: current_for_gossip_def)
  have h: "bc_hash (example_built 7) = 7" by (simp add: example_built_def)
  show ?thesis
    using gossiped_commitment_answerable [OF c, of "[(10, EvRotate (example_built 8)), (20, EvRetire)]"]
    unfolding h by (auto simp: GOSSIP_ANSWERABILITY_TTL_def from_secs_def)
qed

section \<open>Restart\<close>

text \<open>
  A slot as a node builds it: its tree is over content-addressed keys and the commitment is its own
  signed one, so the persisted form rebuilds it.
\<close>

definition restorable ::
  "(bytes \<Rightarrow> hash32) \<Rightarrow> nat \<Rightarrow> (storage_commitment \<Rightarrow> bool) \<Rightarrow> (storage_commitment \<Rightarrow> hash32 option) \<Rightarrow>
     built_commitment \<Rightarrow> bool" where
  "restorable b3 mx verify_sig chash c \<longleftrightarrow>
     build b3 mx (map (\<lambda>k. (k, k)) (leaf_keys (bc_tree c))) = Inr (bc_tree c) \<and>
     sc_root (bc_commitment c) = root (bc_tree c) \<and> sc_key_count (bc_commitment c) = key_count (bc_tree c) \<and>
     verify_sig (bc_commitment c) \<and> chash (bc_commitment c) = Some (bc_hash c)"

definition restored_record ::
  "instant \<Rightarrow> nat \<Rightarrow> gossiped_at list \<Rightarrow> instant \<Rightarrow> nat \<Rightarrow> built_commitment \<Rightarrow> gossiped_at list" where
  "restored_record now_i now_s gs now_i' now_s' c =
     (case expiry_of_slot now_i now_s gs (bc_hash c) of None \<Rightarrow> []
      | Some e \<Rightarrow> (case wall_expiry_to_instant e now_s' now_i' of None \<Rightarrow> []
          | Some x \<Rightarrow> [\<lparr>ga_hash = bc_hash c, ga_expires_at = x\<rparr>]))"

lemma restore_fold:
  assumes "\<forall>c\<in>set cs. restorable b3 mx verify_sig chash c"
  shows "fold (restore_slot b3 mx verify_sig chash now_i' now_s')
      (enumerate n (map (\<lambda>c. \<lparr>ps_commitment = bc_commitment c, ps_leaf_keys = leaf_keys (bc_tree c),
         ps_expires_at_unix = expiry_of_slot now_i now_s gs (bc_hash c)\<rparr>) cs)) (st, f) =
    (st\<lparr>in_slots := in_slots st @ cs,
        in_recently_gossiped := in_recently_gossiped st @
          concat (map (restored_record now_i now_s gs now_i' now_s') cs)\<rparr>,
     f \<or> (n = 0 \<and> cs \<noteq> []))"
  using assms
proof (induction cs arbitrary: n st f)
  case (Cons c cs)
  then have c: "restorable b3 mx verify_sig chash c" by simp
  let ?slot = "\<lparr>ps_commitment = bc_commitment c, ps_leaf_keys = leaf_keys (bc_tree c),
         ps_expires_at_unix = expiry_of_slot now_i now_s gs (bc_hash c)\<rparr>"
  have "restore_slot b3 mx verify_sig chash now_i' now_s' (n, ?slot) (st, f) =
      (st\<lparr>in_slots := in_slots st @ [c], in_recently_gossiped := in_recently_gossiped st @
          restored_record now_i now_s gs now_i' now_s' c\<rparr>, f \<or> n = 0)"
    using c by (cases st) (auto simp: restore_slot_def restorable_def from_persisted_def
        restored_record_def Let_def split: option.splits)
  with Cons show ?case by simp
qed simp

lemma wall_expiry_keeps:
  assumes "now_s' < W" "W + RESTART_STAMP_GRACE \<le> time_max"
    and "now_i' + GOSSIP_ANSWERABILITY_TTL + RESTART_STAMP_GRACE \<le> time_max"
  shows "\<exists>x. wall_expiry_to_instant (W div 10 ^ 9) now_s' now_i' = Some x \<and> now_i' < x \<and>
    now_i' + min (W - now_s') GOSSIP_ANSWERABILITY_TTL \<le> x \<and>
    x \<le> now_i' + GOSSIP_ANSWERABILITY_TTL + RESTART_STAMP_GRACE"
proof -
  define F where "F = from_secs (W div 10 ^ 9)"
  have F: "F \<le> W" "W < F + 10 ^ 9"
    unfolding F_def from_secs_def by (simp, metis dividend_less_div_times zero_less_numeral zero_less_power add.commute)
  have G: "10 ^ 9 \<le> RESTART_STAMP_GRACE" by (simp add: RESTART_STAMP_GRACE_def from_secs_def)
  have T: "0 < GOSSIP_ANSWERABILITY_TTL" by (simp add: GOSSIP_ANSWERABILITY_TTL_def from_secs_def)
  let ?r = "F + RESTART_STAMP_GRACE - now_s'"
  have r: "W - now_s' \<le> ?r" "0 < ?r" "\<not> F + RESTART_STAMP_GRACE < now_s'" using F G assms(1) by auto
  have "checked_add_time 0 F = Some F" "checked_add_time F RESTART_STAMP_GRACE = Some (F + RESTART_STAMP_GRACE)"
    using F assms(2) by (auto simp: checked_add_time_def)
  moreover have "checked_add_time now_i' (min ?r (GOSSIP_ANSWERABILITY_TTL + RESTART_STAMP_GRACE)) =
      Some (now_i' + min ?r (GOSSIP_ANSWERABILITY_TTL + RESTART_STAMP_GRACE))"
    using assms(3) by (auto simp: checked_add_time_def)
  ultimately have "wall_expiry_to_instant (W div 10 ^ 9) now_s' now_i' =
      Some (now_i' + min ?r (GOSSIP_ANSWERABILITY_TTL + RESTART_STAMP_GRACE))"
    using r unfolding wall_expiry_to_instant_def F_def [symmetric] by (simp add: Let_def)
  with r T show ?thesis by auto
qed

text \<open>
  C19. A restart loses no answer that is owed: for a responder whose slots are restorable, a
  commitment whose gossip record was alive when the state was persisted, and a restart before that
  record's deadline on the wall clock, the restored state answers lookups of its hash, and keeps
  doing so at least for the rest of the window and at most for a window plus the grace period; the
  current commitment is current again.
\<close>

theorem restart_keeps_answerable:
  assumes slots: "\<forall>c\<in>set (in_slots st). restorable b3 mx verify_sig chash c"
    and c: "c \<in> set (in_slots st)"
    and g: "find (\<lambda>g. ga_hash g = bc_hash c) (in_recently_gossiped st) = Some g" "now_i < ga_expires_at g"
    and W: "W = now_s + (ga_expires_at g - now_i)" "now_s' < W" "W + RESTART_STAMP_GRACE \<le> time_max"
    and i: "now_i' + GOSSIP_ANSWERABILITY_TTL + RESTART_STAMP_GRACE \<le> time_max"
  shows "let st' = restore b3 mx verify_sig chash now_i' now_s' (snapshot now_i now_s st) in
    (\<exists>b. lookup_by_hash st' (bc_hash c) = Some b \<and> bc_hash b = bc_hash c) \<and>
    (\<exists>g'\<in>set (in_recently_gossiped st'). ga_hash g' = bc_hash c \<and>
       now_i' + min (W - now_s') GOSSIP_ANSWERABILITY_TTL \<le> ga_expires_at g' \<and>
       ga_expires_at g' \<le> now_i' + GOSSIP_ANSWERABILITY_TTL + RESTART_STAMP_GRACE) \<and>
    (in_has_current st \<longrightarrow> current st' = current st)"
proof -
  let ?gs = "in_recently_gossiped st" and ?cs = "in_slots st"
  let ?recs = "concat (map (restored_record now_i now_s ?gs now_i' now_s') ?cs)"
  define st1 where "st1 = \<lparr>in_slots = ?cs, in_has_current = in_has_current st \<and> ?cs \<noteq> [], in_recently_gossiped = ?recs\<rparr>"
  have st': "restore b3 mx verify_sig chash now_i' now_s' (snapshot now_i now_s st) = prune_slots now_i' st1"
    using restore_fold [OF slots, of now_i' now_s' 0 now_i now_s ?gs state_new False]
    by (simp add: restore_def snapshot_def st1_def state_new_def)
  have "expiry_of_slot now_i now_s ?gs (bc_hash c) = Some (W div 10 ^ 9)"
    using g W by (simp add: expiry_of_slot_def checked_add_time_def Let_def)
  moreover obtain x where x: "wall_expiry_to_instant (W div 10 ^ 9) now_s' now_i' = Some x" "now_i' < x"
      "now_i' + min (W - now_s') GOSSIP_ANSWERABILITY_TTL \<le> x"
      "x \<le> now_i' + GOSSIP_ANSWERABILITY_TTL + RESTART_STAMP_GRACE"
    using wall_expiry_keeps [OF W(2,3) i] by blast
  ultimately have rec: "\<lparr>ga_hash = bc_hash c, ga_expires_at = x\<rparr> \<in> set ?recs"
    using c by (force simp: restored_record_def)
  have "c \<in> set (in_slots (prune_slots now_i' st1))"
    using c rec x(2) by (intro prune_slots_keeps) (auto simp: st1_def)
  then have "\<exists>b. lookup_by_hash (prune_slots now_i' st1) (bc_hash c) = Some b \<and> bc_hash b = bc_hash c"
    by (cases "lookup_by_hash (prune_slots now_i' st1) (bc_hash c)")
      (auto simp: lookup_by_hash_def find_None_iff find_Some_iff)
  moreover have "\<lparr>ga_hash = bc_hash c, ga_expires_at = x\<rparr> \<in> set (in_recently_gossiped (prune_slots now_i' st1))"
    using rec x(2) by (simp add: prune_slots_simps st1_def)
  moreover have "in_has_current st \<longrightarrow> current (prune_slots now_i' st1) = current st"
    by (cases ?cs) (auto simp: current_def prune_slots_simps st1_def Let_def)
  ultimately show ?thesis unfolding st' Let_def using x(3,4)
    by (intro conjI bexI [of _ "\<lparr>ga_hash = bc_hash c, ga_expires_at = x\<rparr>"]) simp_all
qed

text \<open>An example: a commitment to the single key \<open>1\<close>, gossiped at time 0 and restarted later.\<close>

definition restart_built :: built_commitment where
  "restart_built = \<lparr>bc_commitment = \<lparr>sc_root = 1, sc_key_count = 1, sc_sender_peer_id = 0,
      sc_sender_public_key = [], sc_signature = []\<rparr>, bc_hash = 9,
     bc_tree = tree_of (\<lambda>_. 1) [(1, 1)]\<rparr>"

theorem restart_keeps_answerable_witness:
  "\<exists>b. lookup_by_hash (restore (\<lambda>_. 1) 8 (\<lambda>_. True) (\<lambda>_. Some 9) 7 (from_secs 5000)
      (snapshot 0 (from_secs 1000) \<lparr>in_slots = [restart_built], in_has_current = True,
         in_recently_gossiped = [\<lparr>ga_hash = 9, ga_expires_at = from_secs 10800\<rparr>]\<rparr>)) 9 = Some b"
proof -
  let ?st = "\<lparr>in_slots = [restart_built], in_has_current = True,
      in_recently_gossiped = [\<lparr>ga_hash = 9, ga_expires_at = from_secs 10800\<rparr>]\<rparr>"
  have "restorable (\<lambda>_. 1) 8 (\<lambda>_. True) (\<lambda>_. Some 9) restart_built"
    unfolding restorable_def build_ok_iff
    by (simp add: restart_built_def leaf_keys_def root_tree_of leaf_hash_def u32_max_def)
  then show ?thesis
    using restart_keeps_answerable [of ?st "\<lambda>_. 1" 8 "\<lambda>_. True" "\<lambda>_. Some 9" restart_built
        "\<lparr>ga_hash = 9, ga_expires_at = from_secs 10800\<rparr>" 0 "from_secs 11800" "from_secs 1000"
        "from_secs 5000" 7]
    by (simp add: restart_built_def from_secs_def RESTART_STAMP_GRACE_def GOSSIP_ANSWERABILITY_TTL_def
        time_max_def Let_def) blast
qed

end
