(* ===== verification/Repair_Proofs.thy ===== *)
theory Repair_Proofs
  imports Config
begin

text \<open>
  The repair proofs of \<open>src/src/replication/types.rs\<close>: evidence that this node told a peer about a
  key, kept per key with the close group it was recorded under. Audits and pruning act on a peer only
  when such a hint is mature. The theorems say what a mature hint means in terms of the history of
  calls, and bound the table.
\<close>

section \<open>Peer sync records\<close>

record peer_sync_record =
  psr_last_sync :: "instant option"
  psr_cycles_since_sync :: nat

definition has_repair_opportunity :: "peer_sync_record \<Rightarrow> bool" where
  "has_repair_opportunity r \<longleftrightarrow> psr_last_sync r \<noteq> None \<and> psr_cycles_since_sync r \<ge> 1"

section \<open>The table\<close>

record repair_proof =
  hinted_at_epoch :: nat
  hinted_at :: instant

record repair_proof_entry =
  re_close_peers :: "peer_id set"
  re_peer_proofs :: "(peer_id \<times> repair_proof) list"

type_synonym repair_proofs = "(xor_name \<times> repair_proof_entry) list"

definition entry_new :: "peer_id set \<Rightarrow> repair_proof_entry" where
  "entry_new close_peers = \<lparr>re_close_peers = close_peers, re_peer_proofs = []\<rparr>"

definition repair_proofs_new :: repair_proofs where "repair_proofs_new = []"

definition reconcile_key_close_group :: "xor_name \<Rightarrow> peer_id set \<Rightarrow> repair_proofs \<Rightarrow> repair_proofs" where
  "reconcile_key_close_group key current_close_peers rp =
     (case map_of rp key of
        None \<Rightarrow> rp
      | Some entry \<Rightarrow>
          if re_close_peers entry = current_close_peers then rp
          else
            let kept = filter (\<lambda>(peer, _). peer \<in> current_close_peers) (re_peer_proofs entry)
            in if kept = [] then AList.delete key rp
               else AList.update key \<lparr>re_close_peers = current_close_peers, re_peer_proofs = kept\<rparr> rp)"

definition insert_replica_hint_sent ::
  "peer_id \<Rightarrow> xor_name \<Rightarrow> peer_id set \<Rightarrow> nat \<Rightarrow> instant \<Rightarrow> repair_proofs \<Rightarrow> bool \<times> repair_proofs" where
  "insert_replica_hint_sent peer key current_close_peers epoch at rp =
     (let rp1 = reconcile_key_close_group key current_close_peers rp
      in if peer \<notin> current_close_peers then (False, rp1)
         else
           let entry = unwrap_or (map_of rp1 key) (entry_new current_close_peers)
           in if peer \<in> keys (re_peer_proofs entry) then (False, AList.update key entry rp1)
              else (True, AList.update key
                (entry\<lparr>re_peer_proofs := AList.update peer \<lparr>hinted_at_epoch = epoch, hinted_at = at\<rparr>
                   (re_peer_proofs entry)\<rparr>) rp1))"

definition record_replica_hint_sent ::
  "peer_id \<Rightarrow> xor_name \<Rightarrow> peer_id set \<Rightarrow> nat \<Rightarrow> instant \<Rightarrow> repair_proofs \<Rightarrow> bool \<times> repair_proofs" where
  "record_replica_hint_sent peer key current_close_peers epoch now rp =
     insert_replica_hint_sent peer key current_close_peers epoch now rp"

definition has_mature_replica_hint ::
  "peer_id \<Rightarrow> xor_name \<Rightarrow> peer_id set \<Rightarrow> nat \<Rightarrow> instant \<Rightarrow> repair_proofs \<Rightarrow> bool \<times> repair_proofs" where
  "has_mature_replica_hint peer key current_close_peers current_epoch now rp =
     (let rp1 = reconcile_key_close_group key current_close_peers rp
      in (is_some_and (Option.bind (map_of rp1 key) (\<lambda>entry. map_of (re_peer_proofs entry) peer))
            (\<lambda>proof. hinted_at_epoch proof < current_epoch \<and> now - hinted_at proof \<ge> REPAIR_HINT_MIN_AGE),
          rp1))"

definition proofs_remove_key :: "xor_name \<Rightarrow> repair_proofs \<Rightarrow> repair_proofs" where
  "proofs_remove_key key rp = AList.delete key rp"

definition proofs_remove_peer :: "peer_id \<Rightarrow> repair_proofs \<Rightarrow> repair_proofs" where
  "proofs_remove_peer peer rp =
     filter (\<lambda>(_, entry). re_peer_proofs entry \<noteq> [])
       (map (\<lambda>(key, entry). (key, entry\<lparr>re_peer_proofs := AList.delete peer (re_peer_proofs entry)\<rparr>)) rp)"

section \<open>The table as a function of key and peer\<close>

definition proof_of :: "repair_proofs \<Rightarrow> xor_name \<Rightarrow> peer_id \<Rightarrow> repair_proof option" where
  "proof_of rp key peer = Option.bind (map_of rp key) (\<lambda>entry. map_of (re_peer_proofs entry) peer)"

definition entry_inv :: "repair_proof_entry \<Rightarrow> bool" where
  "entry_inv e \<longleftrightarrow> dkeys (re_peer_proofs e) \<and> re_peer_proofs e \<noteq> [] \<and> keys (re_peer_proofs e) \<subseteq> re_close_peers e"

definition proofs_inv :: "repair_proofs \<Rightarrow> bool" where
  "proofs_inv rp \<longleftrightarrow> dkeys rp \<and> (\<forall>k e. map_of rp k = Some e \<longrightarrow> entry_inv e)"

lemma proofs_inv_lookup: "proofs_inv rp \<Longrightarrow> map_of rp k = Some e \<Longrightarrow> entry_inv e"
  by (auto simp: proofs_inv_def)

lemma proofs_inv_update:
  "proofs_inv rp \<Longrightarrow> entry_inv e \<Longrightarrow> proofs_inv (AList.update k e rp)"
  by (auto simp: proofs_inv_def distinct_update update_conv')

lemma proofs_inv_delete: "proofs_inv rp \<Longrightarrow> proofs_inv (AList.delete k rp)"
  by (auto simp: proofs_inv_def alist_simps split: if_splits)

lemma in_keys_iff: "k \<in> keys m \<longleftrightarrow> map_of m k \<noteq> None"
  by (simp add: map_of_eq_None_iff)

lemma map_of_filter_keys: "map_of (filter (\<lambda>(p, _). p \<in> C) m) q = (if q \<in> C then map_of m q else None)"
  by (induction m) auto

lemma reconcile_inv: "proofs_inv rp \<Longrightarrow> proofs_inv (reconcile_key_close_group key C rp)"
proof (cases "map_of rp key")
  case (Some e)
  assume inv: "proofs_inv rp"
  let ?kept = "filter (\<lambda>(peer, _). peer \<in> C) (re_peer_proofs e)"
  have "entry_inv e" using inv Some by (rule proofs_inv_lookup)
  then have "?kept \<noteq> [] \<Longrightarrow> entry_inv \<lparr>re_close_peers = C, re_peer_proofs = ?kept\<rparr>"
    by (auto simp: entry_inv_def dkeys_filter)
  with inv Some show ?thesis
    by (auto simp: reconcile_key_close_group_def Let_def proofs_inv_delete proofs_inv_update)
qed (simp add: reconcile_key_close_group_def)

lemma proof_of_reconcile:
  assumes "proofs_inv rp"
  shows "proof_of (reconcile_key_close_group key C rp) k p =
    (if k = key \<and> p \<notin> C then None else proof_of rp k p)"
proof (cases "map_of rp key")
  case (Some e)
  have e: "entry_inv e" using assms Some by (rule proofs_inv_lookup)
  let ?kept = "filter (\<lambda>(peer, _). peer \<in> C) (re_peer_proofs e)"
  have none: "?kept = [] \<Longrightarrow> p \<in> C \<Longrightarrow> map_of (re_peer_proofs e) p = None"
    using map_of_filter_keys [of C "re_peer_proofs e" p] by simp
  have out: "p \<notin> re_close_peers e \<Longrightarrow> map_of (re_peer_proofs e) p = None"
    using e by (auto simp: entry_inv_def map_of_eq_None_iff)
  consider "re_close_peers e = C" | "re_close_peers e \<noteq> C" "?kept = []" | "re_close_peers e \<noteq> C" "?kept \<noteq> []"
    by blast
  then show ?thesis
  proof cases
    case 1
    then show ?thesis using Some out by (simp add: reconcile_key_close_group_def proof_of_def)
  next
    case 2
    then have "reconcile_key_close_group key C rp = AList.delete key rp"
      using Some by (simp add: reconcile_key_close_group_def)
    with 2 Some none show ?thesis by (simp add: proof_of_def map_of_delete_other)
  next
    case 3
    then have "reconcile_key_close_group key C rp =
        AList.update key \<lparr>re_close_peers = C, re_peer_proofs = ?kept\<rparr> rp"
      using Some by (simp add: reconcile_key_close_group_def)
    with Some show ?thesis by (simp add: proof_of_def update_conv' map_of_filter_keys)
  qed
qed (auto simp: reconcile_key_close_group_def proof_of_def)

lemma insert_hint_inv:
  assumes "proofs_inv rp"
  shows "proofs_inv (snd (insert_replica_hint_sent peer key C epoch t rp))"
proof -
  let ?rp = "reconcile_key_close_group key C rp"
  have inv: "proofs_inv ?rp" using assms by (rule reconcile_inv)
  define e where "e = unwrap_or (map_of ?rp key) (entry_new C)"
  have old: "map_of ?rp key = Some x \<Longrightarrow> entry_inv x \<and> re_close_peers x = C" for x
    using proofs_inv_lookup [OF inv]
    by (auto simp: reconcile_key_close_group_def Let_def alist_simps update_conv' split: option.splits if_splits)
  have "entry_inv e" if "peer \<in> keys (re_peer_proofs e)"
    using that old by (cases "map_of ?rp key") (auto simp: e_def entry_new_def)
  moreover have "entry_inv (e\<lparr>re_peer_proofs := AList.update peer pr (re_peer_proofs e)\<rparr>)" if "peer \<in> C" for pr
    using that old
    by (cases "map_of ?rp key") (auto simp: e_def entry_new_def entry_inv_def keys_update distinct_update
        update_nonempty)
  ultimately show ?thesis using inv
    by (auto simp: insert_replica_hint_sent_def Let_def e_def [symmetric] intro!: proofs_inv_update)
qed

lemma proof_of_insert:
  assumes "proofs_inv rp"
  shows "proof_of (snd (insert_replica_hint_sent peer key C epoch t rp)) k p =
    (if k = key \<and> p \<notin> C then None
     else if k = key \<and> p = peer \<and> proof_of rp key peer = None
     then Some \<lparr>hinted_at_epoch = epoch, hinted_at = t\<rparr> else proof_of rp k p)"
proof -
  let ?rp = "reconcile_key_close_group key C rp"
  have r: "proof_of ?rp k p = (if k = key \<and> p \<notin> C then None else proof_of rp k p)" for k p
    by (rule proof_of_reconcile [OF assms])
  have "proof_of (snd (insert_replica_hint_sent peer key C epoch t rp)) k p =
      (if k = key \<and> p = peer \<and> peer \<in> C \<and> proof_of ?rp key peer = None
       then Some \<lparr>hinted_at_epoch = epoch, hinted_at = t\<rparr> else proof_of ?rp k p)"
    by (cases "map_of ?rp key")
      (auto simp: insert_replica_hint_sent_def Let_def proof_of_def update_conv' entry_new_def in_keys_iff)
  then show ?thesis by (auto simp: r)
qed

lemma remove_peer_lookup:
  "dkeys rp \<Longrightarrow> map_of (proofs_remove_peer peer rp) k =
     (case map_of rp k of None \<Rightarrow> None
      | Some e \<Rightarrow> (let m = AList.delete peer (re_peer_proofs e)
          in if m = [] then None else Some (e\<lparr>re_peer_proofs := m\<rparr>)))"
proof -
  assume d: "dkeys rp"
  let ?m = "map (\<lambda>(key, entry). (key, entry\<lparr>re_peer_proofs := AList.delete peer (re_peer_proofs entry)\<rparr>)) rp"
  have "map fst ?m = map fst rp" by auto
  then have "dkeys ?m" using d by (simp only:)
  then show ?thesis unfolding proofs_remove_peer_def
    by (subst map_of_filter_dkeys [of ?m "\<lambda>_ e. re_peer_proofs e \<noteq> []"])
      (auto simp: map_of_map Let_def split: option.splits)
qed

lemma remove_peer_inv: "proofs_inv rp \<Longrightarrow> proofs_inv (proofs_remove_peer peer rp)"
proof -
  assume inv: "proofs_inv rp"
  let ?m = "map (\<lambda>(key, entry). (key, entry\<lparr>re_peer_proofs := AList.delete peer (re_peer_proofs entry)\<rparr>)) rp"
  have "map fst ?m = map fst rp" by auto
  then have "dkeys ?m" using inv by (simp only: proofs_inv_def)
  then have "dkeys (proofs_remove_peer peer rp)" unfolding proofs_remove_peer_def by (rule dkeys_filter)
  moreover have "entry_inv e" if "map_of (proofs_remove_peer peer rp) k = Some e" for k e
    using that inv proofs_inv_lookup [OF inv, of k] set_delete_subset
    by (fastforce simp: remove_peer_lookup proofs_inv_def Let_def entry_inv_def dkeys_delete
        split: option.splits if_splits)
  ultimately show ?thesis by (auto simp: proofs_inv_def)
qed

lemma proof_of_remove_peer:
  "proofs_inv rp \<Longrightarrow> proof_of (proofs_remove_peer peer rp) k p = (if p = peer then None else proof_of rp k p)"
proof (cases "map_of rp k")
  case (Some e)
  let ?m = "AList.delete peer (re_peer_proofs e)"
  have "map_of ?m p = (if p = peer then None else map_of (re_peer_proofs e) p)"
    by (rule map_of_delete_other)
  moreover assume "proofs_inv rp"
  ultimately show ?thesis using Some
    by (cases "?m = []") (auto simp: proof_of_def remove_peer_lookup proofs_inv_def Let_def)
qed (simp add: proof_of_def remove_peer_lookup proofs_inv_def)

lemma proof_of_remove_key:
  "proof_of (proofs_remove_key key rp) k p = (if k = key then None else proof_of rp k p)"
  by (simp add: proof_of_def proofs_remove_key_def map_of_delete_other)

section \<open>Histories\<close>

datatype proof_event =
    HintSent peer_id xor_name "peer_id set" nat instant
  | MaturityChecked peer_id xor_name "peer_id set" nat instant
  | KeyRemoved xor_name
  | PeerRemoved peer_id

fun proof_apply :: "proof_event \<Rightarrow> repair_proofs \<Rightarrow> repair_proofs" where
  "proof_apply (HintSent p k C e t) rp = snd (record_replica_hint_sent p k C e t rp)"
| "proof_apply (MaturityChecked p k C e t) rp = snd (has_mature_replica_hint p k C e t rp)"
| "proof_apply (KeyRemoved k) rp = proofs_remove_key k rp"
| "proof_apply (PeerRemoved p) rp = proofs_remove_peer p rp"

text \<open>The calls that withdraw the hint to \<open>p\<close> for \<open>k\<close>: its removal, or a close group without \<open>p\<close>.\<close>

fun withdraws :: "peer_id \<Rightarrow> xor_name \<Rightarrow> proof_event \<Rightarrow> bool" where
  "withdraws p k (HintSent _ k' C _ _) \<longleftrightarrow> k' = k \<and> p \<notin> C"
| "withdraws p k (MaturityChecked _ k' C _ _) \<longleftrightarrow> k' = k \<and> p \<notin> C"
| "withdraws p k (KeyRemoved k') \<longleftrightarrow> k' = k"
| "withdraws p k (PeerRemoved p') \<longleftrightarrow> p' = p"

definition proof_run :: "proof_event list \<Rightarrow> repair_proofs" where
  "proof_run evs = fold proof_apply evs repair_proofs_new"

lemma proof_apply_inv: "proofs_inv rp \<Longrightarrow> proofs_inv (proof_apply ev rp)"
  by (cases ev) (auto simp: record_replica_hint_sent_def has_mature_replica_hint_def Let_def
      proofs_remove_key_def intro: insert_hint_inv reconcile_inv proofs_inv_delete remove_peer_inv)

lemma proof_run_snoc: "proof_run (evs @ [ev]) = proof_apply ev (proof_run evs)"
  by (simp add: proof_run_def)

lemma proof_run_inv: "proofs_inv (proof_run evs)"
  by (induction evs rule: rev_induct)
    (simp_all add: proof_run_snoc proof_apply_inv, simp add: proof_run_def repair_proofs_new_def proofs_inv_def)

lemma proof_of_apply:
  "proofs_inv rp \<Longrightarrow> proof_of (proof_apply ev rp) k p =
     (if withdraws p k ev then None
      else case proof_of rp k p of Some pr \<Rightarrow> Some pr
        | None \<Rightarrow> (case ev of HintSent p' k' C e t \<Rightarrow>
              if p' = p \<and> k' = k then Some \<lparr>hinted_at_epoch = e, hinted_at = t\<rparr> else None
            | _ \<Rightarrow> None))"
  by (cases ev) (auto simp: record_replica_hint_sent_def has_mature_replica_hint_def Let_def
      proof_of_insert proof_of_reconcile proof_of_remove_key proof_of_remove_peer split: option.splits)

definition hinted_since :: "proof_event list \<Rightarrow> peer_id \<Rightarrow> xor_name \<Rightarrow> nat \<Rightarrow> instant \<Rightarrow> bool" where
  "hinted_since evs p k e t \<longleftrightarrow>
     (\<exists>pre C post. evs = pre @ [HintSent p k C e t] @ post \<and> p \<in> C \<and> \<not> list_ex (withdraws p k) post)"

lemma hinted_since_snoc: "hinted_since evs p k e t \<Longrightarrow> \<not> withdraws p k ev \<Longrightarrow> hinted_since (evs @ [ev]) p k e t"
proof -
  assume "hinted_since evs p k e t" and ev: "\<not> withdraws p k ev"
  then obtain pre C post where "evs = pre @ [HintSent p k C e t] @ post" "p \<in> C" "\<not> list_ex (withdraws p k) post"
    by (auto simp: hinted_since_def)
  with ev show ?thesis unfolding hinted_since_def
    by (intro exI [of _ pre] exI [of _ C] exI [of _ "post @ [ev]"]) simp
qed

lemma proof_of_hinted:
  "proof_of (proof_run evs) k p = Some pr \<Longrightarrow> hinted_since evs p k (hinted_at_epoch pr) (hinted_at pr)"
proof (induction evs rule: rev_induct)
  case Nil
  then show ?case by (simp add: proof_run_def repair_proofs_new_def proof_of_def)
next
  case (snoc ev evs)
  have w: "\<not> withdraws p k ev" and
    or: "proof_of (proof_run evs) k p = Some pr \<or>
      (\<exists>C. ev = HintSent p k C (hinted_at_epoch pr) (hinted_at pr))"
    using snoc.prems proof_of_apply [OF proof_run_inv, of ev evs k p]
    by (auto simp: proof_run_snoc split: if_splits option.splits proof_event.splits)
  from or show ?case
  proof
    assume "proof_of (proof_run evs) k p = Some pr"
    then show ?thesis by (intro hinted_since_snoc snoc.IH w)
  next
    assume "\<exists>C. ev = HintSent p k C (hinted_at_epoch pr) (hinted_at pr)"
    with w show ?thesis unfolding hinted_since_def by fastforce
  qed
qed

lemma mature_hintD:
  assumes "fst (has_mature_replica_hint p k C current_epoch now rp)" and "proofs_inv rp"
  shows "p \<in> C \<and> (\<exists>pr. proof_of rp k p = Some pr \<and> hinted_at_epoch pr < current_epoch \<and>
    REPAIR_HINT_MIN_AGE \<le> now - hinted_at pr)"
proof -
  from assms(1) obtain pr where "proof_of (reconcile_key_close_group k C rp) k p = Some pr"
      "hinted_at_epoch pr < current_epoch" "REPAIR_HINT_MIN_AGE \<le> now - hinted_at pr"
    by (auto simp: has_mature_replica_hint_def Let_def is_some_and_iff proof_of_def)
  then show ?thesis by (auto simp: proof_of_reconcile [OF assms(2)] split: if_splits)
qed

lemma has_mature_inv: "proofs_inv rp \<Longrightarrow> proofs_inv (snd (has_mature_replica_hint p k C e now rp))"
  by (simp add: has_mature_replica_hint_def Let_def reconcile_inv)

lemma has_mature_shrinks:
  "proofs_inv rp \<Longrightarrow> proof_of (snd (has_mature_replica_hint p k C e now rp)) k' p' = Some pr \<Longrightarrow>
   proof_of rp k' p' = Some pr"
  by (auto simp: has_mature_replica_hint_def Let_def proof_of_reconcile split: if_splits)

section \<open>Properties\<close>

text \<open>
  A mature hint is a real chance to repair: after any sequence of calls, a hint is reported
  mature for a peer and a key only if the peer is in the current close group and an earlier call
  recorded a hint to it for that key, in an earlier sync-cycle epoch and at least one hour ago, and
  nothing withdrew it since: the key and the peer were not removed and every close group of the key
  seen since then contains the peer.
\<close>

theorem mature_hint_means_hinted:
  "fst (has_mature_replica_hint p k C current_epoch now (proof_run evs)) \<longrightarrow>
     p \<in> C \<and> (\<exists>e t. hinted_since evs p k e t \<and> e < current_epoch \<and> REPAIR_HINT_MIN_AGE \<le> now - t)"
  using mature_hintD [OF _ proof_run_inv] proof_of_hinted by blast

theorem mature_hint_means_hinted_witness:
  "2 \<in> {2, 3 :: peer_id} \<and>
   (\<exists>e t. hinted_since [HintSent 2 1 {2, 3} 0 0] 2 1 e t \<and> e < 1 \<and> REPAIR_HINT_MIN_AGE \<le> from_secs 3600 - t)"
  using mature_hint_means_hinted [of 2 1 "{2, 3}" 1 "from_secs 3600" "[HintSent 2 1 {2, 3} 0 0]"]
  by (simp add: proof_run_def repair_proofs_new_def record_replica_hint_sent_def insert_replica_hint_sent_def
      reconcile_key_close_group_def has_mature_replica_hint_def entry_new_def REPAIR_HINT_MIN_AGE_def
      from_secs_def)

text \<open>
  The table stays small and a recorded hint matures: in every reachable state each key's entry
  is not empty and lists only peers of the close group it was recorded under, so its size is bounded
  by the close group; and a peer hinted in its close group has a mature hint in the next epoch after
  an hour, as long as it stays in the close group.
\<close>

theorem hint_table_bounded_and_matures:
  "(map_of (proof_run evs) k = Some entry \<and> finite (re_close_peers entry) \<longrightarrow>
      0 < length (re_peer_proofs entry) \<and> length (re_peer_proofs entry) \<le> card (re_close_peers entry)) \<and>
   (proof_of (proof_run evs) k p = None \<and> p \<in> C \<and> p \<in> C' \<and> e < e' \<and> t + REPAIR_HINT_MIN_AGE \<le> now \<longrightarrow>
      fst (has_mature_replica_hint p k C' e' now (proof_run (evs @ [HintSent p k C e t]))))"
proof (intro conjI impI)
  assume a: "map_of (proof_run evs) k = Some entry \<and> finite (re_close_peers entry)"
  then have inv: "entry_inv entry" using proofs_inv_lookup [OF proof_run_inv] by blast
  then have "length (re_peer_proofs entry) = card (keys (re_peer_proofs entry))"
    by (metis distinct_card entry_inv_def length_map list.set_map)
  also have "\<dots> \<le> card (re_close_peers entry)"
    using a inv by (intro card_mono) (auto simp: entry_inv_def)
  finally show "length (re_peer_proofs entry) \<le> card (re_close_peers entry)" .
  show "0 < length (re_peer_proofs entry)" using inv by (simp add: entry_inv_def)
next
  assume a: "proof_of (proof_run evs) k p = None \<and> p \<in> C \<and> p \<in> C' \<and> e < e' \<and> t + REPAIR_HINT_MIN_AGE \<le> now"
  then have "proof_of (proof_run (evs @ [HintSent p k C e t])) k p = Some \<lparr>hinted_at_epoch = e, hinted_at = t\<rparr>"
    by (simp only: proof_run_snoc proof_of_apply [OF proof_run_inv]) simp
  then have "proof_of (reconcile_key_close_group k C' (proof_run (evs @ [HintSent p k C e t]))) k p =
      Some \<lparr>hinted_at_epoch = e, hinted_at = t\<rparr>"
    using a by (simp add: proof_of_reconcile [OF proof_run_inv])
  then show "fst (has_mature_replica_hint p k C' e' now (proof_run (evs @ [HintSent p k C e t])))"
    using a by (auto simp: has_mature_replica_hint_def Let_def proof_of_def)
qed

theorem hint_table_bounded_and_matures_witness:
  "fst (has_mature_replica_hint 2 1 {2, 4} 6 (from_secs 4000) (proof_run ([] @ [HintSent 2 1 {2, 3} 5 7])))"
  using hint_table_bounded_and_matures [of "[]" 1 "entry_new {}" 2 "{2, 3}" "{2, 4}" 5 6 7 "from_secs 4000"]
  by (simp add: proof_run_def repair_proofs_new_def proof_of_def REPAIR_HINT_MIN_AGE_def from_secs_def)

end
