(* ===== verification/Neighbor_Sync.thy ===== *)
theory Neighbor_Sync
  imports Config
begin

text \<open>
  Neighbour synchronisation: the cycle state of \<open>src/src/replication/types.rs\<close>
  (\<open>NeighborSyncState\<close>), the selection of peers and the construction of hint sets of
  \<open>src/src/replication/neighbor_sync.rs\<close>, and the start of a new cycle and the reaction to routing
  changes of \<open>src/src/replication/mod.rs\<close>. The theorems: batches are fair and a cycle reaches every
  neighbour, a peer gets one bootstrap grace window in its life, and the batched hint builder gives
  each peer what the builder for one peer would.
\<close>

section \<open>Cycle state\<close>

datatype bootstrap_claim_observation =
    WithinGrace instant
  | PastGrace instant
  | Repeated instant

record neighbor_sync_state =
  ns_priority_order :: "peer_id list"
  ns_order :: "peer_id list"
  ns_cursor :: nat
  ns_last_sync_times :: "peer_id \<rightharpoonup> instant"
  ns_bootstrap_claims :: "peer_id \<rightharpoonup> instant"
  ns_bootstrap_claim_history :: "peer_id \<rightharpoonup> instant"
  ns_prune_cursor :: nat

definition new_cycle :: "peer_id list \<Rightarrow> neighbor_sync_state" where
  "new_cycle close_neighbors =
     \<lparr>ns_priority_order = [], ns_order = close_neighbors, ns_cursor = 0, ns_last_sync_times = Map.empty,
      ns_bootstrap_claims = Map.empty, ns_bootstrap_claim_history = Map.empty, ns_prune_cursor = 0\<rparr>"

definition observe_bootstrap_claim ::
  "peer_id \<Rightarrow> instant \<Rightarrow> duration \<Rightarrow> neighbor_sync_state \<Rightarrow> bootstrap_claim_observation \<times> neighbor_sync_state" where
  "observe_bootstrap_claim peer now grace_period st =
     (case ns_bootstrap_claims st peer of
        Some first_seen \<Rightarrow>
          (if now - first_seen > grace_period then PastGrace first_seen else WithinGrace first_seen, st)
      | None \<Rightarrow>
          (case ns_bootstrap_claim_history st peer of
             Some first_seen \<Rightarrow> (Repeated first_seen, st)
           | None \<Rightarrow> (WithinGrace now,
               st\<lparr>ns_bootstrap_claims := (ns_bootstrap_claims st)(peer \<mapsto> now),
                  ns_bootstrap_claim_history := (ns_bootstrap_claim_history st)(peer \<mapsto> now)\<rparr>)))"

definition clear_active_bootstrap_claim :: "peer_id \<Rightarrow> neighbor_sync_state \<Rightarrow> bool \<times> neighbor_sync_state" where
  "clear_active_bootstrap_claim peer st =
     (ns_bootstrap_claims st peer \<noteq> None, st\<lparr>ns_bootstrap_claims := (ns_bootstrap_claims st)(peer := None)\<rparr>)"

fun queue_priority_peers :: "peer_id list \<Rightarrow> neighbor_sync_state \<Rightarrow> nat \<times> neighbor_sync_state" where
  "queue_priority_peers [] st = (0, st)"
| "queue_priority_peers (peer # peers) st =
     (if peer \<in> set (ns_priority_order st) then queue_priority_peers peers st
      else let (queued, st') = queue_priority_peers peers
                 (st\<lparr>ns_priority_order := ns_priority_order st @ [peer]\<rparr>)
           in (queued + 1, st'))"

text \<open>The loop of \<open>retain_sync_peers\<close> over the drained order: kept peers and those before the cursor.\<close>

fun retain_order :: "peer_id set \<Rightarrow> nat \<Rightarrow> nat \<Rightarrow> peer_id list \<Rightarrow> peer_id list \<times> nat" where
  "retain_order close_peers old_cursor idx [] = ([], 0)"
| "retain_order close_peers old_cursor idx (peer # peers) =
     (let (kept, before) = retain_order close_peers old_cursor (idx + 1) peers
      in if peer \<in> close_peers then (peer # kept, if idx < old_cursor then before + 1 else before)
         else (kept, before))"

definition retain_sync_peers :: "peer_id set \<Rightarrow> neighbor_sync_state \<Rightarrow> nat \<times> neighbor_sync_state" where
  "retain_sync_peers close_peers st =
     (let priority = filter (\<lambda>p. p \<in> close_peers) (ns_priority_order st);
          (kept, before) = retain_order close_peers (ns_cursor st) 0 (ns_order st)
      in ((length (ns_priority_order st) - length priority) + (length (ns_order st) - length kept),
          st\<lparr>ns_priority_order := priority, ns_order := kept, ns_cursor := before\<rparr>))"

fun position :: "'a \<Rightarrow> 'a list \<Rightarrow> nat option" where
  "position x [] = None"
| "position x (y # ys) = (if y = x then Some 0 else map_option Suc (position x ys))"

definition remove_at :: "nat \<Rightarrow> 'a list \<Rightarrow> 'a list" where
  "remove_at i xs = take i xs @ drop (i + 1) xs"

definition sync_remove_peer :: "peer_id \<Rightarrow> neighbor_sync_state \<Rightarrow> bool \<times> neighbor_sync_state" where
  "sync_remove_peer peer st =
     (let priority = filter (\<lambda>q. q \<noteq> peer) (ns_priority_order st);
          (order, cursor) = (case position peer (ns_order st) of
             None \<Rightarrow> (ns_order st, ns_cursor st)
           | Some pos \<Rightarrow> (remove_at pos (ns_order st),
               if pos < ns_cursor st then ns_cursor st - 1 else ns_cursor st))
      in (length (ns_priority_order st) \<noteq> length priority \<or> length (ns_order st) \<noteq> length order,
          st\<lparr>ns_priority_order := priority, ns_order := order, ns_cursor := cursor\<rparr>))"

definition is_cycle_complete :: "neighbor_sync_state \<Rightarrow> bool" where
  "is_cycle_complete st \<longleftrightarrow> ns_priority_order st = [] \<and> ns_cursor st \<ge> length (ns_order st)"

definition start_new_cycle :: "peer_id list \<Rightarrow> neighbor_sync_state \<Rightarrow> neighbor_sync_state" where
  "start_new_cycle neighbors st =
     (if is_cycle_complete st
      then (new_cycle neighbors)\<lparr>ns_last_sync_times := ns_last_sync_times st,
         ns_bootstrap_claims := ns_bootstrap_claims st,
         ns_bootstrap_claim_history := ns_bootstrap_claim_history st,
         ns_prune_cursor := ns_prune_cursor st\<rparr>
      else st)"

section \<open>Selecting peers\<close>

definition peer_on_cooldown :: "neighbor_sync_state \<Rightarrow> peer_id \<Rightarrow> instant \<Rightarrow> duration \<Rightarrow> bool" where
  "peer_on_cooldown st peer now cooldown =
     is_some_and (ns_last_sync_times st peer) (\<lambda>last_sync. now - last_sync < cooldown)"

function next_priority ::
  "instant \<Rightarrow> duration \<Rightarrow> neighbor_sync_state \<Rightarrow> peer_id option \<times> neighbor_sync_state" where
  "next_priority now cooldown st =
     (case ns_priority_order st of
        [] \<Rightarrow> (None, st)
      | peer # rest \<Rightarrow>
          let st' = snd (sync_remove_peer peer (st\<lparr>ns_priority_order := rest\<rparr>))
          in if peer_on_cooldown st peer now cooldown then next_priority now cooldown st'
             else (Some peer, st'))"
  by auto
termination
  by (relation "measure (\<lambda>(_, _, st). length (ns_priority_order st))")
    (auto simp: sync_remove_peer_def Let_def le_imp_less_Suc split: option.split)

declare next_priority.simps [simp del]

function next_in_order ::
  "instant \<Rightarrow> duration \<Rightarrow> neighbor_sync_state \<Rightarrow> peer_id option \<times> neighbor_sync_state" where
  "next_in_order now cooldown st =
     (if ns_cursor st < length (ns_order st)
      then let peer = ns_order st ! ns_cursor st
           in if peer_on_cooldown st peer now cooldown
              then next_in_order now cooldown (st\<lparr>ns_order := remove_at (ns_cursor st) (ns_order st)\<rparr>)
              else (Some peer, st\<lparr>ns_cursor := ns_cursor st + 1\<rparr>)
      else (None, st))"
  by auto
termination
  by (relation "measure (\<lambda>(_, _, st). length (ns_order st) - ns_cursor st)") (auto simp: remove_at_def)

declare next_in_order.simps [simp del]

definition select_next_sync_peer ::
  "instant \<Rightarrow> duration \<Rightarrow> neighbor_sync_state \<Rightarrow> peer_id option \<times> neighbor_sync_state" where
  "select_next_sync_peer now cooldown st =
     (case next_priority now cooldown st of
        (Some peer, st') \<Rightarrow> (Some peer, st')
      | (None, st') \<Rightarrow> next_in_order now cooldown st')"

fun select_sync_batch ::
  "nat \<Rightarrow> instant \<Rightarrow> duration \<Rightarrow> neighbor_sync_state \<Rightarrow> peer_id list \<times> neighbor_sync_state" where
  "select_sync_batch 0 now cooldown st = ([], st)"
| "select_sync_batch (Suc slots) now cooldown st =
     (case select_next_sync_peer now cooldown st of
        (None, st') \<Rightarrow> ([], st')
      | (Some peer, st') \<Rightarrow>
          let (batch, st'') = select_sync_batch slots now cooldown st' in (peer # batch, st''))"

definition handle_sync_failure ::
  "peer_id \<Rightarrow> instant \<Rightarrow> duration \<Rightarrow> neighbor_sync_state \<Rightarrow> peer_id option \<times> neighbor_sync_state" where
  "handle_sync_failure failed_peer now cooldown st =
     select_next_sync_peer now cooldown (snd (sync_remove_peer failed_peer st))"

definition record_successful_sync :: "peer_id \<Rightarrow> instant \<Rightarrow> neighbor_sync_state \<Rightarrow> neighbor_sync_state" where
  "record_successful_sync peer now st = st\<lparr>ns_last_sync_times := (ns_last_sync_times st)(peer \<mapsto> now)\<rparr>"

section \<open>Hint sets\<close>

record sent_replica_hint =
  rh_key :: xor_name
  rh_close_peers :: "peer_id set"

record peer_sync_hints =
  sh_replica_hints :: "sent_replica_hint list"
  sh_paid_hints :: "xor_name list"

text \<open>
  The stored and the paid keys are read from storage, \<open>None\<close> for a failed read; \<open>fcs k n\<close> are the
  \<open>n\<close> closest peers to \<open>k\<close> including this node.
\<close>

fun replica_hint_loop ::
  "(xor_name \<Rightarrow> nat \<Rightarrow> peer_id list) \<Rightarrow> nat \<Rightarrow> peer_id \<Rightarrow> xor_name list \<Rightarrow> sent_replica_hint list" where
  "replica_hint_loop fcs width peer [] = []"
| "replica_hint_loop fcs width peer (key # ks) =
     (let close_peers = set (fcs key width)
      in if peer \<in> close_peers
         then \<lparr>rh_key = key, rh_close_peers = close_peers\<rparr> # replica_hint_loop fcs width peer ks
         else replica_hint_loop fcs width peer ks)"

definition build_replica_hints_for_peer_with_close_groups ::
  "(xor_name \<Rightarrow> nat \<Rightarrow> peer_id list) \<Rightarrow> xor_name list option \<Rightarrow> peer_id \<Rightarrow> nat \<Rightarrow> sent_replica_hint list" where
  "build_replica_hints_for_peer_with_close_groups fcs all_keys peer width =
     (case all_keys of None \<Rightarrow> [] | Some ks \<Rightarrow> replica_hint_loop fcs width peer ks)"

definition build_replica_hints_for_peer ::
  "(xor_name \<Rightarrow> nat \<Rightarrow> peer_id list) \<Rightarrow> xor_name list option \<Rightarrow> peer_id \<Rightarrow> nat \<Rightarrow> xor_name list" where
  "build_replica_hints_for_peer fcs all_keys peer width =
     map rh_key (build_replica_hints_for_peer_with_close_groups fcs all_keys peer width)"

definition build_paid_hints_for_peer ::
  "(xor_name \<Rightarrow> nat \<Rightarrow> peer_id list) \<Rightarrow> xor_name list option \<Rightarrow> peer_id \<Rightarrow> nat \<Rightarrow> xor_name list" where
  "build_paid_hints_for_peer fcs all_paid_keys peer width =
     (case all_paid_keys of None \<Rightarrow> [] | Some ks \<Rightarrow> filter (\<lambda>key. peer \<in> set (fcs key width)) ks)"

text \<open>
  The batched builder updates the hints of all target peers per key. The loop over the nodes close
  to a paid key appends the key once per occurrence of a target peer.
\<close>

definition push_replica_hint ::
  "(xor_name \<Rightarrow> nat \<Rightarrow> peer_id list) \<Rightarrow> nat \<Rightarrow> peer_id set \<Rightarrow> xor_name \<Rightarrow> (peer_id \<rightharpoonup> peer_sync_hints) \<Rightarrow>
     (peer_id \<rightharpoonup> peer_sync_hints)" where
  "push_replica_hint fcs width targets key hints =
     (let close_peers = set (fcs key width)
      in (\<lambda>peer. if peer \<in> close_peers \<inter> targets
            then map_option (\<lambda>h. h\<lparr>sh_replica_hints := sh_replica_hints h @
              [\<lparr>rh_key = key, rh_close_peers = close_peers\<rparr>]\<rparr>) (hints peer)
            else hints peer))"

fun push_paid_hints ::
  "peer_id set \<Rightarrow> xor_name \<Rightarrow> peer_id list \<Rightarrow> (peer_id \<rightharpoonup> peer_sync_hints) \<Rightarrow> (peer_id \<rightharpoonup> peer_sync_hints)" where
  "push_paid_hints targets key [] hints = hints"
| "push_paid_hints targets key (node # nodes) hints =
     push_paid_hints targets key nodes
       (if node \<in> targets
        then hints(node := map_option (\<lambda>h. h\<lparr>sh_paid_hints := sh_paid_hints h @ [key]\<rparr>) (hints node))
        else hints)"

definition build_sync_hints_for_peers ::
  "(xor_name \<Rightarrow> nat \<Rightarrow> peer_id list) \<Rightarrow> xor_name list option \<Rightarrow> xor_name list option \<Rightarrow> peer_id list \<Rightarrow> nat \<Rightarrow> nat \<Rightarrow>
     (peer_id \<rightharpoonup> peer_sync_hints)" where
  "build_sync_hints_for_peers fcs all_keys all_paid_keys peers width paid_width =
     (let targets = set peers;
          hints = (\<lambda>peer. if peer \<in> targets then Some \<lparr>sh_replica_hints = [], sh_paid_hints = []\<rparr> else None)
      in if peers = [] then hints
         else fold (\<lambda>key. push_paid_hints targets key (fcs key paid_width)) (unwrap_or all_paid_keys [])
                (fold (push_replica_hint fcs width targets) (unwrap_or all_keys []) hints))"

record neighbor_sync_response =
  nr_replica_hints :: "xor_name list"
  nr_paid_hints :: "xor_name list"
  nr_bootstrapping :: bool

text \<open>Answering a sync request; the piggybacked commitment is part of the message only.\<close>

definition handle_sync_request_with_proofs ::
  "(xor_name \<Rightarrow> nat \<Rightarrow> peer_id list) \<Rightarrow> (peer_id \<Rightarrow> bool) \<Rightarrow> xor_name list option \<Rightarrow> xor_name list option \<Rightarrow>
     replication_config \<Rightarrow> bool \<Rightarrow> peer_id \<Rightarrow> neighbor_sync_response \<times> sent_replica_hint list \<times> bool" where
  "handle_sync_request_with_proofs fcs is_in_routing_table all_keys all_paid_keys config is_bootstrapping sender =
     (let sent = build_replica_hints_for_peer_with_close_groups fcs all_keys sender (close_group_size config)
      in (\<lparr>nr_replica_hints = map rh_key sent,
           nr_paid_hints = build_paid_hints_for_peer fcs all_paid_keys sender (paid_list_close_group_size config),
           nr_bootstrapping = is_bootstrapping\<rparr>, sent, is_in_routing_table sender))"

section \<open>Pending peers\<close>

text \<open>The peers a cycle still has to reach.\<close>

definition pending :: "neighbor_sync_state \<Rightarrow> peer_id set" where
  "pending st = set (ns_priority_order st) \<union> set (drop (ns_cursor st) (ns_order st))"

definition sync_inv :: "neighbor_sync_state \<Rightarrow> bool" where
  "sync_inv st \<longleftrightarrow> distinct (ns_priority_order st) \<and> distinct (ns_order st) \<and>
     ns_cursor st \<le> length (ns_order st)"

lemma position_Some: "position x xs = Some i \<Longrightarrow> i < length xs \<and> xs ! i = x"
  by (induction xs arbitrary: i) (auto split: if_splits)

lemma position_None: "position x xs = None \<longleftrightarrow> x \<notin> set xs"
  by (induction xs) auto

lemma filter_out_absent: "x \<notin> set xs \<Longrightarrow> filter (\<lambda>y. y \<noteq> x) xs = xs"
  by (induction xs) auto

lemma filter_out_position:
  "distinct xs \<Longrightarrow> position x xs = Some i \<Longrightarrow> remove_at i xs = filter (\<lambda>y. y \<noteq> x) xs"
  by (induction xs arbitrary: i) (auto simp: remove_at_def filter_out_absent split: if_splits)

lemma drop_filter_out:
  "distinct xs \<Longrightarrow> position x xs = Some i \<Longrightarrow>
   drop (if i < c then c - 1 else c) (filter (\<lambda>y. y \<noteq> x) xs) = filter (\<lambda>y. y \<noteq> x) (drop c xs)"
proof (induction xs arbitrary: i c)
  case (Cons y ys)
  show ?case
  proof (cases "y = x")
    case True
    with Cons.prems have "x \<notin> set ys" "i = 0" by auto
    moreover from this have "x \<notin> set (drop c' ys)" for c' by (auto dest: in_set_dropD)
    ultimately show ?thesis using True by (cases c) (simp_all add: filter_out_absent)
  next
    case False
    with Cons.prems obtain i' where i: "i = Suc i'" "position x ys = Some i'" by auto
    from Cons.IH [OF _ i(2)] Cons.prems(1) have IH: "\<And>c. drop (if i' < c then c - 1 else c)
        (filter (\<lambda>y. y \<noteq> x) ys) = filter (\<lambda>y. y \<noteq> x) (drop c ys)" by simp
    show ?thesis
    proof (cases c)
      case (Suc c')
      with False i IH [of c'] show ?thesis by (cases c') (auto split: if_splits)
    qed (use False in simp)
  qed
qed simp

lemma remove_peer_pending:
  assumes "sync_inv st"
  shows "sync_inv (snd (sync_remove_peer p st)) \<and> pending (snd (sync_remove_peer p st)) = pending st - {p} \<and>
    ns_last_sync_times (snd (sync_remove_peer p st)) = ns_last_sync_times st"
proof (cases "position p (ns_order st)")
  case None
  then have "p \<notin> set (ns_order st)" by (simp add: position_None)
  with None assms show ?thesis
    by (auto simp: sync_remove_peer_def sync_inv_def pending_def Let_def dest: in_set_dropD)
next
  case (Some i)
  let ?c = "if i < ns_cursor st then ns_cursor st - 1 else ns_cursor st"
  have d: "distinct (ns_order st)" "ns_cursor st \<le> length (ns_order st)" using assms by (auto simp: sync_inv_def)
  have st': "snd (sync_remove_peer p st) = st\<lparr>ns_priority_order := filter (\<lambda>q. q \<noteq> p) (ns_priority_order st),
      ns_order := filter (\<lambda>y. y \<noteq> p) (ns_order st), ns_cursor := ?c\<rparr>"
    using Some filter_out_position [OF d(1) Some] by (simp add: sync_remove_peer_def Let_def)
  have "length (remove_at i (ns_order st)) = length (ns_order st) - 1"
    using position_Some [OF Some] by (auto simp: remove_at_def)
  then have "length (filter (\<lambda>y. y \<noteq> p) (ns_order st)) = length (ns_order st) - 1"
    using filter_out_position [OF d(1) Some] by simp
  then have "?c \<le> length (filter (\<lambda>y. y \<noteq> p) (ns_order st))"
    using d(2) position_Some [OF Some] by auto
  then show ?thesis unfolding st'
    using assms drop_filter_out [OF d(1) Some, of "ns_cursor st"] by (auto simp: sync_inv_def pending_def)
qed

section \<open>Selection\<close>

text \<open>What one selection step does: it drops peers on cooldown and returns a pending one that is not.\<close>

definition selects ::
  "instant \<Rightarrow> duration \<Rightarrow> neighbor_sync_state \<Rightarrow> peer_id set \<Rightarrow> neighbor_sync_state \<Rightarrow> bool" where
  "selects now cooldown st chosen st' \<longleftrightarrow> sync_inv st' \<and> ns_last_sync_times st' = ns_last_sync_times st \<and>
     chosen \<subseteq> pending st \<and> pending st' \<subseteq> pending st - chosen \<and>
     (\<forall>p\<in>chosen. \<not> peer_on_cooldown st p now cooldown) \<and>
     (\<forall>p\<in>pending st - chosen - pending st'. peer_on_cooldown st p now cooldown)"

lemma cooldown_cong: "ns_last_sync_times st' = ns_last_sync_times st \<Longrightarrow> peer_on_cooldown st' = peer_on_cooldown st"
  by (intro ext) (simp add: peer_on_cooldown_def)

lemma selects_trans:
  "selects now cooldown st A st' \<Longrightarrow> selects now cooldown st' B st'' \<Longrightarrow> selects now cooldown st (A \<union> B) st''"
  unfolding selects_def using cooldown_cong [of st' st] by auto

lemma selects_remove:
  assumes "sync_inv st" "ns_priority_order st = p # rest"
  defines "st' \<equiv> snd (sync_remove_peer p (st\<lparr>ns_priority_order := rest\<rparr>))"
  shows "selects now cooldown st (if peer_on_cooldown st p now cooldown then {} else {p}) st'"
proof -
  let ?st = "st\<lparr>ns_priority_order := rest\<rparr>"
  have "sync_inv ?st" using assms(1,2) by (simp add: sync_inv_def)
  from remove_peer_pending [OF this, of p] have "sync_inv st'" "pending st' = pending ?st - {p}"
      "ns_last_sync_times st' = ns_last_sync_times st" by (auto simp: st'_def)
  moreover have "pending st = insert p (pending ?st)" using assms(2) by (simp add: pending_def)
  ultimately show ?thesis by (auto simp: selects_def)
qed

lemma next_priority_selects:
  "sync_inv st \<Longrightarrow> next_priority now cooldown st = (r, st') \<Longrightarrow>
   selects now cooldown st (set_option r) st' \<and> (r = None \<longrightarrow> ns_priority_order st' = [])"
proof (induction now cooldown st rule: next_priority.induct)
  case (1 now cooldown st)
  show ?case
  proof (cases "ns_priority_order st")
    case Nil
    with "1.prems" show ?thesis by (auto simp: next_priority.simps [of now cooldown st] selects_def)
  next
    case (Cons p rest)
    let ?st = "snd (sync_remove_peer p (st\<lparr>ns_priority_order := rest\<rparr>))"
    note s = selects_remove [OF "1.prems"(1) Cons, of now cooldown]
    show ?thesis
    proof (cases "peer_on_cooldown st p now cooldown")
      case True
      have "sync_inv ?st" using s by (simp add: selects_def)
      moreover have "next_priority now cooldown ?st = (r, st')"
        using "1.prems"(2) Cons True by (simp add: next_priority.simps [of now cooldown st])
      ultimately have "selects now cooldown ?st (set_option r) st' \<and> (r = None \<longrightarrow> ns_priority_order st' = [])"
        using "1.IH" [OF Cons refl True] by blast
      with s True show ?thesis using selects_trans [of now cooldown st "{}" ?st "set_option r" st'] by simp
    next
      case False
      with s "1.prems"(2) Cons show ?thesis by (auto simp: next_priority.simps [of now cooldown st])
    qed
  qed
qed

lemma next_in_order_selects:
  "sync_inv st \<Longrightarrow> ns_priority_order st = [] \<Longrightarrow> next_in_order now cooldown st = (r, st') \<Longrightarrow>
   selects now cooldown st (set_option r) st' \<and> (r = None \<longrightarrow> is_cycle_complete st')"
proof (induction now cooldown st rule: next_in_order.induct)
  case (1 now cooldown st)
  show ?case
  proof (cases "ns_cursor st < length (ns_order st)")
    case True
    let ?p = "ns_order st ! ns_cursor st" and ?st = "st\<lparr>ns_order := remove_at (ns_cursor st) (ns_order st)\<rparr>"
    have d: "distinct (ns_order st)" using "1.prems"(1) by (simp add: sync_inv_def)
    have dr: "drop (ns_cursor st) (ns_order st) = ?p # drop (Suc (ns_cursor st)) (ns_order st)"
      using True by (simp add: Cons_nth_drop_Suc)
    have notin: "?p \<notin> set (drop (Suc (ns_cursor st)) (ns_order st))"
      using d True by (metis distinct.simps(2) distinct_drop dr)
    show ?thesis
    proof (cases "peer_on_cooldown st ?p now cooldown")
      case cd: True
      have split: "ns_order st = take (ns_cursor st) (ns_order st) @ ?p # drop (Suc (ns_cursor st)) (ns_order st)"
        using True by (rule id_take_nth_drop)
      have "distinct (remove_at (ns_cursor st) (ns_order st))"
        using d unfolding remove_at_def by (subst (asm) split) auto
      moreover have "pending ?st = set (drop (Suc (ns_cursor st)) (ns_order st))"
        using True "1.prems"(2) by (simp add: pending_def remove_at_def)
      moreover have "pending st = insert ?p (set (drop (Suc (ns_cursor st)) (ns_order st)))"
        using "1.prems"(2) by (simp add: pending_def dr)
      ultimately have s: "selects now cooldown st {} ?st"
        using True cd "1.prems"(1) by (auto simp: selects_def sync_inv_def remove_at_def)
      then have "sync_inv ?st" by (simp add: selects_def)
      moreover have "next_in_order now cooldown ?st = (r, st')"
        using "1.prems"(3) True cd by (simp add: next_in_order.simps [of now cooldown st])
      ultimately have "selects now cooldown ?st (set_option r) st' \<and> (r = None \<longrightarrow> is_cycle_complete st')"
        using "1.IH" [OF True refl cd] "1.prems"(2) by simp
      with s show ?thesis using selects_trans [of now cooldown st "{}" ?st "set_option r" st'] by simp
    next
      case False
      then have "r = Some ?p" "st' = st\<lparr>ns_cursor := ns_cursor st + 1\<rparr>"
        using "1.prems"(3) True by (auto simp: next_in_order.simps [of now cooldown st])
      with False True "1.prems"(1,2) dr notin show ?thesis
        by (auto simp: selects_def sync_inv_def pending_def)
    qed
  next
    case False
    with "1.prems" show ?thesis
      by (auto simp: next_in_order.simps [of now cooldown st] selects_def is_cycle_complete_def)
  qed
qed

lemma select_next_selects:
  assumes "sync_inv st" "select_next_sync_peer now cooldown st = (r, st')"
  shows "selects now cooldown st (set_option r) st' \<and> (r = None \<longrightarrow> is_cycle_complete st')"
proof -
  obtain r1 st1 where n: "next_priority now cooldown st = (r1, st1)" by fastforce
  note s1 = next_priority_selects [OF assms(1) n]
  show ?thesis
  proof (cases r1)
    case None
    then have "next_in_order now cooldown st1 = (r, st')"
      using assms(2) n by (simp add: select_next_sync_peer_def)
    with s1 None next_in_order_selects [of st1 now cooldown r st']
      selects_trans [of now cooldown st "{}" st1 "set_option r" st'] show ?thesis
      by (auto simp: selects_def [of now cooldown st "{}" st1])
  next
    case (Some p)
    with n s1 assms(2) show ?thesis by (auto simp: select_next_sync_peer_def)
  qed
qed

lemma select_batch_selects:
  "sync_inv st \<Longrightarrow> select_sync_batch n now cooldown st = (batch, st') \<Longrightarrow>
   selects now cooldown st (set batch) st' \<and> distinct batch \<and> length batch \<le> n \<and>
   (length batch < n \<longrightarrow> is_cycle_complete st')"
proof (induction n arbitrary: st batch)
  case 0
  then show ?case by (auto simp: selects_def)
next
  case (Suc n)
  obtain r st1 where sel: "select_next_sync_peer now cooldown st = (r, st1)" by fastforce
  note s1 = select_next_selects [OF Suc.prems(1) sel]
  show ?case
  proof (cases r)
    case None
    with s1 sel Suc.prems(2) show ?thesis by auto
  next
    case (Some p)
    obtain b where b: "select_sync_batch n now cooldown st1 = (b, st')" "batch = p # b"
      using Suc.prems(2) sel Some by (auto split: prod.splits)
    have "sync_inv st1" using s1 by (simp add: selects_def)
    from Suc.IH [OF this b(1)] have IH: "selects now cooldown st1 (set b) st'" "distinct b" "length b \<le> n"
        "length b < n \<longrightarrow> is_cycle_complete st'" by auto
    have "p \<notin> set b" using s1 IH(1) Some by (auto simp: selects_def)
    with IH s1 Some b(2) selects_trans [of now cooldown st "{p}" st1 "set b" st'] show ?thesis by simp
  qed
qed

section \<open>All operations on the cycle state\<close>

text \<open>The reaction to a change of the closest peers: departed peers are dropped, entrants queued.\<close>

definition on_close_peers_changed ::
  "nat \<Rightarrow> peer_id list \<Rightarrow> peer_id list \<Rightarrow> neighbor_sync_state \<Rightarrow> neighbor_sync_state" where
  "on_close_peers_changed scope old new st =
     (let old_peers = set (take scope old);
          new_scoped = take scope new;
          entrants = filter (\<lambda>p. p \<notin> old_peers) new_scoped
      in snd (queue_priority_peers entrants (snd (retain_sync_peers (set new_scoped) st))))"

inductive sync_step :: "neighbor_sync_state \<Rightarrow> neighbor_sync_state \<Rightarrow> bool" where
  observe: "sync_step st (snd (observe_bootstrap_claim p now grace st))"
| clear: "sync_step st (snd (clear_active_bootstrap_claim p st))"
| peers_changed: "sync_step st (on_close_peers_changed scope old new st)"
| remove: "sync_step st (snd (sync_remove_peer p st))"
| new_cycle: "distinct neighbors \<Longrightarrow> sync_step st (start_new_cycle neighbors st)"
| batch: "sync_step st (snd (select_sync_batch n now cooldown st))"
| failure: "sync_step st (snd (handle_sync_failure p now cooldown st))"
| synced: "sync_step st (record_successful_sync p now st)"

definition claims_inv :: "neighbor_sync_state \<Rightarrow> bool" where
  "claims_inv st \<longleftrightarrow> (\<forall>p t. ns_bootstrap_claims st p = Some t \<longrightarrow> ns_bootstrap_claim_history st p = Some t)"

definition same_claims :: "neighbor_sync_state \<Rightarrow> neighbor_sync_state \<Rightarrow> bool" where
  "same_claims st st' \<longleftrightarrow> ns_bootstrap_claims st' = ns_bootstrap_claims st \<and>
     ns_bootstrap_claim_history st' = ns_bootstrap_claim_history st"

lemma same_claims_refl [simp]: "same_claims st st"
  by (simp add: same_claims_def)

lemma same_claims_trans: "same_claims a b \<Longrightarrow> same_claims b c \<Longrightarrow> same_claims a c"
  by (simp add: same_claims_def)

lemma remove_peer_claims: "same_claims st (snd (sync_remove_peer p st))"
  by (simp add: same_claims_def sync_remove_peer_def Let_def split: prod.split)

lemma next_priority_claims: "same_claims st (snd (next_priority now cooldown st))"
proof (induction now cooldown st rule: next_priority.induct)
  case (1 now cooldown st)
  show ?case
  proof (cases "ns_priority_order st")
    case (Cons p rest)
    let ?st = "snd (sync_remove_peer p (st\<lparr>ns_priority_order := rest\<rparr>))"
    have "same_claims st ?st" using remove_peer_claims [of "st\<lparr>ns_priority_order := rest\<rparr>" p]
      by (simp add: same_claims_def)
    with "1.IH" [OF Cons refl] Cons show ?thesis
      by (auto simp: next_priority.simps [of now cooldown st] Let_def intro: same_claims_trans)
  qed (simp add: next_priority.simps [of now cooldown st])
qed

lemma next_in_order_claims: "same_claims st (snd (next_in_order now cooldown st))"
proof (induction now cooldown st rule: next_in_order.induct)
  case (1 now cooldown st)
  then show ?case by (auto simp: next_in_order.simps [of now cooldown st] Let_def same_claims_def)
qed

lemma select_next_claims: "same_claims st (snd (select_next_sync_peer now cooldown st))"
  using next_priority_claims [of st now cooldown] next_in_order_claims [of "snd (next_priority now cooldown st)" now cooldown]
  by (auto simp: select_next_sync_peer_def intro: same_claims_trans split: prod.split option.split)

lemma select_batch_claims: "same_claims st (snd (select_sync_batch n now cooldown st))"
proof (induction n arbitrary: st)
  case (Suc n)
  show ?case
    using select_next_claims [of st now cooldown] Suc.IH [of "snd (select_next_sync_peer now cooldown st)"]
    by (auto split: prod.splits option.splits intro: same_claims_trans)
qed simp

lemma queue_priority_claims: "same_claims st (snd (queue_priority_peers ps st))"
  by (induction ps st rule: queue_priority_peers.induct)
    (auto simp: same_claims_def split: prod.splits)

lemma peers_changed_claims: "same_claims st (on_close_peers_changed scope old new st)"
  using queue_priority_claims [of "snd (retain_sync_peers (set (take scope new)) st)"
      "filter (\<lambda>p. p \<notin> set (take scope old)) (take scope new)"]
  by (auto simp: on_close_peers_changed_def Let_def retain_sync_peers_def same_claims_def split: prod.splits)

lemma queue_priority_inv: "sync_inv st \<Longrightarrow> sync_inv (snd (queue_priority_peers ps st))"
  by (induction ps st rule: queue_priority_peers.induct) (auto simp: sync_inv_def split: prod.splits)

lemma retain_order_eq:
  "retain_order C c idx xs = (filter (\<lambda>p. p \<in> C) xs, length (filter (\<lambda>p. p \<in> C) (take (c - idx) xs)))"
proof (induction xs arbitrary: idx)
  case (Cons x xs)
  show ?case
  proof (cases "idx < c")
    case True
    then have "c - idx = Suc (c - (idx + 1))" by simp
    then have "take (c - idx) (x # xs) = x # take (c - (idx + 1)) xs" by simp
    with Cons True show ?thesis by simp
  next
    case False
    with Cons show ?thesis by simp
  qed
qed simp

lemma retain_sync_inv: "sync_inv st \<Longrightarrow> sync_inv (snd (retain_sync_peers C st))"
proof -
  assume inv: "sync_inv st"
  have "length (filter (\<lambda>p. p \<in> C) (take c xs)) \<le> length (filter (\<lambda>p. p \<in> C) xs)" for c and xs :: "peer_id list"
    by (metis append_take_drop_id filter_append le_add1 length_append)
  with inv show ?thesis by (simp add: sync_inv_def retain_sync_peers_def retain_order_eq Let_def)
qed

text \<open>Retaining keeps exactly the pending close peers: nobody is scanned twice or skipped.\<close>

lemma retain_sync_pending: "pending (snd (retain_sync_peers C st)) = pending st \<inter> C"
proof -
  have "drop (length (filter (\<lambda>p. p \<in> C) (take c xs))) (filter (\<lambda>p. p \<in> C) xs) = filter (\<lambda>p. p \<in> C) (drop c xs)"
    for c and xs :: "peer_id list"
    by (metis append_eq_conv_conj append_take_drop_id filter_append)
  then show ?thesis by (auto simp: pending_def retain_sync_peers_def retain_order_eq Let_def)
qed

definition cycle_inv :: "neighbor_sync_state \<Rightarrow> bool" where
  "cycle_inv st \<longleftrightarrow> sync_inv st \<and> claims_inv st"

lemma claims_inv_same: "claims_inv st \<Longrightarrow> same_claims st st' \<Longrightarrow> claims_inv st'"
  by (simp add: claims_inv_def same_claims_def)

lemma select_next_inv: "sync_inv st \<Longrightarrow> sync_inv (snd (select_next_sync_peer now cooldown st))"
  using select_next_selects [of st now cooldown] by (cases "select_next_sync_peer now cooldown st") (auto simp: selects_def)

lemma cycle_inv_step: "cycle_inv st \<Longrightarrow> sync_step st st' \<Longrightarrow> cycle_inv st'"
proof (erule sync_step.cases, goal_cases)
  case (1 st p now grace)
  then show ?case
    by (auto simp: cycle_inv_def observe_bootstrap_claim_def sync_inv_def claims_inv_def split: option.splits)
next
  case (2 st p)
  then show ?case by (auto simp: cycle_inv_def clear_active_bootstrap_claim_def sync_inv_def claims_inv_def)
next
  case (3 st scope old new)
  then show ?case using claims_inv_same [OF _ peers_changed_claims]
    by (auto simp: cycle_inv_def on_close_peers_changed_def Let_def intro: queue_priority_inv retain_sync_inv)
next
  case (4 st p)
  then show ?case using remove_peer_pending claims_inv_same [OF _ remove_peer_claims]
    by (auto simp: cycle_inv_def)
next
  case (5 neighbors st)
  then show ?case
    by (auto simp: cycle_inv_def start_new_cycle_def new_cycle_def sync_inv_def claims_inv_def)
next
  case (6 st n now cooldown)
  then have "claims_inv st'" using claims_inv_same [OF _ select_batch_claims] by (simp add: cycle_inv_def)
  with 6 show ?case using select_batch_selects [of st n now cooldown]
    by (cases "select_sync_batch n now cooldown st") (auto simp: cycle_inv_def selects_def)
next
  case (7 st p now cooldown)
  then show ?case
    using remove_peer_pending [of st p] claims_inv_same [OF claims_inv_same [OF _ remove_peer_claims] select_next_claims]
    by (auto simp: cycle_inv_def handle_sync_failure_def intro: select_next_inv)
next
  case (8 st p now)
  then show ?case by (auto simp: cycle_inv_def record_successful_sync_def sync_inv_def claims_inv_def)
qed

interpretation sync_cycle: invariant_system sync_step "new_cycle []" cycle_inv
  by unfold_locales (simp add: cycle_inv_def new_cycle_def sync_inv_def claims_inv_def, rule cycle_inv_step)

section \<open>A whole cycle\<close>

text \<open>Batches selected one after the other at the given times.\<close>

fun cycle_batches ::
  "nat \<Rightarrow> duration \<Rightarrow> instant list \<Rightarrow> neighbor_sync_state \<Rightarrow> peer_id list \<times> neighbor_sync_state" where
  "cycle_batches n cooldown [] st = ([], st)"
| "cycle_batches n cooldown (now # nows) st =
     (let (batch, st1) = select_sync_batch n now cooldown st;
          (batches, st2) = cycle_batches n cooldown nows st1
      in (batch @ batches, st2))"

lemma cycle_complete_pending: "is_cycle_complete st \<longleftrightarrow> pending st = {}"
  by (auto simp: is_cycle_complete_def pending_def)

lemma finite_pending: "finite (pending st)"
  by (simp add: pending_def)

lemma cycle_batches_spec:
  "sync_inv st \<Longrightarrow> cycle_batches n cooldown nows st = (bs, st') \<Longrightarrow>
   sync_inv st' \<and> ns_last_sync_times st' = ns_last_sync_times st \<and> distinct bs \<and> set bs \<subseteq> pending st \<and>
   pending st' \<subseteq> pending st - set bs \<and>
   (\<forall>p\<in>set bs. \<exists>t\<in>set nows. \<not> peer_on_cooldown st p t cooldown) \<and>
   (\<forall>p\<in>pending st - set bs - pending st'. \<exists>t\<in>set nows. peer_on_cooldown st p t cooldown) \<and>
   (card (pending st) \<le> length nows * n \<longrightarrow> is_cycle_complete st')"
proof (induction nows arbitrary: st bs)
  case Nil
  then show ?case by (auto simp: cycle_complete_pending finite_pending)
next
  case (Cons now nows)
  obtain b st1 bs1 where b: "select_sync_batch n now cooldown st = (b, st1)"
      "cycle_batches n cooldown nows st1 = (bs1, st')" "bs = b @ bs1"
    using Cons.prems(2) by (auto split: prod.splits)
  from select_batch_selects [OF Cons.prems(1) b(1)] have s: "sync_inv st1"
      "ns_last_sync_times st1 = ns_last_sync_times st" "set b \<subseteq> pending st" "pending st1 \<subseteq> pending st - set b"
      "\<forall>p\<in>set b. \<not> peer_on_cooldown st p now cooldown"
      "\<forall>p\<in>pending st - set b - pending st1. peer_on_cooldown st p now cooldown"
      "distinct b" "length b < n \<longrightarrow> is_cycle_complete st1" "length b \<le> n"
    by (auto simp: selects_def)
  note cd = cooldown_cong [OF s(2)]
  note IH = Cons.IH [OF s(1) b(2)]
  have "is_cycle_complete st'" if "card (pending st) \<le> length (now # nows) * n"
  proof (cases "length b < n")
    case True
    then have "pending st1 = {}" using s(8) by (simp add: cycle_complete_pending)
    with IH show ?thesis by (auto simp: cycle_complete_pending)
  next
    case False
    have "card (pending st1) \<le> card (pending st - set b)"
      using s(4) finite_pending by (intro card_mono) auto
    also have "\<dots> = card (pending st) - length b"
      using s(3,7) by (simp add: card_Diff_subset distinct_card)
    finally have "card (pending st1) \<le> length nows * n" using that False s(9) by simp
    with IH show ?thesis by simp
  qed
  with IH s b(3) show ?case unfolding cd by auto
qed

section \<open>Properties\<close>



lemma history_step:
  "sync_step st st' \<Longrightarrow> ns_bootstrap_claim_history st p = Some f \<Longrightarrow>
   ns_bootstrap_claim_history st' p = Some f \<and>
   (ns_bootstrap_claims st p = None \<longrightarrow> ns_bootstrap_claims st' p = None)"
proof (erule sync_step.cases, goal_cases)
  case (1 st p now grace)
  then show ?case by (auto simp: observe_bootstrap_claim_def split: option.splits)
next
  case (2 st p)
  then show ?case by (simp add: clear_active_bootstrap_claim_def)
next
  case (3 st scope old new)
  then show ?case using peers_changed_claims [of st scope old new] by (simp add: same_claims_def)
next
  case (4 st p)
  then show ?case using remove_peer_claims [of st p] by (simp add: same_claims_def)
next
  case (5 neighbors st)
  then show ?case by (simp add: start_new_cycle_def)
next
  case (6 st n now cooldown)
  then show ?case using select_batch_claims [of st n now cooldown] by (simp add: same_claims_def)
next
  case (7 st q now cooldown)
  then show ?case
    using remove_peer_claims [of st q] select_next_claims [of "snd (sync_remove_peer q st)" now cooldown]
    by (simp add: same_claims_def handle_sync_failure_def)
next
  case (8 st p now)
  then show ?case by (simp add: record_successful_sync_def)
qed

lemma history_run:
  "reachable_from sync_step st st' \<Longrightarrow> ns_bootstrap_claim_history st p = Some f \<Longrightarrow>
   ns_bootstrap_claim_history st' p = Some f \<and>
   (ns_bootstrap_claims st p = None \<longrightarrow> ns_bootstrap_claims st' p = None)"
  by (induction rule: reachable_from.induct) (use history_step in blast)+

lemma cycle_inv_run: "reachable_from sync_step st st' \<Longrightarrow> cycle_inv st \<Longrightarrow> cycle_inv st'"
  by (induction rule: reachable_from.induct) (auto intro: cycle_inv_step)



section \<open>Hints in batches\<close>

lemma fold_push_replica:
  "(fold (push_replica_hint fcs n targets) ks hints) p =
     (if p \<in> targets
      then map_option (\<lambda>h. h\<lparr>sh_replica_hints := sh_replica_hints h @ replica_hint_loop fcs n p ks\<rparr>) (hints p)
      else hints p)"
  by (induction ks arbitrary: hints) (auto simp: push_replica_hint_def Let_def option.map_comp comp_def
      option.map_ident)

lemma push_paid_hints_eq:
  "(push_paid_hints targets key nodes hints) p =
     (if p \<in> targets
      then map_option (\<lambda>h. h\<lparr>sh_paid_hints := sh_paid_hints h @ replicate (count_list nodes p) key\<rparr>) (hints p)
      else hints p)"
  by (induction nodes arbitrary: hints) (auto simp: option.map_comp comp_def option.map_ident)

lemma fold_push_paid:
  assumes "\<forall>k. distinct (fcs k n)"
  shows "(fold (\<lambda>key. push_paid_hints targets key (fcs key n)) ks hints) p =
     (if p \<in> targets
      then map_option (\<lambda>h. h\<lparr>sh_paid_hints := sh_paid_hints h @ filter (\<lambda>k. p \<in> set (fcs k n)) ks\<rparr>) (hints p)
      else hints p)"
proof (induction ks arbitrary: hints)
  case Nil
  then show ?case by (simp add: option.map_ident)
next
  case (Cons k ks)
  have "distinct xs \<Longrightarrow> count_list xs p = (if p \<in> set xs then 1 else 0)" for xs
    by (induction xs) auto
  with assms have "count_list (fcs k n) p = (if p \<in> set (fcs k n) then 1 else 0)" by blast
  with Cons show ?case by (auto simp: push_paid_hints_eq option.map_comp comp_def)
qed

text \<open>
  C24. Building hints for a whole batch is the same as building them peer by peer: with lookups that
  list a peer at most once, every peer of the batch gets exactly the replica and paid hints the
  single-peer builders give, and no other peer gets any.
\<close>

theorem batch_hints_equal_single:
  assumes "\<forall>k n. distinct (fcs k n)"
  shows "build_sync_hints_for_peers fcs all_keys all_paid_keys peers width paid_width p =
    (if p \<in> set peers
     then Some \<lparr>sh_replica_hints = build_replica_hints_for_peer_with_close_groups fcs all_keys p width,
        sh_paid_hints = build_paid_hints_for_peer fcs all_paid_keys p paid_width\<rparr>
     else None)"
  using assms
  by (auto simp: build_sync_hints_for_peers_def Let_def fold_push_paid fold_push_replica
      build_replica_hints_for_peer_with_close_groups_def build_paid_hints_for_peer_def split: option.splits)

theorem batch_hints_equal_single_witness:
  "build_sync_hints_for_peers (\<lambda>k n. [7, 8]) (Some [1]) (Some [2]) [7] 7 20 7 =
     Some \<lparr>sh_replica_hints = [\<lparr>rh_key = 1, rh_close_peers = {7, 8}\<rparr>], sh_paid_hints = [2]\<rparr>"
  using batch_hints_equal_single [of "\<lambda>k n. [7, 8]" "Some [1]" "Some [2]" "[7]" 7 20 7]
  by (simp add: build_replica_hints_for_peer_with_close_groups_def build_paid_hints_for_peer_def)

end
