(* ===== verification/Bootstrap.thy ===== *)
theory Bootstrap
  imports Scheduling
begin

text \<open>
  Bootstrap bookkeeping (src/src/replication/types.rs, bootstrap.rs and the callers in mod.rs): the
  state that says what a joining node still waits for, the operations on it, and the drain check
  that ends the bootstrap phase. The shared state is a value, a call under its write lock is a
  function on that value; \<open>is_bootstrapping\<close> is the separate flag of the engine.
\<close>

section \<open>State\<close>

record bootstrap_state =
  bs_drained :: bool
  bs_pending_peer_requests :: nat
  bs_pending_keys :: "xor_name set"
  bs_capacity_rejected_sources :: "peer_id set"

definition bootstrap_new :: bootstrap_state where
  "bootstrap_new = \<lparr>bs_drained = False, bs_pending_peer_requests = 0, bs_pending_keys = {},
     bs_capacity_rejected_sources = {}\<rparr>"

definition is_drained :: "bootstrap_state \<Rightarrow> bool" where
  "is_drained bs = bs_drained bs"

definition bs_remove_key :: "xor_name \<Rightarrow> bootstrap_state \<Rightarrow> bootstrap_state" where
  "bs_remove_key key bs = bs\<lparr>bs_pending_keys := bs_pending_keys bs - {key}\<rparr>"

definition mark_bootstrap_drained :: "bootstrap_state \<Rightarrow> bootstrap_state" where
  "mark_bootstrap_drained bs = bs\<lparr>bs_drained := True\<rparr>"

definition check_bootstrap_drained :: "bootstrap_state \<Rightarrow> replication_queues \<Rightarrow> bool \<times> bootstrap_state" where
  "check_bootstrap_drained bs q =
     (if bs_drained bs then (True, bs)
      else if bs_pending_peer_requests bs > 0 then (False, bs)
      else if bs_capacity_rejected_sources bs \<noteq> {} then (False, bs)
      else if is_bootstrap_work_empty q (bs_pending_keys bs) then (True, bs\<lparr>bs_drained := True\<rparr>)
      else (False, bs))"

definition note_capacity_rejected :: "peer_id \<Rightarrow> bootstrap_state \<Rightarrow> bootstrap_state" where
  "note_capacity_rejected source bs =
     bs\<lparr>bs_capacity_rejected_sources := insert source (bs_capacity_rejected_sources bs)\<rparr>"

definition clear_capacity_rejected :: "peer_id \<Rightarrow> bootstrap_state \<Rightarrow> bootstrap_state" where
  "clear_capacity_rejected source bs =
     bs\<lparr>bs_capacity_rejected_sources := bs_capacity_rejected_sources bs - {source}\<rparr>"

definition track_discovered_keys :: "xor_name set \<Rightarrow> bootstrap_state \<Rightarrow> bootstrap_state" where
  "track_discovered_keys ks bs = bs\<lparr>bs_pending_keys := bs_pending_keys bs \<union> ks\<rparr>"

definition increment_pending_requests :: "nat \<Rightarrow> bootstrap_state \<Rightarrow> bootstrap_state" where
  "increment_pending_requests n bs = bs\<lparr>bs_pending_peer_requests := bs_pending_peer_requests bs + n\<rparr>"

text \<open>\<open>saturating_sub\<close> of \<open>usize\<close> is the subtraction of natural numbers.\<close>

definition decrement_pending_requests :: "nat \<Rightarrow> bootstrap_state \<Rightarrow> bootstrap_state" where
  "decrement_pending_requests n bs = bs\<lparr>bs_pending_peer_requests := bs_pending_peer_requests bs - n\<rparr>"

section \<open>The callers of the drain check\<close>

text \<open>
  The state and the flag as a pair. \<open>drain_check\<close> is the check followed by
  \<open>complete_bootstrap\<close>, which clears the flag and wakes the waiters.
\<close>

type_synonym boot = "bootstrap_state \<times> bool"

definition complete_bootstrap :: "boot \<Rightarrow> boot" where
  "complete_bootstrap = (\<lambda>(bs, is_bootstrapping). (bs, False))"

definition drain_check :: "replication_queues \<Rightarrow> boot \<Rightarrow> boot" where
  "drain_check q = (\<lambda>(bs, is_bootstrapping).
     let (drained, bs') = check_bootstrap_drained bs q
     in if drained then complete_bootstrap (bs', is_bootstrapping) else (bs', is_bootstrapping))"

definition update_bootstrap_after_verification ::
  "xor_name list \<Rightarrow> replication_queues \<Rightarrow> boot \<Rightarrow> boot" where
  "update_bootstrap_after_verification terminal_keys q = (\<lambda>(bs, is_bootstrapping).
     if terminal_keys = [] \<or> is_drained bs then (bs, is_bootstrapping)
     else drain_check q (fold bs_remove_key terminal_keys bs, is_bootstrapping))"

text \<open>After a download left the pipeline (the end of the fetch worker's result handling).\<close>

definition update_bootstrap_after_fetch :: "xor_name \<Rightarrow> bool \<Rightarrow> replication_queues \<Rightarrow> boot \<Rightarrow> boot" where
  "update_bootstrap_after_fetch key terminal q = (\<lambda>(bs, is_bootstrapping).
     if terminal \<and> \<not> is_drained bs then drain_check q (bs_remove_key key bs, is_bootstrapping)
     else (bs, is_bootstrapping))"

section \<open>Lemmas\<close>

lemma fold_bs_remove_key:
  "fold bs_remove_key ks bs = bs\<lparr>bs_pending_keys := bs_pending_keys bs - set ks\<rparr>"
  by (induction ks arbitrary: bs) (simp_all add: bs_remove_key_def Diff_insert2 [symmetric])

lemmas bootstrap_ops =
  note_capacity_rejected_def clear_capacity_rejected_def track_discovered_keys_def
  increment_pending_requests_def decrement_pending_requests_def bs_remove_key_def
  mark_bootstrap_drained_def

lemma check_bootstrap_drained_fst: "fst (check_bootstrap_drained bs q) = bs_drained (snd (check_bootstrap_drained bs q))"
  by (simp add: check_bootstrap_drained_def)

lemma check_bootstrap_drained_frame:
  "bs_pending_keys (snd (check_bootstrap_drained bs q)) = bs_pending_keys bs"
  "bs_pending_peer_requests (snd (check_bootstrap_drained bs q)) = bs_pending_peer_requests bs"
  "bs_capacity_rejected_sources (snd (check_bootstrap_drained bs q)) = bs_capacity_rejected_sources bs"
  by (simp_all add: check_bootstrap_drained_def)

lemma drain_check_frame:
  "bs_pending_keys (fst (drain_check q b)) = bs_pending_keys (fst b)"
  "bs_pending_peer_requests (fst (drain_check q b)) = bs_pending_peer_requests (fst b)"
  "bs_capacity_rejected_sources (fst (drain_check q b)) = bs_capacity_rejected_sources (fst b)"
  by (cases b; simp add: drain_check_def check_bootstrap_drained_frame complete_bootstrap_def split_beta)+

lemma drain_check_drained:
  "bs_drained (fst (drain_check q (bs, f))) \<longleftrightarrow>
     bs_drained bs \<or> bs_pending_peer_requests bs = 0 \<and> bs_capacity_rejected_sources bs = {} \<and>
       (\<forall>k\<in>bs_pending_keys bs. \<not> contains_key q k)"
  by (auto simp: drain_check_def check_bootstrap_drained_def complete_bootstrap_def split_beta
      is_bootstrap_work_empty_def)

lemma drain_check_flag:
  "snd (drain_check q (bs, f)) \<longleftrightarrow> f \<and> \<not> bs_drained (fst (drain_check q (bs, f)))"
  by (auto simp: drain_check_def check_bootstrap_drained_def complete_bootstrap_def split_beta)

end
