(* ===== verification/Admission.thy ===== *)
theory Admission
  imports Bootstrap Config
begin

text \<open>
  Admission of neighbour-sync hints (src/src/replication/admission.rs) and their queueing
  (\<open>admit_and_queue_hints\<close> in mod.rs). The routing table is the function \<open>fcs\<close> (the closest peers
  of a key, this node included); reads of the chunk store and of the paid list are functions to
  \<open>bool option\<close>, \<open>None\<close> for a failed read.
\<close>

section \<open>Relevance of a key\<close>

type_synonym closest_fn = "xor_name \<Rightarrow> nat \<Rightarrow> peer_id list"

definition is_responsible :: "closest_fn \<Rightarrow> peer_id \<Rightarrow> xor_name \<Rightarrow> nat \<Rightarrow> bool" where
  "is_responsible fcs self_id key width \<longleftrightarrow> list_ex (\<lambda>n. n = self_id) (fcs key width)"

definition is_in_paid_close_group :: "closest_fn \<Rightarrow> peer_id \<Rightarrow> xor_name \<Rightarrow> nat \<Rightarrow> bool" where
  "is_in_paid_close_group fcs self_id key width \<longleftrightarrow> list_ex (\<lambda>n. n = self_id) (fcs key width)"

section \<open>Admitting hints\<close>

record hint_admission =
  ar_replica_keys :: "xor_name list"
  ar_paid_only_keys :: "xor_name list"
  ar_rejected_keys :: "xor_name list"

fun admit_replica_loop ::
  "closest_fn \<Rightarrow> peer_id \<Rightarrow> replication_config \<Rightarrow> (xor_name \<Rightarrow> bool option) \<Rightarrow> xor_name set \<Rightarrow>
     xor_name list \<Rightarrow> xor_name set \<times> hint_admission \<Rightarrow> xor_name set \<times> hint_admission" where
  "admit_replica_loop fcs self_id config stored pend [] acc = acc"
| "admit_replica_loop fcs self_id config stored pend (key # ks) (seen, result) =
     (if key \<in> seen then admit_replica_loop fcs self_id config stored pend ks (seen, result)
      else
        let seen' = insert key seen;
            already_local = unwrap_or (stored key) False;
            already_pending = key \<in> pend
        in admit_replica_loop fcs self_id config stored pend ks (seen',
             if already_local \<or> already_pending
             then result\<lparr>ar_replica_keys := ar_replica_keys result @ [key]\<rparr>
             else if is_responsible fcs self_id key (storage_admission_width (close_group_size config))
             then result\<lparr>ar_replica_keys := ar_replica_keys result @ [key]\<rparr>
             else result\<lparr>ar_rejected_keys := ar_rejected_keys result @ [key]\<rparr>))"

fun admit_paid_loop ::
  "closest_fn \<Rightarrow> peer_id \<Rightarrow> replication_config \<Rightarrow> (xor_name \<Rightarrow> bool option) \<Rightarrow>
     xor_name list \<Rightarrow> xor_name set \<times> hint_admission \<Rightarrow> xor_name set \<times> hint_admission" where
  "admit_paid_loop fcs self_id config paid [] acc = acc"
| "admit_paid_loop fcs self_id config paid (key # ks) (seen, result) =
     (if key \<in> seen then admit_paid_loop fcs self_id config paid ks (seen, result)
      else admit_paid_loop fcs self_id config paid ks (insert key seen,
             if unwrap_or (paid key) False
             then result\<lparr>ar_paid_only_keys := ar_paid_only_keys result @ [key]\<rparr>
             else if is_in_paid_close_group fcs self_id key (paid_list_close_group_size config)
             then result\<lparr>ar_paid_only_keys := ar_paid_only_keys result @ [key]\<rparr>
             else result\<lparr>ar_rejected_keys := ar_rejected_keys result @ [key]\<rparr>))"

definition admit_hints ::
  "closest_fn \<Rightarrow> replication_config \<Rightarrow> peer_id \<Rightarrow> (xor_name \<Rightarrow> bool option) \<Rightarrow> (xor_name \<Rightarrow> bool option) \<Rightarrow>
     xor_name list \<Rightarrow> xor_name list \<Rightarrow> xor_name set \<Rightarrow> hint_admission" where
  "admit_hints fcs config self_id stored paid replica_hints paid_hints pend =
     snd (admit_paid_loop fcs self_id config paid paid_hints
       (admit_replica_loop fcs self_id config stored pend replica_hints
          ({}, \<lparr>ar_replica_keys = [], ar_paid_only_keys = [], ar_rejected_keys = []\<rparr>)))"

section \<open>Queueing the admitted keys\<close>

record admission_outcome =
  ao_discovered :: "xor_name set"
  ao_capacity_rejected_count :: nat

definition new_entry :: "hint_pipeline \<Rightarrow> instant \<Rightarrow> peer_id \<Rightarrow> verification_entry" where
  "new_entry pipeline now source =
     \<lparr>ve_state = PendingVerify, ve_pipeline = pipeline, verified_sources = [], tried_sources = {},
      created_at = now, hint_sender = source\<rparr>"

text \<open>One call of \<open>add_pending_verify\<close> and the match on its result.\<close>

definition queue_hint ::
  "hint_pipeline \<Rightarrow> instant \<Rightarrow> peer_id \<Rightarrow> xor_name \<Rightarrow> admission_outcome \<times> replication_queues \<Rightarrow>
     admission_outcome \<times> replication_queues" where
  "queue_hint pipeline now source key = (\<lambda>(outcome, q).
     case add_pending_verify q key (new_entry pipeline now source) of
       (Admitted, q') \<Rightarrow> (outcome\<lparr>ao_discovered := insert key (ao_discovered outcome)\<rparr>, q')
     | (AlreadyPresent, q') \<Rightarrow> (outcome, q')
     | (CapacityRejected, q') \<Rightarrow>
         (outcome\<lparr>ao_capacity_rejected_count := ao_capacity_rejected_count outcome + 1\<rparr>, q'))"

definition admit_and_queue_hints ::
  "closest_fn \<Rightarrow> replication_config \<Rightarrow> peer_id \<Rightarrow> (xor_name \<Rightarrow> bool option) \<Rightarrow> (xor_name \<Rightarrow> bool option) \<Rightarrow>
     instant \<Rightarrow> peer_id \<Rightarrow> xor_name list \<Rightarrow> xor_name list \<Rightarrow> replication_queues \<Rightarrow>
     admission_outcome \<times> replication_queues" where
  "admit_and_queue_hints fcs config self_id stored paid now source replica_hints paid_hints q =
     (let pend = set (pending_keys q);
          admitted = admit_hints fcs config self_id stored paid replica_hints paid_hints pend;
          s0 = (\<lparr>ao_discovered = {}, ao_capacity_rejected_count = 0\<rparr>, q);
          s1 = fold (\<lambda>key s. if unwrap_or (stored key) False then s
                             else queue_hint Replica now source key s) (ar_replica_keys admitted) s0
      in fold (queue_hint PaidOnly now source) (ar_paid_only_keys admitted) s1)"

text \<open>
  What the three callers (bootstrap sync, an inbound request, a sync response) do with the outcome
  while the node is bootstrapping.
\<close>

definition track_admission :: "peer_id \<Rightarrow> admission_outcome \<Rightarrow> bootstrap_state \<Rightarrow> bootstrap_state" where
  "track_admission source outcome bs =
     (let bs1 = (if ao_discovered outcome \<noteq> {} then track_discovered_keys (ao_discovered outcome) bs else bs)
      in if ao_capacity_rejected_count outcome > 0 then note_capacity_rejected source bs1
         else clear_capacity_rejected source bs1)"

section \<open>What admission selects\<close>

text \<open>A loop that drops repeated keys, as one function: the first occurrences not yet seen.\<close>

fun first_new :: "'a set \<Rightarrow> 'a list \<Rightarrow> 'a list" where
  "first_new seen [] = []"
| "first_new seen (x # xs) = (if x \<in> seen then first_new seen xs else x # first_new (insert x seen) xs)"

lemma set_first_new: "set (first_new seen xs) = set xs - seen"
  by (induction xs arbitrary: seen) auto

lemma distinct_first_new: "distinct (first_new seen xs)"
  by (induction xs arbitrary: seen) (auto simp: set_first_new)

definition replica_admissible ::
  "closest_fn \<Rightarrow> peer_id \<Rightarrow> replication_config \<Rightarrow> (xor_name \<Rightarrow> bool option) \<Rightarrow> xor_name set \<Rightarrow> xor_name \<Rightarrow> bool" where
  "replica_admissible fcs self_id config stored pend key \<longleftrightarrow>
     stored key = Some True \<or> key \<in> pend \<or>
     self_id \<in> set (fcs key (storage_admission_width (close_group_size config)))"

definition paid_admissible ::
  "closest_fn \<Rightarrow> peer_id \<Rightarrow> replication_config \<Rightarrow> (xor_name \<Rightarrow> bool option) \<Rightarrow> xor_name \<Rightarrow> bool" where
  "paid_admissible fcs self_id config paid key \<longleftrightarrow>
     paid key = Some True \<or> self_id \<in> set (fcs key (paid_list_close_group_size config))"

lemma unwrap_or_False [simp]: "unwrap_or x False \<longleftrightarrow> x = Some True"
  by (cases x) auto

lemma is_responsible_iff: "is_responsible fcs self_id key w \<longleftrightarrow> self_id \<in> set (fcs key w)"
  by (auto simp: is_responsible_def list_ex_iff)

lemma is_in_paid_close_group_iff: "is_in_paid_close_group fcs self_id key w \<longleftrightarrow> self_id \<in> set (fcs key w)"
  by (auto simp: is_in_paid_close_group_def list_ex_iff)

lemma admit_replica_loop_eq:
  "admit_replica_loop fcs self_id config stored pend ks (seen, r) =
     (seen \<union> set ks,
      r\<lparr>ar_replica_keys := ar_replica_keys r @
           filter (replica_admissible fcs self_id config stored pend) (first_new seen ks),
        ar_rejected_keys := ar_rejected_keys r @
           filter (\<lambda>k. \<not> replica_admissible fcs self_id config stored pend k) (first_new seen ks)\<rparr>)"
  by (induction ks arbitrary: seen r)
    (auto simp: Let_def replica_admissible_def is_responsible_iff)

lemma admit_paid_loop_eq:
  "admit_paid_loop fcs self_id config paid ks (seen, r) =
     (seen \<union> set ks,
      r\<lparr>ar_paid_only_keys := ar_paid_only_keys r @
           filter (paid_admissible fcs self_id config paid) (first_new seen ks),
        ar_rejected_keys := ar_rejected_keys r @
           filter (\<lambda>k. \<not> paid_admissible fcs self_id config paid k) (first_new seen ks)\<rparr>)"
  by (induction ks arbitrary: seen r)
    (auto simp: paid_admissible_def is_in_paid_close_group_iff)

lemma admit_hints_eq:
  "admit_hints fcs config self_id stored paid rh ph pend =
     \<lparr>ar_replica_keys = filter (replica_admissible fcs self_id config stored pend) (first_new {} rh),
      ar_paid_only_keys = filter (paid_admissible fcs self_id config paid) (first_new (set rh) ph),
      ar_rejected_keys =
        filter (\<lambda>k. \<not> replica_admissible fcs self_id config stored pend k) (first_new {} rh) @
        filter (\<lambda>k. \<not> paid_admissible fcs self_id config paid k) (first_new (set rh) ph)\<rparr>"
  by (simp add: admit_hints_def admit_replica_loop_eq admit_paid_loop_eq)

section \<open>What queueing keeps\<close>

text \<open>The two loops as one pass over the work: the missing replicas, then the paid-only keys.\<close>

definition queue_work :: "(xor_name \<Rightarrow> bool option) \<Rightarrow> hint_admission \<Rightarrow> (hint_pipeline \<times> xor_name) list" where
  "queue_work stored r =
     map (Pair Replica) (filter (\<lambda>k. stored k \<noteq> Some True) (ar_replica_keys r)) @
     map (Pair PaidOnly) (ar_paid_only_keys r)"

definition queue_all ::
  "instant \<Rightarrow> peer_id \<Rightarrow> (hint_pipeline \<times> xor_name) list \<Rightarrow> replication_queues \<Rightarrow> admission_outcome \<times> replication_queues" where
  "queue_all now source work q =
     fold (\<lambda>(p, k). queue_hint p now source k) work (\<lparr>ao_discovered = {}, ao_capacity_rejected_count = 0\<rparr>, q)"

lemma fold_skip: "fold (\<lambda>x s. if P x then s else f x s) xs s = fold f (filter (\<lambda>x. \<not> P x) xs) s"
  by (induction xs arbitrary: s) auto

lemma admit_and_queue_hints_eq:
  "admit_and_queue_hints fcs config self_id stored paid now source rh ph q =
     queue_all now source
       (queue_work stored (admit_hints fcs config self_id stored paid rh ph (set (pending_keys q)))) q"
  by (simp add: admit_and_queue_hints_def queue_all_def queue_work_def Let_def fold_skip fold_map comp_def)

lemma add_pending_verify_cases:
  assumes "add_pending_verify q k e = (r, q')"
  obtains "r = AlreadyPresent" "q' = q" "contains_key q k"
  | "r = CapacityRejected" "q' = q" "\<not> contains_key q k"
  | "r = Admitted" "\<not> contains_key q k" "\<And>j. contains_key q' j \<longleftrightarrow> contains_key q j \<or> j = k"
      "\<And>j. get_pending q' j = (if j = k then Some e else get_pending q j)"
proof -
  have "r = Admitted \<Longrightarrow> \<not> contains_key q k \<and> (\<forall>j. contains_key q' j \<longleftrightarrow> contains_key q j \<or> j = k) \<and>
      (\<forall>j. get_pending q' j = (if j = k then Some e else get_pending q j))"
    using assms by (auto simp: add_pending_verify_def Let_def contains_key_def get_pending_def
        update_conv' split: if_splits)
  moreover have "r = AlreadyPresent \<Longrightarrow> q' = q \<and> contains_key q k"
    "r = CapacityRejected \<Longrightarrow> q' = q \<and> \<not> contains_key q k"
    using assms by (auto simp: add_pending_verify_def Let_def split: if_splits)
  ultimately show ?thesis using that by (cases r) blast+
qed

text \<open>What holds after any prefix of the work.\<close>

definition queued_ok ::
  "instant \<Rightarrow> peer_id \<Rightarrow> replication_queues \<Rightarrow> (hint_pipeline \<times> xor_name) list \<Rightarrow>
     admission_outcome \<times> replication_queues \<Rightarrow> bool" where
  "queued_ok now source q0 work = (\<lambda>(out, q).
     queues_inv q \<and>
     (\<forall>j. contains_key q j \<longleftrightarrow> contains_key q0 j \<or> j \<in> ao_discovered out) \<and>
     (\<forall>j\<in>ao_discovered out. \<not> contains_key q0 j \<and>
        (\<exists>p. (p, j) \<in> set work \<and> get_pending q j = Some (new_entry p now source))) \<and>
     (\<forall>j. j \<notin> ao_discovered out \<longrightarrow> get_pending q j = get_pending q0 j) \<and>
     ao_capacity_rejected_count out = card {j \<in> snd ` set work. \<not> contains_key q j})"

lemma queue_hint_ok:
  assumes ok: "queued_ok now source q0 work s" and fresh: "k \<notin> snd ` set work"
  shows "queued_ok now source q0 (work @ [(p, k)]) (queue_hint p now source k s)"
proof -
  obtain out q where s: "s = (out, q)" by (cases s)
  obtain r q' where add: "add_pending_verify q k (new_entry p now source) = (r, q')"
    by (cases "add_pending_verify q k (new_entry p now source)")
  from ok s have inv: "queues_inv q" by (simp add: queued_ok_def)
  have inv': "queues_inv q'" using add_pending_verify_inv [OF inv add] .
  have insert_eq: "{j \<in> snd ` set (work @ [(p, k)]). \<not> contains_key q j} =
      (if contains_key q k then {} else {k}) \<union> {j \<in> snd ` set work. \<not> contains_key q j}" by auto
  from add show ?thesis
  proof (cases rule: add_pending_verify_cases)
    case 1
    with ok s add insert_eq show ?thesis by (auto simp: queued_ok_def queue_hint_def)
  next
    case 2
    have "card {j \<in> snd ` set (work @ [(p, k)]). \<not> contains_key q j} =
        Suc (card {j \<in> snd ` set work. \<not> contains_key q j})"
      unfolding insert_eq using 2 fresh by (simp add: card_insert_if)
    with 2 ok s add show ?thesis by (auto simp: queued_ok_def queue_hint_def)
  next
    case 3
    have "{j \<in> snd ` set (work @ [(p, k)]). \<not> contains_key q' j} =
        {j \<in> snd ` set work. \<not> contains_key q j}" using 3 fresh by auto
    with 3 ok s add inv' show ?thesis by (auto simp: queued_ok_def queue_hint_def)
  qed
qed

lemma queue_all_ok:
  assumes "queues_inv q" and "distinct (map snd work)"
  shows "queued_ok now source q work (queue_all now source work q)"
  using assms(2)
proof (induction work rule: rev_induct)
  case Nil
  with assms(1) show ?case by (simp add: queue_all_def queued_ok_def)
next
  case (snoc x work)
  obtain p k where x: "x = (p, k)" by (cases x)
  with snoc have "queued_ok now source q work (queue_all now source work q)" and "k \<notin> snd ` set work"
    by auto
  from queue_hint_ok [OF this] x show ?case by (simp add: queue_all_def)
qed

lemma distinct_queue_work:
  "distinct (map snd (queue_work stored (admit_hints fcs config self_id stored paid rh ph pend)))"
  by (auto simp: queue_work_def admit_hints_eq comp_def distinct_first_new set_first_new)

text \<open>The keys of the hints that this node should verify.\<close>

definition owed_keys ::
  "closest_fn \<Rightarrow> replication_config \<Rightarrow> peer_id \<Rightarrow> (xor_name \<Rightarrow> bool option) \<Rightarrow> (xor_name \<Rightarrow> bool option) \<Rightarrow>
     xor_name list \<Rightarrow> xor_name list \<Rightarrow> xor_name set \<Rightarrow> xor_name set" where
  "owed_keys fcs config self_id stored paid rh ph pend =
     {k \<in> set rh. stored k \<noteq> Some True \<and> replica_admissible fcs self_id config stored pend k} \<union>
     {k \<in> set ph - set rh. paid_admissible fcs self_id config paid k}"

lemma queue_work_keys:
  "snd ` set (queue_work stored (admit_hints fcs config self_id stored paid rh ph pend)) =
     owed_keys fcs config self_id stored paid rh ph pend"
  by (auto simp: queue_work_def admit_hints_eq owed_keys_def set_first_new image_Un image_image)

lemma queue_work_pipeline:
  "(p, k) \<in> set (queue_work stored (admit_hints fcs config self_id stored paid rh ph pend)) \<Longrightarrow>
     p = (if k \<in> set rh then Replica else PaidOnly)"
  by (auto simp: queue_work_def admit_hints_eq set_first_new)

section \<open>Properties\<close>


text \<open>
  C26. No relevant hint is dropped silently. Queueing the hints of a peer keeps the invariant of
  the queues, adds exactly the discovered keys (each with the sender, the pipeline and the time of
  this admission) and leaves every other pending entry alone; the number of capacity rejections it
  reports is exactly the number of relevant keys that are in no stage afterwards. So a report of
  zero means that every relevant key is in the pipeline.
\<close>

theorem admitted_hints_queued_or_counted:
  assumes "reachable_from queue_step queues_new q"
    and "admit_and_queue_hints fcs config self_id stored paid now source rh ph q = (out, q')"
  shows "queues_inv q' \<and>
    (\<forall>k. contains_key q' k \<longleftrightarrow> contains_key q k \<or> k \<in> ao_discovered out) \<and>
    (\<forall>k\<in>ao_discovered out. \<not> contains_key q k \<and>
       k \<in> owed_keys fcs config self_id stored paid rh ph (set (pending_keys q)) \<and>
       get_pending q' k = Some (new_entry (if k \<in> set rh then Replica else PaidOnly) now source)) \<and>
    (\<forall>k. k \<notin> ao_discovered out \<longrightarrow> get_pending q' k = get_pending q k) \<and>
    ao_capacity_rejected_count out =
      card {k \<in> owed_keys fcs config self_id stored paid rh ph (set (pending_keys q)). \<not> contains_key q' k}"
proof -
  let ?w = "queue_work stored (admit_hints fcs config self_id stored paid rh ph (set (pending_keys q)))"
  have ok: "queued_ok now source q ?w (out, q')"
    using queue_all_ok [OF queues.inv_reachable [OF assms(1)], of ?w now source] assms(2)
      distinct_queue_work by (metis admit_and_queue_hints_eq)
  have "\<not> contains_key q k \<and> k \<in> owed_keys fcs config self_id stored paid rh ph (set (pending_keys q)) \<and>
      get_pending q' k = Some (new_entry (if k \<in> set rh then Replica else PaidOnly) now source)"
    if k: "k \<in> ao_discovered out" for k
  proof -
    from ok k obtain p where pk: "(p, k) \<in> set ?w" and "get_pending q' k = Some (new_entry p now source)"
      and "\<not> contains_key q k" by (auto simp: queued_ok_def)
    moreover from pk have "k \<in> snd ` set ?w" by force
    ultimately show ?thesis using queue_work_pipeline [OF pk] queue_work_keys by metis
  qed
  with ok show ?thesis unfolding queued_ok_def queue_work_keys by simp
qed

definition example_admission :: "admission_outcome \<times> replication_queues" where
  "example_admission = admit_and_queue_hints (\<lambda>_ _. [1]) (default_config 7) 1 (\<lambda>_. Some False) (\<lambda>_. None)
     9 77 [42, 43] [43, 44] example_queues"

lemma example_admission_discovered:
  "ao_discovered (fst example_admission) = {43, 44}"
  "ao_capacity_rejected_count (fst example_admission) = 0"
  by (simp_all add: example_admission_def admit_and_queue_hints_def pending_keys_def example_queues_eq
      admit_hints_eq replica_admissible_def paid_admissible_def queue_hint_def add_pending_verify_def
      contains_key_def new_entry_def MAX_PENDING_VERIFY_def MAX_PENDING_VERIFY_PER_PEER_def insert_commute)

theorem admitted_hints_queued_or_counted_witness:
  "contains_key (snd example_admission) 43 \<and>
   get_pending (snd example_admission) 43 = Some (new_entry Replica 9 77) \<and>
   get_pending (snd example_admission) 44 = Some (new_entry PaidOnly 9 77) \<and>
   get_pending (snd example_admission) 42 = get_pending example_queues 42"
  using admitted_hints_queued_or_counted [OF example_queues_reachable prod.collapse [symmetric],
      of "\<lambda>_ _. [1]" "default_config 7" 1 "\<lambda>_. Some False" "\<lambda>_. None" 9 77 "[42, 43]" "[43, 44]",
      folded example_admission_def] example_admission_discovered
  by simp

end
