(* ===== verification/Verification_Cycle.thy ===== *)
theory Verification_Cycle
  imports Admission Quorum Recent_Provers Commitment_State
begin

text \<open>
  One pass of the verification worker (\<open>run_verification_cycle\<close> in src/src/replication/mod.rs):
  stale entries are evicted, keys on the local paid list are probed for holders, the others are
  verified over the network with the holder-credit gate, verified keys enter the paid list, and
  every key either moves to the fetch queue or leaves the pipeline. Routing table, chunk store,
  clock and the replies of the two network rounds are the fields of \<open>cycle_env\<close>; the pass is
  atomic in the model (each change of the queues is a \<open>queue_step\<close>, so what holds of every
  \<open>queue_step\<close> holds under interleaving too).
\<close>

section \<open>The pass\<close>

record cycle_env =
  ce_fc :: closest_fn
  ce_fcs :: closest_fn
  ce_self :: peer_id
  ce_config :: replication_config
  ce_stored :: "xor_name \<Rightarrow> bool option"
  ce_paid_read_ok :: "xor_name \<Rightarrow> bool"
  ce_paid_insert_ok :: "xor_name \<Rightarrow> bool"
  ce_commitments :: "peer_id \<rightharpoonup> peer_commitment_record"
  ce_capable :: "peer_id set"
  ce_provers :: recent_provers
  ce_now :: instant
  ce_xor_distance :: "xor_name \<Rightarrow> xor_name \<Rightarrow> xor_name"
  ce_probe_replies :: "(peer_id \<times> peer_reply) list"
  ce_network_replies :: "(peer_id \<times> peer_reply) list"

record cycle_state =
  cy_queues :: replication_queues
  cy_paid :: "xor_name set"
  cy_boot :: boot

definition paid_contains :: "cycle_env \<Rightarrow> xor_name set \<Rightarrow> xor_name \<Rightarrow> bool option" where
  "paid_contains env paid key = (if ce_paid_read_ok env key then Some (key \<in> paid) else None)"

definition storage_admitted :: "cycle_env \<Rightarrow> xor_name \<Rightarrow> bool" where
  "storage_admitted env key =
     is_responsible (ce_fcs env) (ce_self env) key (storage_admission_width (close_group_size (ce_config env)))"

text \<open>Step 1: the local paid list.\<close>

record pending_split =
  sp_probe :: "xor_name list"
  sp_paid_only :: "xor_name list"
  sp_network :: "xor_name list"

definition classify_key ::
  "cycle_env \<Rightarrow> xor_name set \<Rightarrow> xor_name \<Rightarrow> pending_split \<times> replication_queues \<Rightarrow>
     pending_split \<times> replication_queues" where
  "classify_key env paid key = (\<lambda>(sp, q).
     if unwrap_or (paid_contains env paid key) False
     then case set_pending_state q key StatePaidListVerified of
            (Some PaidOnly, q') \<Rightarrow> (sp\<lparr>sp_paid_only := sp_paid_only sp @ [key]\<rparr>, q')
          | (Some Replica, q') \<Rightarrow> (sp\<lparr>sp_probe := sp_probe sp @ [key]\<rparr>, q')
          | (None, q') \<Rightarrow> (sp, q')
     else (sp\<lparr>sp_network := sp_network sp @ [key]\<rparr>, q))"

definition split_local_paid_only ::
  "cycle_env \<Rightarrow> xor_name list \<Rightarrow> xor_name list \<Rightarrow> xor_name list \<times> xor_name list" where
  "split_local_paid_only env paid_only probe =
     fold (\<lambda>key (probe, terminal).
        if unwrap_or (ce_stored env key) False then (probe, terminal @ [key])
        else if storage_admitted env key then (probe @ [key], terminal)
        else (probe, terminal @ [key])) paid_only (probe, [])"

definition remove_terminal ::
  "xor_name \<Rightarrow> replication_queues \<times> xor_name list \<Rightarrow> replication_queues \<times> xor_name list" where
  "remove_terminal key = (\<lambda>(q, terminal). (snd (remove_pending q key), terminal @ [key]))"

text \<open>Step 1b: the presence probe of locally paid keys.\<close>

definition finish_probe_key ::
  "cycle_env \<Rightarrow> verification_targets \<Rightarrow> evidence_map \<Rightarrow> xor_name \<Rightarrow>
     replication_queues \<times> xor_name list \<Rightarrow> replication_queues \<times> xor_name list" where
  "finish_probe_key env targets evidence key = (\<lambda>(q, terminal).
     if unwrap_or (ce_stored env key) False then remove_terminal key (q, terminal)
     else
       let sources = (case evidence key of None \<Rightarrow> [] | Some ev \<Rightarrow> present_sources_for_key key ev targets)
       in if sources = [] then remove_terminal key (q, terminal)
          else (snd (promote_pending_to_fetch q key (ce_xor_distance env key (ce_self env)) sources), terminal))"

definition probe_step ::
  "cycle_env \<Rightarrow> xor_name list \<Rightarrow> replication_queues \<times> xor_name list \<Rightarrow> replication_queues \<times> xor_name list" where
  "probe_step env probe s =
     (if probe = [] then s
      else
        let targets = compute_presence_targets (ce_fc env) (ce_config env) (ce_self env) probe;
            evidence = run_verification_round probe targets (ce_probe_replies env)
        in fold (finish_probe_key env targets evidence) probe s)"

text \<open>
  Steps 2 to 5: the network round. \<open>holder_credit\<close> is the closure of step 3; the locally held
  keys are those of the round that storage reports.
\<close>

definition holder_credit :: "cycle_env \<Rightarrow> xor_name list \<Rightarrow> peer_id \<Rightarrow> xor_name \<Rightarrow> bool" where
  "holder_credit env net peer key =
     (if \<not> (key \<in> set net \<and> unwrap_or (ce_stored env key) False) then True
      else if peer \<notin> ce_capable env then True
      else case Option.bind (ce_commitments env peer) pc_cached_hash of
             None \<Rightarrow> False
           | Some h \<Rightarrow> is_credited_holder (ce_provers env) key peer h (ce_now env))"

definition evaluate_keys ::
  "cycle_env \<Rightarrow> xor_name list \<Rightarrow> verification_targets \<Rightarrow> evidence_map \<Rightarrow> replication_queues \<Rightarrow>
     (xor_name \<times> key_verification_outcome \<times> hint_pipeline) list" where
  "evaluate_keys env net targets evidence q =
     List.map_filter (\<lambda>key.
       case evidence key of None \<Rightarrow> None
       | Some ev \<Rightarrow>
           (case get_pending q key of None \<Rightarrow> None
            | Some entry \<Rightarrow> Some (key,
                evaluate_key_evidence_with_holder_check key ev targets (ce_config env) (holder_credit env net),
                ve_pipeline entry))) net"

fun outcome_sources :: "key_verification_outcome \<Rightarrow> peer_id list option" where
  "outcome_sources (QuorumVerified sources) = Some sources"
| "outcome_sources (PaidListVerified sources) = Some sources"
| "outcome_sources QuorumFailed = None"
| "outcome_sources QuorumInconclusive = None"

definition paid_insert_keys :: "(xor_name \<times> key_verification_outcome \<times> hint_pipeline) list \<Rightarrow> xor_name list" where
  "paid_insert_keys evaluated = map fst (filter (\<lambda>(key, outcome, _). outcome_sources outcome \<noteq> None) evaluated)"

definition paid_list_insert :: "cycle_env \<Rightarrow> xor_name \<Rightarrow> xor_name set \<Rightarrow> xor_name set" where
  "paid_list_insert env key paid = (if ce_paid_insert_ok env key then insert key paid else paid)"

definition paid_only_fetch_keys ::
  "cycle_env \<Rightarrow> (xor_name \<times> key_verification_outcome \<times> hint_pipeline) list \<Rightarrow> xor_name set" where
  "paid_only_fetch_keys env evaluated =
     fst ` set (filter (\<lambda>(key, outcome, pipeline). pipeline = PaidOnly \<and> outcome_sources outcome \<noteq> None \<and>
       \<not> unwrap_or (ce_stored env key) False \<and> storage_admitted env key) evaluated)"

definition finish_network_key ::
  "cycle_env \<Rightarrow> xor_name set \<Rightarrow> xor_name \<times> key_verification_outcome \<times> hint_pipeline \<Rightarrow>
     replication_queues \<times> xor_name list \<Rightarrow> replication_queues \<times> xor_name list" where
  "finish_network_key env fetch_keys = (\<lambda>(key, outcome, pipeline) (q, terminal).
     case outcome_sources outcome of
       Some sources \<Rightarrow>
         let fetch_eligible = (pipeline = Replica \<or> key \<in> fetch_keys)
         in if fetch_eligible \<and> sources \<noteq> []
            then (snd (promote_pending_to_fetch q key (ce_xor_distance env key (ce_self env)) sources), terminal)
            else remove_terminal key (q, terminal)
     | None \<Rightarrow> remove_terminal key (q, terminal))"

definition network_step ::
  "cycle_env \<Rightarrow> xor_name list \<Rightarrow> xor_name set \<Rightarrow> replication_queues \<times> xor_name list \<Rightarrow>
     xor_name set \<times> replication_queues \<times> xor_name list" where
  "network_step env net paid s =
     (if net = [] then (paid, s)
      else
        let targets = compute_verification_targets (ce_fc env) (ce_fcs env) (ce_config env) (ce_self env) net;
            evidence = run_verification_round net targets (ce_network_replies env);
            evaluated = evaluate_keys env net targets evidence (fst s)
        in (fold (paid_list_insert env) (paid_insert_keys evaluated) paid,
            fold (finish_network_key env (paid_only_fetch_keys env evaluated)) evaluated s))"

definition run_verification_cycle :: "cycle_env \<Rightarrow> cycle_state \<Rightarrow> cycle_state" where
  "run_verification_cycle env st =
     (let q0 = evict_stale (cy_queues st) (ce_now env) PENDING_VERIFY_MAX_AGE;
          pending = pending_keys q0
      in if pending = [] then st\<lparr>cy_queues := q0\<rparr>
         else
           let (sp, q1) = fold (classify_key env (cy_paid st)) pending
                 (\<lparr>sp_probe = [], sp_paid_only = [], sp_network = []\<rparr>, q0);
               (probe, terminal_paid_only) = split_local_paid_only env (sp_paid_only sp) (sp_probe sp);
               s2 = fold remove_terminal terminal_paid_only (q1, []);
               s3 = probe_step env probe s2;
               (paid', q4, terminal) = network_step env (sp_network sp) (cy_paid st) s3
           in st\<lparr>cy_queues := q4, cy_paid := paid',
                 cy_boot := update_bootstrap_after_verification terminal q4 (cy_boot st)\<rparr>)"

section \<open>Loops that touch one key at a time\<close>

locale keyed_step =
  fixes step :: "'x \<Rightarrow> 's \<Rightarrow> 's"
    and key :: "'x \<Rightarrow> 'k"
    and view :: "'s \<Rightarrow> 'k \<Rightarrow> 'v"
    and inv :: "'s \<Rightarrow> bool"
  assumes step_inv: "inv s \<Longrightarrow> inv (step x s)"
    and step_local: "inv s \<Longrightarrow> j \<noteq> key x \<Longrightarrow> view (step x s) j = view s j"
begin

lemma fold_inv: "inv s \<Longrightarrow> inv (fold step xs s)"
  by (induction xs arbitrary: s) (auto intro: step_inv)

lemma fold_other: "inv s \<Longrightarrow> j \<notin> key ` set xs \<Longrightarrow> view (fold step xs s) j = view s j"
  by (induction xs arbitrary: s) (auto simp: step_inv step_local)

lemma fold_once:
  assumes "inv s" "distinct (map key xs)" "x \<in> set xs"
  obtains ys zs where "xs = ys @ x # zs" "inv (fold step ys s)"
    "view (fold step ys s) (key x) = view s (key x)"
    "view (fold step xs s) (key x) = view (step x (fold step ys s)) (key x)"
proof -
  from assms(3) obtain ys zs where xs: "xs = ys @ x # zs" by (auto simp: in_set_conv_decomp)
  with assms(2) have "key x \<notin> key ` set ys" "key x \<notin> key ` set zs" by auto
  with xs assms(1) that [of ys zs] show ?thesis by (simp add: fold_inv fold_other step_inv)
qed

end

section \<open>The stage of a key\<close>

datatype key_stage =
    NoStage
  | InPending verification_entry
  | InFetchQueue fetch_candidate
  | InFlight in_flight_entry

definition stage :: "replication_queues \<Rightarrow> xor_name \<Rightarrow> key_stage" where
  "stage q k =
     (case get_pending q k of Some e \<Rightarrow> InPending e
      | None \<Rightarrow> (case find (\<lambda>c. fc_key c = k) (fetch_queue q) of Some c \<Rightarrow> InFetchQueue c
         | None \<Rightarrow> (case map_of (in_flight_fetch q) k of Some f \<Rightarrow> InFlight f | None \<Rightarrow> NoStage)))"

abbreviation fetch_full :: "replication_queues \<Rightarrow> bool" where
  "fetch_full q \<equiv> MAX_FETCH_QUEUE \<le> length (fetch_queue q)"

lemma find_None_key: "find (\<lambda>c. fc_key c = k) cs = None \<longleftrightarrow> k \<notin> fc_key ` set cs"
  by (auto simp: find_None_iff)

lemma stage_InPending: "stage q k = InPending e \<longleftrightarrow> get_pending q k = Some e"
  by (auto simp: stage_def split: option.splits)

lemma stage_contains:
  assumes "queues_inv q" shows "stage q k = NoStage \<longleftrightarrow> \<not> contains_key q k"
  using assms find_None_key [of k "fetch_queue q"]
  by (auto simp: stage_def contains_key_def get_pending_def queues_inv_defs split: option.splits)

lemma pending_not_elsewhere:
  assumes "queues_inv q" "get_pending q k = Some e"
  shows "find (\<lambda>c. fc_key c = k) (fetch_queue q) = None" "map_of (in_flight_fetch q) k = None"
    "k \<notin> fetch_queue_keys q"
proof -
  have "k \<in> keys (pending_verify q)" using assms(2) by (simp add: get_pending_def map_of_keysD)
  with assms(1) have n: "k \<notin> fetch_queue_keys q" "k \<notin> keys (in_flight_fetch q)"
    and fq: "fetch_queue_keys q = fc_key ` set (fetch_queue q)"
    by (auto simp: queues_inv_def stages_disjoint_def disjoint3_def)
  then show "find (\<lambda>c. fc_key c = k) (fetch_queue q) = None" "map_of (in_flight_fetch q) k = None"
    "k \<notin> fetch_queue_keys q" by (simp_all add: find_None_key map_of_eq_None_keys)
qed

lemma stage_evict:
  assumes "queues_inv q"
  shows "stage (evict_stale q now age) k = (case stage q k of
     InPending e \<Rightarrow> if now - created_at e < age then InPending e else NoStage | x \<Rightarrow> x)"
proof -
  have d: "dkeys (pending_verify q)" and l: "in_lockstep q" using assms by (auto simp: queues_inv_defs)
  have f: "fresh_entry now age = (\<lambda>(k, e). now - created_at e < age)" by (simp add: fresh_entry_def)
  show ?thesis
    using pending_not_elsewhere [OF assms, of k]
    by (auto simp: stage_def get_pending_def evict_stale_eq [OF l] f map_of_filter_dkeys [OF d]
        split: option.splits)
qed

lemma stage_set_pending_state:
  "stage (snd (set_pending_state q k st)) j = (case stage q j of
     InPending e \<Rightarrow> InPending (if j = k then e\<lparr>ve_state := st\<rparr> else e) | x \<Rightarrow> x)"
  by (auto simp: stage_def set_pending_state_def get_pending_def update_conv' split: option.splits)

lemma stage_remove_pending_other: "j \<noteq> k \<Longrightarrow> stage (snd (remove_pending q k)) j = stage q j"
  by (auto simp: stage_def remove_pending_def get_pending_def map_of_delete_other split: option.splits)

lemma stage_remove_pending:
  "queues_inv q \<Longrightarrow> stage q k = InPending e \<Longrightarrow> stage (snd (remove_pending q k)) k = NoStage"
  using pending_not_elsewhere [of q k e]
  by (auto simp: stage_def remove_pending_def get_pending_def map_of_delete_other split: option.splits)

lemma stage_enqueue_other: "j \<noteq> k \<Longrightarrow> stage (snd (enqueue_fetch q k d srcs)) j = stage q j"
  by (auto simp: stage_def enqueue_fetch_def get_pending_def heap_push_def split: option.splits)

lemma stage_promote_other: "j \<noteq> k \<Longrightarrow> stage (snd (promote_pending_to_fetch q k d srcs)) j = stage q j"
  by (simp add: promote_pending_to_fetch_def stage_enqueue_other stage_remove_pending_other)

lemma stage_promote:
  assumes "queues_inv q" "stage q k = InPending e"
  shows "stage (snd (promote_pending_to_fetch q k d srcs)) k =
    (if fetch_full q then InPending e
     else InFetchQueue \<lparr>fc_key = k, fc_distance = d, fc_sources = srcs\<rparr>)"
proof (cases "fetch_full q")
  case False
  from assms(2) have e: "map_of (pending_verify q) k = Some e" by (simp add: stage_InPending get_pending_def)
  with pending_not_elsewhere [OF assms(1), of k e] have
    "map_of (in_flight_fetch q) k = None" "k \<notin> fetch_queue_keys q" by (simp_all add: get_pending_def)
  with False e show ?thesis
    by (simp add: promote_pending_to_fetch_def remove_pending_def enqueue_fetch_def map_of_delete_other
        stage_def get_pending_def heap_push_def)
qed (use assms in \<open>simp add: promote_pending_to_fetch_def\<close>)

lemma fetch_queue_remove_pending [simp]: "fetch_queue (snd (remove_pending q k)) = fetch_queue q"
  by (simp add: remove_pending_def split: option.splits)

lemma fetch_queue_promote_mono:
  "length (fetch_queue q) \<le> length (fetch_queue (snd (promote_pending_to_fetch q k d srcs)))"
  by (simp add: promote_pending_to_fetch_def enqueue_fetch_def heap_push_def)

section \<open>The steps of the pass, key by key\<close>

definition key_view :: "replication_queues \<times> xor_name list \<Rightarrow> xor_name \<Rightarrow> key_stage \<times> bool" where
  "key_view s k = (stage (fst s) k, k \<in> set (snd s))"

abbreviation inv_fst :: "replication_queues \<times> 'a \<Rightarrow> bool" where
  "inv_fst s \<equiv> queues_inv (fst s)"

lemma inv_remove: "queues_inv q \<Longrightarrow> queues_inv (snd (remove_pending q k))"
  using remove_pending_inv prod.collapse by metis

lemma inv_promote: "queues_inv q \<Longrightarrow> queues_inv (snd (promote_pending_to_fetch q k d srcs))"
  using promote_pending_to_fetch_inv prod.collapse by metis

lemma inv_set_state: "queues_inv q \<Longrightarrow> queues_inv (snd (set_pending_state q k st))"
  using set_pending_state_inv prod.collapse by metis

lemma remove_terminal_eq: "remove_terminal k s = (snd (remove_pending (fst s) k), snd s @ [k])"
  by (cases s) (simp add: remove_terminal_def)

lemma remove_terminal_props:
  "inv_fst s \<Longrightarrow> inv_fst (remove_terminal k s)"
  "j \<noteq> k \<Longrightarrow> key_view (remove_terminal k s) j = key_view s j"
  "inv_fst s \<Longrightarrow> stage (fst s) k = InPending e \<Longrightarrow> key_view (remove_terminal k s) k = (NoStage, True)"
  "length (fetch_queue (fst s)) \<le> length (fetch_queue (fst (remove_terminal k s)))"
  by (auto simp: remove_terminal_eq key_view_def inv_remove stage_remove_pending_other stage_remove_pending)

lemma promote_props:
  "j \<noteq> k \<Longrightarrow> key_view (snd (promote_pending_to_fetch q k d srcs), t) j = key_view (q, t) j"
  "queues_inv q \<Longrightarrow> stage q k = InPending e \<Longrightarrow> key_view (snd (promote_pending_to_fetch q k d srcs), t) k =
     (if fetch_full q then InPending e else InFetchQueue \<lparr>fc_key = k, fc_distance = d, fc_sources = srcs\<rparr>,
      k \<in> set t)"
  by (simp_all add: key_view_def stage_promote_other stage_promote)

lemma finish_probe_key_cases:
  "finish_probe_key env targets evidence key s = remove_terminal key s \<or>
   (\<exists>d srcs. finish_probe_key env targets evidence key s =
      (snd (promote_pending_to_fetch (fst s) key d srcs), snd s))"
  by (cases s) (auto simp: finish_probe_key_def Let_def)

lemma finish_network_key_cases:
  "finish_network_key env fk x s = remove_terminal (fst x) s \<or>
   (\<exists>d srcs. finish_network_key env fk x s =
      (snd (promote_pending_to_fetch (fst s) (fst x) d srcs), snd s))"
  by (cases s, cases x) (auto simp: finish_network_key_def Let_def split: option.split)

interpretation removal: keyed_step remove_terminal id key_view inv_fst
  by unfold_locales (simp_all add: remove_terminal_props)

interpretation probing: keyed_step "finish_probe_key env targets evidence" id key_view inv_fst
  for env targets evidence
proof
  fix s :: "replication_queues \<times> xor_name list" and x j
  show "inv_fst s \<Longrightarrow> inv_fst (finish_probe_key env targets evidence x s)"
    using finish_probe_key_cases [of env targets evidence x s]
    by (auto simp: remove_terminal_props inv_promote)
  show "j \<noteq> id x \<Longrightarrow> key_view (finish_probe_key env targets evidence x s) j = key_view s j"
    using finish_probe_key_cases [of env targets evidence x s]
    by (auto simp: remove_terminal_props promote_props)
qed

interpretation networking: keyed_step "finish_network_key env fk" fst key_view inv_fst
  for env fk
proof
  fix s :: "replication_queues \<times> xor_name list" and x j
  show "inv_fst s \<Longrightarrow> inv_fst (finish_network_key env fk x s)"
    using finish_network_key_cases [of env fk x s]
    by (auto simp: remove_terminal_props inv_promote)
  show "j \<noteq> fst x \<Longrightarrow> key_view (finish_network_key env fk x s) j = key_view s j"
    using finish_network_key_cases [of env fk x s]
    by (auto simp: remove_terminal_props promote_props)
qed

text \<open>The fetch queue never shrinks during the pass.\<close>

lemma fetch_queue_grows:
  "length (fetch_queue (fst s)) \<le> length (fetch_queue (fst (finish_probe_key env targets evidence key s)))"
  "length (fetch_queue (fst s)) \<le> length (fetch_queue (fst (finish_network_key env fk x s)))"
  using finish_probe_key_cases [of env targets evidence key s] finish_network_key_cases [of env fk x s]
  by (auto simp: remove_terminal_props fetch_queue_promote_mono)

lemma fold_grows:
  assumes "\<And>x s. m s \<le> (m (f x s) :: nat)" shows "m s \<le> m (fold f xs s)"
proof (induction xs arbitrary: s)
  case (Cons x xs)
  from assms [of s x] Cons [of "f x s"] show ?case by simp
qed simp

section \<open>The local steps\<close>

definition local_paid :: "cycle_env \<Rightarrow> xor_name set \<Rightarrow> xor_name \<Rightarrow> bool" where
  "local_paid env paid k \<longleftrightarrow> paid_contains env paid k = Some True"

definition pipe :: "replication_queues \<Rightarrow> xor_name \<Rightarrow> hint_pipeline option" where
  "pipe q k = map_option ve_pipeline (get_pending q k)"

lemma pipe_set_state [simp]: "pipe (snd (set_pending_state q k st)) j = pipe q j"
  by (auto simp: pipe_def get_pending_def set_pending_state_def update_conv' split: option.splits)

lemma fst_set_pending_state [simp]: "fst (set_pending_state q k st) = pipe q k"
  by (auto simp: pipe_def get_pending_def set_pending_state_def split: option.splits)

lemma classify_key_eq:
  "classify_key env paid k (sp, q) =
     (if local_paid env paid k
      then (case pipe q k of Some PaidOnly \<Rightarrow> sp\<lparr>sp_paid_only := sp_paid_only sp @ [k]\<rparr>
              | Some Replica \<Rightarrow> sp\<lparr>sp_probe := sp_probe sp @ [k]\<rparr> | None \<Rightarrow> sp,
            snd (set_pending_state q k StatePaidListVerified))
      else (sp\<lparr>sp_network := sp_network sp @ [k]\<rparr>, q))"
  using fst_set_pending_state [of q k StatePaidListVerified]
  by (cases "set_pending_state q k StatePaidListVerified")
    (auto simp: classify_key_def local_paid_def split: option.splits hint_pipeline.splits)

lemma classify_fold_lists:
  "fst (fold (classify_key env paid) ks (sp, q)) =
     \<lparr>sp_probe = sp_probe sp @ filter (\<lambda>k. local_paid env paid k \<and> pipe q k = Some Replica) ks,
      sp_paid_only = sp_paid_only sp @ filter (\<lambda>k. local_paid env paid k \<and> pipe q k = Some PaidOnly) ks,
      sp_network = sp_network sp @ filter (\<lambda>k. \<not> local_paid env paid k) ks\<rparr>"
proof (induction ks arbitrary: sp q)
  case (Cons k ks)
  consider "pipe q k = None" | "pipe q k = Some Replica" | "pipe q k = Some PaidOnly"
    by (metis hint_pipeline.exhaust option.exhaust)
  then show ?case by cases (auto simp: Cons classify_key_eq)
qed simp

lemma classify_fold_stage:
  "stage (snd (fold (classify_key env paid) ks (sp, q))) j =
     (case stage q j of
        InPending e \<Rightarrow> InPending (if j \<in> set ks \<and> local_paid env paid j
                                then e\<lparr>ve_state := StatePaidListVerified\<rparr> else e)
      | x \<Rightarrow> x)"
proof (induction ks arbitrary: sp q)
  case Nil
  then show ?case by (simp split: key_stage.splits)
next
  case (Cons k ks)
  then show ?case
    by (auto simp: classify_key_eq stage_set_pending_state split: key_stage.splits)
qed

lemma classify_fold_inv:
  "queues_inv q \<Longrightarrow> queues_inv (snd (fold (classify_key env paid) ks (sp, q)))"
  by (induction ks arbitrary: sp q) (auto simp: classify_key_eq inv_set_state)

lemma split_local_paid_only_eq:
  "split_local_paid_only env ks probe =
     (probe @ filter (\<lambda>k. ce_stored env k \<noteq> Some True \<and> storage_admitted env k) ks,
      filter (\<lambda>k. ce_stored env k = Some True \<or> \<not> storage_admitted env k) ks)"
proof -
  have "fold (\<lambda>key (probe, terminal).
        if unwrap_or (ce_stored env key) False then (probe, terminal @ [key])
        else if storage_admitted env key then (probe @ [key], terminal)
        else (probe, terminal @ [key])) ks (probe, t) =
     (probe @ filter (\<lambda>k. ce_stored env k \<noteq> Some True \<and> storage_admitted env k) ks,
      t @ filter (\<lambda>k. ce_stored env k = Some True \<or> \<not> storage_admitted env k) ks)" for t
    by (induction ks arbitrary: probe t) auto
  then show ?thesis by (simp add: split_local_paid_only_def)
qed

section \<open>What the pass does to a key\<close>

text \<open>
  The keys of the two rounds and the results for one key, from the queues after eviction. A key
  either leaves the pipeline or is to be fetched from the given sources.
\<close>

datatype key_fate = Leave | Fetch "peer_id list"

definition network_keys :: "cycle_env \<Rightarrow> xor_name set \<Rightarrow> replication_queues \<Rightarrow> xor_name list" where
  "network_keys env paid q = filter (\<lambda>k. \<not> local_paid env paid k) (pending_keys q)"

definition probe_keys :: "cycle_env \<Rightarrow> xor_name set \<Rightarrow> replication_queues \<Rightarrow> xor_name list" where
  "probe_keys env paid q =
     filter (\<lambda>k. local_paid env paid k \<and> pipe q k = Some Replica) (pending_keys q) @
     filter (\<lambda>k. ce_stored env k \<noteq> Some True \<and> storage_admitted env k)
       (filter (\<lambda>k. local_paid env paid k \<and> pipe q k = Some PaidOnly) (pending_keys q))"

definition probe_sources :: "cycle_env \<Rightarrow> xor_name list \<Rightarrow> xor_name \<Rightarrow> peer_id list" where
  "probe_sources env probe k =
     (let targets = compute_presence_targets (ce_fc env) (ce_config env) (ce_self env) probe
      in case run_verification_round probe targets (ce_probe_replies env) k of
           None \<Rightarrow> [] | Some ev \<Rightarrow> present_sources_for_key k ev targets)"

definition network_outcome :: "cycle_env \<Rightarrow> xor_name list \<Rightarrow> xor_name \<Rightarrow> key_verification_outcome" where
  "network_outcome env net k =
     (let targets = compute_verification_targets (ce_fc env) (ce_fcs env) (ce_config env) (ce_self env) net
      in evaluate_key_evidence_with_holder_check k
           (unwrap_or (run_verification_round net targets (ce_network_replies env) k) empty_evidence)
           targets (ce_config env) (holder_credit env net))"

definition fate :: "cycle_env \<Rightarrow> xor_name set \<Rightarrow> replication_queues \<Rightarrow> xor_name \<Rightarrow> hint_pipeline \<Rightarrow> key_fate" where
  "fate env paid q k p =
     (if local_paid env paid k
      then if ce_stored env k = Some True \<or> p = PaidOnly \<and> \<not> storage_admitted env k then Leave
           else (let s = probe_sources env (probe_keys env paid q) k in if s = [] then Leave else Fetch s)
      else case outcome_sources (network_outcome env (network_keys env paid q) k) of
             None \<Rightarrow> Leave
           | Some s \<Rightarrow>
               if s \<noteq> [] \<and> (p = Replica \<or> ce_stored env k \<noteq> Some True \<and> storage_admitted env k)
               then Fetch s else Leave)"

text \<open>The state of a key after the pass, given its pending entry at the start.\<close>

definition resolved ::
  "cycle_env \<Rightarrow> key_fate \<Rightarrow> verification_entry \<Rightarrow> xor_name \<Rightarrow> replication_queues \<times> xor_name list \<Rightarrow> bool" where
  "resolved env f e k s =
     (case f of
        Leave \<Rightarrow> stage (fst s) k = NoStage \<and> k \<in> set (snd s)
      | Fetch srcs \<Rightarrow> k \<notin> set (snd s) \<and>
          (stage (fst s) k = InFetchQueue
             \<lparr>fc_key = k, fc_distance = ce_xor_distance env k (ce_self env), fc_sources = srcs\<rparr> \<or>
           fetch_full (fst s) \<and> (\<exists>st. stage (fst s) k = InPending (e\<lparr>ve_state := st\<rparr>))))"

lemma resolved_cong:
  assumes "resolved env f e k s" "key_view s' k = key_view s k"
    "length (fetch_queue (fst s)) \<le> length (fetch_queue (fst s'))"
  shows "resolved env f e k s'"
  using assms by (auto simp: resolved_def key_view_def split: key_fate.splits)

lemma resolved_remove:
  "inv_fst s \<Longrightarrow> stage (fst s) k = InPending e' \<Longrightarrow> resolved env Leave e k (remove_terminal k s)"
  using remove_terminal_props(3) [of s k e'] by (simp add: resolved_def key_view_def)

lemma resolved_promote:
  assumes "queues_inv q" "stage q k = InPending (e\<lparr>ve_state := st\<rparr>)" "k \<notin> set t"
  shows "resolved env (Fetch srcs) e k
    (snd (promote_pending_to_fetch q k (ce_xor_distance env k (ce_self env)) srcs), t)"
  using stage_promote [OF assms(1,2)] assms(3)
    le_trans [OF _ fetch_queue_promote_mono [of q k "ce_xor_distance env k (ce_self env)" srcs]]
  by (auto simp: resolved_def)

lemma fold_probe_resolved:
  assumes inv: "inv_fst s" and d: "distinct ks" and k: "k \<in> set ks"
    and st: "stage (fst s) k = InPending (e\<lparr>ve_state := x\<rparr>)" "k \<notin> set (snd s)"
    and f: "f = (if ce_stored env k = Some True then Leave
       else let srcs = (case evidence k of None \<Rightarrow> [] | Some ev \<Rightarrow> present_sources_for_key k ev targets)
            in if srcs = [] then Leave else Fetch srcs)"
  shows "resolved env f e k (fold (finish_probe_key env targets evidence) ks s)"
proof -
  let ?step = "finish_probe_key env targets evidence"
  from d have d': "distinct (map id ks)" by simp
  obtain ys zs where ks: "ks = ys @ k # zs" and inv': "inv_fst (fold ?step ys s)"
    and v: "key_view (fold ?step ys s) (id k) = key_view s (id k)"
    by (rule probing.fold_once [OF inv d' k])
  let ?s = "fold ?step ys s"
  obtain q t where qt: "?s = (q, t)" by (cases ?s)
  from v st qt have s': "stage q k = InPending (e\<lparr>ve_state := x\<rparr>)" "k \<notin> set t"
    by (simp_all add: key_view_def)
  have "resolved env f e k (?step k ?s)"
    using resolved_remove [of "(q, t)" k "e\<lparr>ve_state := x\<rparr>"] resolved_promote [of q k x e t] s' inv' qt
    by (auto simp: f finish_probe_key_def Let_def)
  moreover have "key_view (fold ?step zs (?step k ?s)) k = key_view (?step k ?s) k"
    using d ks by (intro probing.fold_other probing.step_inv inv') auto
  moreover have "length (fetch_queue (fst (?step k ?s))) \<le> length (fetch_queue (fst (fold ?step zs (?step k ?s))))"
    by (rule fold_grows [of "\<lambda>s. length (fetch_queue (fst s))"]) (rule fetch_queue_grows)
  ultimately show ?thesis unfolding ks by (auto intro: resolved_cong)
qed

lemma fold_network_resolved:
  assumes inv: "inv_fst s" and d: "distinct (map fst xs)" and k: "(k, outcome, p) \<in> set xs"
    and st: "stage (fst s) k = InPending (e\<lparr>ve_state := x\<rparr>)" "k \<notin> set (snd s)"
    and f: "f = (case outcome_sources outcome of None \<Rightarrow> Leave
       | Some srcs \<Rightarrow> if srcs \<noteq> [] \<and> (p = Replica \<or> k \<in> fk) then Fetch srcs else Leave)"
  shows "resolved env f e k (fold (finish_network_key env fk) xs s)"
proof -
  let ?step = "finish_network_key env fk" and ?x = "(k, outcome, p)"
  obtain ys zs where xs: "xs = ys @ ?x # zs" and inv': "inv_fst (fold ?step ys s)"
    and v: "key_view (fold ?step ys s) (fst ?x) = key_view s (fst ?x)"
    by (rule networking.fold_once [OF inv d k])
  let ?s = "fold ?step ys s"
  obtain q t where qt: "?s = (q, t)" by (cases ?s)
  from v st qt have s': "stage q k = InPending (e\<lparr>ve_state := x\<rparr>)" "k \<notin> set t"
    by (simp_all add: key_view_def)
  have "resolved env f e k (?step ?x ?s)"
    using resolved_remove [of "(q, t)" k "e\<lparr>ve_state := x\<rparr>"] resolved_promote [of q k x e t] s' inv' qt
    by (auto simp: f finish_network_key_def Let_def split: option.split)
  moreover have "key_view (fold ?step zs (?step ?x ?s)) k = key_view (?step ?x ?s) k"
    using d xs by (intro networking.fold_other networking.step_inv inv') auto
  moreover have "length (fetch_queue (fst (?step ?x ?s))) \<le> length (fetch_queue (fst (fold ?step zs (?step ?x ?s))))"
    by (rule fold_grows [of "\<lambda>s. length (fetch_queue (fst s))"]) (rule fetch_queue_grows)
  ultimately show ?thesis unfolding xs by (auto intro: resolved_cong)
qed

section \<open>The whole pass\<close>

lemma round_dom: "dom (run_verification_round ks t replies) = set ks"
proof -
  have "dom (collect_reply t x E) = dom E" for x E
    by (cases x) (auto simp: collect_reply_def process_dom mark_peer_unresolved_def fold_dom
        split: peer_reply.splits option.splits)
  then have "dom (run_verification_round ks t replies) = dom (initial_evidence ks)"
    by (simp add: run_verification_round_def fold_dom)
  also have "\<dots> = set ks" by (auto simp: initial_evidence_def split: if_splits)
  finally show ?thesis .
qed

definition leave_keys :: "cycle_env \<Rightarrow> xor_name set \<Rightarrow> replication_queues \<Rightarrow> xor_name list" where
  "leave_keys env paid q =
     filter (\<lambda>k. ce_stored env k = Some True \<or> \<not> storage_admitted env k)
       (filter (\<lambda>k. local_paid env paid k \<and> pipe q k = Some PaidOnly) (pending_keys q))"

definition local_result :: "cycle_env \<Rightarrow> xor_name set \<Rightarrow> replication_queues \<Rightarrow> replication_queues \<times> xor_name list" where
  "local_result env paid q =
     probe_step env (probe_keys env paid q) (fold remove_terminal (leave_keys env paid q)
       (snd (fold (classify_key env paid) (pending_keys q)
          (\<lparr>sp_probe = [], sp_paid_only = [], sp_network = []\<rparr>, q)), []))"

definition cycle_result ::
  "cycle_env \<Rightarrow> xor_name set \<Rightarrow> replication_queues \<Rightarrow> xor_name set \<times> replication_queues \<times> xor_name list" where
  "cycle_result env paid q = network_step env (network_keys env paid q) paid (local_result env paid q)"

lemma run_verification_cycle_eq:
  "run_verification_cycle env st =
     (let (paid', q', terminal) = cycle_result env (cy_paid st)
            (evict_stale (cy_queues st) (ce_now env) PENDING_VERIFY_MAX_AGE)
      in st\<lparr>cy_queues := q', cy_paid := paid',
            cy_boot := update_bootstrap_after_verification terminal q' (cy_boot st)\<rparr>)"
proof -
  let ?q = "evict_stale (cy_queues st) (ce_now env) PENDING_VERIFY_MAX_AGE"
  let ?c = "fold (classify_key env (cy_paid st)) (pending_keys ?q)
      (\<lparr>sp_probe = [], sp_paid_only = [], sp_network = []\<rparr>, ?q)"
  have "fst ?c = \<lparr>sp_probe = filter (\<lambda>k. local_paid env (cy_paid st) k \<and> pipe ?q k = Some Replica) (pending_keys ?q),
      sp_paid_only = filter (\<lambda>k. local_paid env (cy_paid st) k \<and> pipe ?q k = Some PaidOnly) (pending_keys ?q),
      sp_network = network_keys env (cy_paid st) ?q\<rparr>"
    by (simp add: classify_fold_lists network_keys_def)
  then have c: "?c = (\<lparr>sp_probe = filter (\<lambda>k. local_paid env (cy_paid st) k \<and> pipe ?q k = Some Replica) (pending_keys ?q),
      sp_paid_only = filter (\<lambda>k. local_paid env (cy_paid st) k \<and> pipe ?q k = Some PaidOnly) (pending_keys ?q),
      sp_network = network_keys env (cy_paid st) ?q\<rparr>, snd ?c)"
    by (metis prod.collapse)
  show ?thesis
  proof (cases "pending_keys ?q = []")
    case True
    then have "cycle_result env (cy_paid st) ?q = (cy_paid st, ?q, [])"
      by (simp add: cycle_result_def local_result_def network_step_def probe_step_def network_keys_def
          probe_keys_def leave_keys_def)
    with True show ?thesis
      by (cases "cy_boot st") (simp add: run_verification_cycle_def Let_def update_bootstrap_after_verification_def)
  next
    case False
    then show ?thesis
      unfolding run_verification_cycle_def Let_def
      by (subst c) (simp add: cycle_result_def local_result_def split_local_paid_only_eq
          probe_keys_def leave_keys_def split_beta)
  qed
qed

lemma pending_keys_iff: "k \<in> set (pending_keys q) \<longleftrightarrow> (\<exists>e. stage q k = InPending e)"
  by (auto simp: pending_keys_def stage_InPending get_pending_def map_of_eq_None_iff [symmetric] image_iff
      dest: map_of_keysD) (metis map_of_eq_None_iff not_None_eq image_iff fst_conv)

lemma distinct_pending_keys: "queues_inv q \<Longrightarrow> distinct (pending_keys q)"
  by (simp add: pending_keys_def queues_inv_defs)

lemma pipe_stage: "stage q k = InPending e \<Longrightarrow> pipe q k = Some (ve_pipeline e)"
  by (simp add: stage_InPending pipe_def)

lemma distinct_round_keys:
  assumes "queues_inv q"
  shows "distinct (probe_keys env paid q)" "distinct (network_keys env paid q)" "distinct (leave_keys env paid q)"
  using distinct_pending_keys [OF assms] by (auto simp: probe_keys_def network_keys_def leave_keys_def)

lemma local_result_start:
  fixes env paid q
  defines "s1 \<equiv> (snd (fold (classify_key env paid) (pending_keys q)
          (\<lparr>sp_probe = [], sp_paid_only = [], sp_network = []\<rparr>, q)), [] :: xor_name list)"
  assumes inv: "queues_inv q"
  shows "inv_fst s1"
    and "stage q k = InPending e \<Longrightarrow> \<exists>x. stage (fst s1) k = InPending (e\<lparr>ve_state := x\<rparr>)"
    and "\<not> local_paid env paid k \<or> (\<forall>e. stage q k \<noteq> InPending e) \<Longrightarrow> key_view s1 k = (stage q k, False)"
proof -
  show "inv_fst s1" unfolding s1_def using inv by (simp add: classify_fold_inv)
  assume "stage q k = InPending e"
  then show "\<exists>x. stage (fst s1) k = InPending (e\<lparr>ve_state := x\<rparr>)"
    by (auto simp: s1_def classify_fold_stage intro: exI [of _ "ve_state e"])
next
  assume "\<not> local_paid env paid k \<or> (\<forall>e. stage q k \<noteq> InPending e)"
  then show "key_view s1 k = (stage q k, False)"
    by (auto simp: s1_def classify_fold_stage key_view_def split: key_stage.splits)
qed

lemma local_keys_iff:
  assumes "stage q k = InPending e"
  shows "k \<in> set (leave_keys env paid q) \<longleftrightarrow> local_paid env paid k \<and> ve_pipeline e = PaidOnly \<and>
      (ce_stored env k = Some True \<or> \<not> storage_admitted env k)"
    and "k \<in> set (probe_keys env paid q) \<longleftrightarrow> local_paid env paid k \<and>
      (ve_pipeline e = Replica \<or> ce_stored env k \<noteq> Some True \<and> storage_admitted env k)"
    and "k \<in> set (network_keys env paid q) \<longleftrightarrow> \<not> local_paid env paid k"
  using assms pending_keys_iff [of k q] pipe_stage [OF assms]
  by (cases "ve_pipeline e"; auto simp: leave_keys_def probe_keys_def network_keys_def)+

lemma local_keys_pending:
  "k \<in> set (leave_keys env paid q) \<union> set (probe_keys env paid q) \<Longrightarrow>
     (\<exists>e. stage q k = InPending e) \<and> local_paid env paid k"
  "k \<in> set (network_keys env paid q) \<Longrightarrow> \<exists>e. stage q k = InPending e"
  using pending_keys_iff [of k q] by (auto simp: leave_keys_def probe_keys_def network_keys_def)

lemma local_result_untouched:
  assumes inv: "queues_inv q"
  shows "inv_fst (local_result env paid q)"
    and "\<not> local_paid env paid k \<or> (\<forall>e. stage q k \<noteq> InPending e) \<Longrightarrow>
      key_view (local_result env paid q) k = (stage q k, False)"
proof -
  note start = local_result_start [OF inv]
  show "inv_fst (local_result env paid q)"
    unfolding local_result_def probe_step_def Let_def
    using probing.fold_inv removal.fold_inv start(1) by simp
  assume k: "\<not> local_paid env paid k \<or> (\<forall>e. stage q k \<noteq> InPending e)"
  then have "k \<notin> set (leave_keys env paid q)" "k \<notin> set (probe_keys env paid q)"
    using local_keys_pending(1) by blast+
  then show "key_view (local_result env paid q) k = (stage q k, False)"
    unfolding local_result_def probe_step_def Let_def
    using start(3) [OF k] start(1) by (simp add: probing.fold_other removal.fold_other removal.fold_inv)
qed

lemma fold_removal_resolved:
  assumes inv: "inv_fst s" and d: "distinct ks" and k: "k \<in> set ks" and st: "stage (fst s) k = InPending e'"
  shows "resolved env Leave e k (fold remove_terminal ks s)"
proof -
  from d have d': "distinct (map id ks)" by simp
  obtain ys zs where inv': "inv_fst (fold remove_terminal ys s)"
    and v: "key_view (fold remove_terminal ys s) (id k) = key_view s (id k)"
    and w: "key_view (fold remove_terminal ks s) (id k) = key_view (remove_terminal k (fold remove_terminal ys s)) (id k)"
    by (rule removal.fold_once [OF inv d' k])
  from v st have "stage (fst (fold remove_terminal ys s)) k = InPending e'" by (simp add: key_view_def)
  from remove_terminal_props(3) [OF inv' this] w show ?thesis by (simp add: resolved_def key_view_def)
qed

lemma fold_probe_grows:
  "length (fetch_queue (fst s)) \<le>
     length (fetch_queue (fst (fold (finish_probe_key env targets evidence) ks s)))"
  by (rule fold_grows [of "\<lambda>s. length (fetch_queue (fst s))"]) (rule fetch_queue_grows)

lemma fold_network_grows:
  "length (fetch_queue (fst s)) \<le> length (fetch_queue (fst (fold (finish_network_key env fk) xs s)))"
  by (rule fold_grows [of "\<lambda>s. length (fetch_queue (fst s))"]) (rule fetch_queue_grows)

lemma probe_step_props:
  assumes "inv_fst s"
  shows "k \<notin> set probe \<Longrightarrow> key_view (probe_step env probe s) k = key_view s k"
    and "length (fetch_queue (fst s)) \<le> length (fetch_queue (fst (probe_step env probe s)))"
  using assms by (auto simp: probe_step_def Let_def probing.fold_other fold_probe_grows)

lemma local_result_resolved:
  assumes inv: "queues_inv q" and k: "stage q k = InPending e" "local_paid env paid k"
  shows "resolved env (fate env paid q k (ve_pipeline e)) e k (local_result env paid q)"
proof -
  let ?s1 = "(snd (fold (classify_key env paid) (pending_keys q)
          (\<lparr>sp_probe = [], sp_paid_only = [], sp_network = []\<rparr>, q)), [] :: xor_name list)"
  let ?s2 = "fold remove_terminal (leave_keys env paid q) ?s1" and ?P = "probe_keys env paid q"
  note start = local_result_start [OF inv, where env = env and paid = paid]
  note inv2 = removal.fold_inv [OF start(1)]
  obtain x where x: "stage (fst ?s1) k = InPending (e\<lparr>ve_state := x\<rparr>)" using start(2) [OF k(1)] by blast
  show ?thesis
  proof (cases "k \<in> set (leave_keys env paid q)")
    case True
    then have nP: "k \<notin> set ?P" using local_keys_iff [OF k(1), of env paid] by auto
    have "resolved env Leave e k ?s2"
      by (rule fold_removal_resolved [OF start(1) distinct_round_keys(3) [OF inv] True x])
    then have "resolved env Leave e k (local_result env paid q)"
      unfolding local_result_def using probe_step_props [OF inv2] nP by (blast intro: resolved_cong)
    moreover have "fate env paid q k (ve_pipeline e) = Leave"
      using True local_keys_iff(1) [OF k(1), of env paid] k(2) by (auto simp: fate_def)
    ultimately show ?thesis by simp
  next
    case False
    then have P: "k \<in> set ?P" using local_keys_iff [OF k(1), of env paid] k(2)
      by (cases "ve_pipeline e") auto
    have v: "key_view ?s2 k = key_view ?s1 k" by (rule removal.fold_other [OF start(1)]) (use False in simp)
    have "resolved env (fate env paid q k (ve_pipeline e)) e k (probe_step env ?P ?s2)"
      using P k(2) local_keys_iff [OF k(1), of env paid] v x inv2 distinct_round_keys(1) [OF inv, of env paid] False
      unfolding probe_step_def Let_def
      by (auto simp: key_view_def fate_def probe_sources_def Let_def intro!: fold_probe_resolved)
    then show ?thesis by (simp add: local_result_def)
  qed
qed

section \<open>The network step\<close>

definition evaluated_keys ::
  "cycle_env \<Rightarrow> xor_name set \<Rightarrow> replication_queues \<Rightarrow> (xor_name \<times> key_verification_outcome \<times> hint_pipeline) list" where
  "evaluated_keys env paid q =
     map (\<lambda>k. (k, network_outcome env (network_keys env paid q) k, the (pipe q k))) (network_keys env paid q)"

lemma map_filter_all_Some:
  "(\<And>x. x \<in> set xs \<Longrightarrow> f x = Some (g x)) \<Longrightarrow> List.map_filter f xs = map g xs"
  by (induction xs) (auto simp: List.map_filter_simps)

lemma evaluate_keys_eq:
  assumes "\<And>k. k \<in> set (network_keys env paid q) \<Longrightarrow> get_pending q' k = get_pending q k"
  shows "evaluate_keys env (network_keys env paid q)
     (compute_verification_targets (ce_fc env) (ce_fcs env) (ce_config env) (ce_self env) (network_keys env paid q))
     (run_verification_round (network_keys env paid q)
        (compute_verification_targets (ce_fc env) (ce_fcs env) (ce_config env) (ce_self env) (network_keys env paid q))
        (ce_network_replies env)) q' = evaluated_keys env paid q"
  unfolding evaluate_keys_def evaluated_keys_def
proof (rule map_filter_all_Some)
  fix k assume k: "k \<in> set (network_keys env paid q)"
  then obtain e where e: "get_pending q' k = Some e" "get_pending q k = Some e"
    using local_keys_pending(2) [OF k] assms [OF k] by (auto simp: stage_InPending)
  obtain ev where "run_verification_round (network_keys env paid q) (compute_verification_targets (ce_fc env)
      (ce_fcs env) (ce_config env) (ce_self env) (network_keys env paid q)) (ce_network_replies env) k = Some ev"
    using k round_dom [of "network_keys env paid q"] by blast
  with e show "(case run_verification_round (network_keys env paid q) (compute_verification_targets (ce_fc env)
      (ce_fcs env) (ce_config env) (ce_self env) (network_keys env paid q)) (ce_network_replies env) k of
       None \<Rightarrow> None
     | Some ev \<Rightarrow> (case get_pending q' k of None \<Rightarrow> None
        | Some entry \<Rightarrow> Some (k, evaluate_key_evidence_with_holder_check k ev (compute_verification_targets (ce_fc env)
             (ce_fcs env) (ce_config env) (ce_self env) (network_keys env paid q)) (ce_config env)
             (holder_credit env (network_keys env paid q)), ve_pipeline entry))) =
     Some (k, network_outcome env (network_keys env paid q) k, the (pipe q k))"
    by (simp add: network_outcome_def pipe_def)
qed

lemma cycle_result_eq:
  assumes "queues_inv q"
  shows "cycle_result env paid q =
    (fold (paid_list_insert env) (paid_insert_keys (evaluated_keys env paid q)) paid,
     fold (finish_network_key env (paid_only_fetch_keys env (evaluated_keys env paid q)))
       (evaluated_keys env paid q) (local_result env paid q))"
proof (cases "network_keys env paid q = []")
  case True
  then show ?thesis by (simp add: cycle_result_def network_step_def evaluated_keys_def paid_insert_keys_def)
next
  case False
  have "get_pending (fst (local_result env paid q)) k = get_pending q k" if "k \<in> set (network_keys env paid q)" for k
  proof -
    note net = that
    from net have "\<not> local_paid env paid k" by (simp add: network_keys_def)
    with local_result_untouched(2) [OF assms] have "stage (fst (local_result env paid q)) k = stage q k"
      by (simp add: key_view_def)
    moreover obtain e where "stage q k = InPending e" using local_keys_pending(2) [OF net] by blast
    ultimately show ?thesis by (simp add: stage_InPending)
  qed
  with False show ?thesis by (simp add: cycle_result_def network_step_def evaluate_keys_eq Let_def)
qed

lemma fold_paid_list_insert:
  "fold (paid_list_insert env) ks paid = paid \<union> {k \<in> set ks. ce_paid_insert_ok env k}"
  by (induction ks arbitrary: paid) (auto simp: paid_list_insert_def)

lemma fst_evaluated_keys: "map fst (evaluated_keys env paid q) = network_keys env paid q"
  by (simp add: evaluated_keys_def comp_def)

lemma evaluated_keys_iff:
  "(k, o', p) \<in> set (evaluated_keys env paid q) \<longleftrightarrow> k \<in> set (network_keys env paid q) \<and>
     o' = network_outcome env (network_keys env paid q) k \<and> p = the (pipe q k)"
  by (auto simp: evaluated_keys_def)

text \<open>The keys a pass adds to the paid list, if the insertion succeeds.\<close>

lemma cycle_paid:
  assumes "queues_inv q"
  shows "fst (cycle_result env paid q) = paid \<union> {k \<in> set (network_keys env paid q).
    ce_paid_insert_ok env k \<and> outcome_sources (network_outcome env (network_keys env paid q) k) \<noteq> None}"
  unfolding cycle_result_eq [OF assms] fold_paid_list_insert
  by (auto simp: paid_insert_keys_def evaluated_keys_iff image_iff)

lemma cycle_inv:
  assumes "queues_inv q" shows "queues_inv (fst (snd (cycle_result env paid q)))"
  unfolding cycle_result_eq [OF assms]
  using networking.fold_inv [OF local_result_untouched(1) [OF assms]] by simp

lemma paid_only_fetch_iff:
  assumes "stage q k = InPending e" "k \<in> set (network_keys env paid q)" "ve_pipeline e = PaidOnly"
  shows "k \<in> paid_only_fetch_keys env (evaluated_keys env paid q) \<longleftrightarrow>
    outcome_sources (network_outcome env (network_keys env paid q) k) \<noteq> None \<and>
    ce_stored env k \<noteq> Some True \<and> storage_admitted env k"
  using assms pipe_stage [OF assms(1)]
  by (auto simp: paid_only_fetch_keys_def evaluated_keys_iff image_iff Bex_def)

text \<open>The effect of the whole pass on a pending key, and on any other.\<close>

lemma cycle_resolved:
  assumes inv: "queues_inv q" and k: "stage q k = InPending e"
  shows "resolved env (fate env paid q k (ve_pipeline e)) e k (snd (cycle_result env paid q))"
proof (cases "local_paid env paid k")
  case True
  then have "k \<notin> fst ` set (evaluated_keys env paid q)"
    by (auto simp: evaluated_keys_iff network_keys_def)
  then show ?thesis
    unfolding cycle_result_eq [OF inv] snd_conv
    by (intro resolved_cong [OF local_result_resolved [OF inv k True]] fold_network_grows
        networking.fold_other local_result_untouched(1) [OF inv])
next
  case False
  then have net: "k \<in> set (network_keys env paid q)" by (simp add: local_keys_iff(3) [OF k])
  from False local_result_untouched(2) [OF inv, of env paid k]
  have st: "stage (fst (local_result env paid q)) k = InPending (e\<lparr>ve_state := ve_state e\<rparr>)"
    "k \<notin> set (snd (local_result env paid q))" using k by (simp_all add: key_view_def)
  have d: "distinct (map fst (evaluated_keys env paid q))"
    by (simp add: fst_evaluated_keys distinct_round_keys [OF inv])
  have mem: "(k, network_outcome env (network_keys env paid q) k, ve_pipeline e) \<in> set (evaluated_keys env paid q)"
    using net pipe_stage [OF k] by (simp add: evaluated_keys_iff)
  show ?thesis
    unfolding cycle_result_eq [OF inv] snd_conv
    by (rule fold_network_resolved [OF local_result_untouched(1) [OF inv] d mem st])
      (use False paid_only_fetch_iff [OF k net] in \<open>cases "ve_pipeline e"; auto simp: fate_def split: option.split\<close>)
qed

lemma cycle_other:
  assumes inv: "queues_inv q" and k: "\<forall>e. stage q k \<noteq> InPending e"
  shows "key_view (snd (cycle_result env paid q)) k = (stage q k, False)"
proof -
  have "k \<notin> fst ` set (evaluated_keys env paid q)"
    using k local_keys_pending(2) [of k env paid q] by (auto simp: evaluated_keys_iff)
  then show ?thesis
    unfolding cycle_result_eq [OF inv] snd_conv
    using networking.fold_other [OF local_result_untouched(1) [OF inv], of k]
      local_result_untouched(2) [OF inv, of env paid k] k by simp
qed

section \<open>Where a verified outcome comes from\<close>

definition says_present :: "cycle_env \<Rightarrow> xor_name \<Rightarrow> peer_id \<Rightarrow> bool" where
  "says_present env k p \<longleftrightarrow> (\<exists>rs. (p, VerificationReply rs) \<in> set (ce_network_replies env) \<and>
     (\<exists>r\<in>set rs. vr_key r = k \<and> vr_present r))"

definition says_paid :: "cycle_env \<Rightarrow> xor_name \<Rightarrow> peer_id \<Rightarrow> bool" where
  "says_paid env k p \<longleftrightarrow> (\<exists>rs. (p, VerificationReply rs) \<in> set (ce_network_replies env) \<and>
     (\<exists>r\<in>set rs. vr_key r = k \<and> vr_paid r = Some True))"

definition proved_holder :: "cycle_env \<Rightarrow> xor_name \<Rightarrow> peer_id \<Rightarrow> bool" where
  "proved_holder env k p \<longleftrightarrow> (\<exists>rec h. ce_commitments env p = Some rec \<and> pc_cached_hash rec = Some h \<and>
     is_credited_holder (ce_provers env) k p h (ce_now env))"

lemma paid_group_sizes_fold:
  "paid_group_sizes (fold (add_quorum_peer key) ps t) = paid_group_sizes t"
  "paid_group_sizes (fold (add_paid_peer key) ps t) = paid_group_sizes t"
  by (induction ps arbitrary: t) (simp_all add: add_quorum_peer_def add_paid_peer_def)

lemma targets_of_round:
  assumes "k \<in> set ks"
  shows "quorum_peers_of (compute_verification_targets fc fcs config self_id ks) k =
      filter (\<lambda>p. p \<noteq> self_id) (fc k (close_group_size config))"
    and "paid_peers_of (compute_verification_targets fc fcs config self_id ks) k =
      filter (\<lambda>p. p \<noteq> self_id) (fcs k (paid_list_close_group_size config))"
    and "paid_group_sizes (compute_verification_targets fc fcs config self_id ks) k =
      Some (length (fcs k (paid_list_close_group_size config)))"
proof -
  have "paid_group_sizes (fold (add_key_targets fc fcs config self_id) ks t) k =
      (if k \<in> set ks then Some (length (fcs k (paid_list_close_group_size config))) else paid_group_sizes t k)" for t
    by (induction ks arbitrary: t) (auto simp: add_key_targets_def Let_def paid_group_sizes_fold)
  with assms show "paid_group_sizes (compute_verification_targets fc fcs config self_id ks) k =
      Some (length (fcs k (paid_list_close_group_size config)))"
    by (simp add: compute_verification_targets_def dedup_keys_def)
qed (use assms in \<open>simp_all add: compute_verification_targets_def dedup_keys_asked fold_targets_asked\<close>)

lemma evidence_from_replies:
  assumes "ev = unwrap_or (run_verification_round ks t (ce_network_replies env) k) empty_evidence"
  shows "presence ev p = Some Present \<Longrightarrow> says_present env k p"
    and "paid_list_ev ev p = Some Confirmed \<Longrightarrow> says_paid env k p"
  using assms fold_collect_Present [of t "ce_network_replies env" "initial_evidence ks" k p]
    fold_collect_Confirmed [of t "ce_network_replies env" "initial_evidence ks" k p]
  by (auto simp: run_verification_round_def presence_of_def paid_of_def says_present_def says_paid_def
      initial_evidence_def empty_evidence_def unwrap_or_def split: option.splits if_splits)

lemma network_verified_backed:
  assumes net: "k \<in> set net" and ver: "outcome_sources (network_outcome env net k) \<noteq> None"
  shows "(let Q = filter (\<lambda>p. p \<noteq> ce_self env) (ce_fc env k (close_group_size (ce_config env)));
              needed = quorum_needed (ce_config env) (length Q)
          in 0 < needed \<and> needed \<le> length (filter (\<lambda>p. says_present env k p \<and>
               (ce_stored env k = Some True \<and> p \<in> ce_capable env \<longrightarrow> proved_holder env k p)) Q)) \<or>
    (let G = ce_fcs env k (paid_list_close_group_size (ce_config env))
     in length G < 2 * length (filter (\<lambda>p. p \<noteq> ce_self env \<and> says_paid env k p) G))"
proof -
  let ?t = "compute_verification_targets (ce_fc env) (ce_fcs env) (ce_config env) (ce_self env) net"
  define ev where "ev = unwrap_or (run_verification_round net ?t (ce_network_replies env) k) empty_evidence"
  note from_replies = evidence_from_replies [OF ev_def]
  note targets = targets_of_round [OF net]
  let ?Q = "filter (\<lambda>p. p \<noteq> ce_self env) (ce_fc env k (close_group_size (ce_config env)))"
  let ?G = "ce_fcs env k (paid_list_close_group_size (ce_config env))"
  have credit: "holder_credit env net p k \<Longrightarrow> ce_stored env k = Some True \<Longrightarrow> p \<in> ce_capable env \<Longrightarrow>
      proved_holder env k p" for p
    using net by (auto simp: holder_credit_def proved_holder_def split: option.splits bind_splits if_splits)
  have "length (credited_positives (holder_credit env net) k ev ?t) \<le> length (filter (\<lambda>p. says_present env k p \<and>
      (ce_stored env k = Some True \<and> p \<in> ce_capable env \<longrightarrow> proved_holder env k p)) ?Q)"
    unfolding targets by (rule length_filter_mono) (use from_replies credit in blast)
  moreover have "length (confirmations k ev ?t) \<le> length (filter (\<lambda>p. p \<noteq> ce_self env \<and> says_paid env k p) ?G)"
    unfolding targets filter_filter by (rule length_filter_mono) (use from_replies in blast)
  moreover have "(0 < quorum_needed (ce_config env) (length ?Q) \<and>
        quorum_needed (ce_config env) (length ?Q) \<le> length (credited_positives (holder_credit env net) k ev ?t)) \<or>
      length ?G < 2 * length (confirmations k ev ?t)"
    using ver unfolding network_outcome_def Let_def ev_def [symmetric] evaluate_eq targets
    by (auto simp: confirm_needed_def targets split: if_splits)
  ultimately show ?thesis unfolding Let_def by linarith
qed

section \<open>Properties\<close>

definition evicted :: "cycle_env \<Rightarrow> cycle_state \<Rightarrow> replication_queues" where
  "evicted env st = evict_stale (cy_queues st) (ce_now env) PENDING_VERIFY_MAX_AGE"

lemma cycle_queues_eq:
  "cy_queues (run_verification_cycle env st) = fst (snd (cycle_result env (cy_paid st) (evicted env st)))"
  "cy_paid (run_verification_cycle env st) = fst (cycle_result env (cy_paid st) (evicted env st))"
  "cy_boot (run_verification_cycle env st) = update_bootstrap_after_verification
     (snd (snd (cycle_result env (cy_paid st) (evicted env st)))) (cy_queues (run_verification_cycle env st))
     (cy_boot st)"
  by (simp_all add: run_verification_cycle_eq evicted_def split_beta Let_def)

lemma evicted_inv: "queues_inv (cy_queues st) \<Longrightarrow> queues_inv (evicted env st)"
  by (simp add: evicted_def evict_stale_inv)


text \<open>A node with one pending key whose paid list and replies can be chosen.\<close>

definition example_env :: "(peer_id \<times> peer_reply) list \<Rightarrow> cycle_env" where
  "example_env replies =
     \<lparr>ce_fc = \<lambda>_ _. [10], ce_fcs = \<lambda>_ _. [1, 10], ce_self = 1, ce_config = default_config 7,
      ce_stored = \<lambda>_. Some False, ce_paid_read_ok = \<lambda>_. True, ce_paid_insert_ok = \<lambda>_. True,
      ce_commitments = Map.empty, ce_capable = {}, ce_provers = [], ce_now = 6,
      ce_xor_distance = (XOR), ce_probe_replies = replies, ce_network_replies = replies\<rparr>"

definition example_cycle_state :: "xor_name set \<Rightarrow> cycle_state" where
  "example_cycle_state paid = \<lparr>cy_queues = example_queues, cy_paid = paid, cy_boot = (bootstrap_new, True)\<rparr>"

abbreviation present_reply :: "(peer_id \<times> peer_reply) list" where
  "present_reply \<equiv> [(10, VerificationReply [\<lparr>vr_key = 42, vr_present = True, vr_paid = None\<rparr>])]"

lemma example_evicted: "evicted (example_env rs) (example_cycle_state paid) = example_queues"
  by (simp add: evicted_def example_env_def example_cycle_state_def example_queues_eq evict_stale_def
      example_entry_def PENDING_VERIFY_MAX_AGE_def from_secs_def)

lemmas example_round_simps =
  probe_sources_def probe_keys_def network_keys_def pending_keys_def pipe_def get_pending_def local_paid_def
  paid_contains_def compute_presence_targets_def compute_verification_targets_def add_presence_targets_def
  add_key_targets_def add_quorum_peer_def add_paid_peer_def dedup_keys_def targets_empty_def
  run_verification_round_def initial_evidence_def collect_reply_def process_verification_response_def
  apply_result_def fill_missing_def or_insert_def empty_evidence_def present_sources_for_key_def
  collect_present_sources_def sat_mul64_def u64_max_def

lemma example_fate:
  "fate (example_env present_reply) {42} example_queues 42 Replica = Fetch [10]"
  by (simp add: fate_def example_round_simps example_queues_eq example_entry_def example_env_def Let_def)


text \<open>
  C28. A key enters the paid list only on the word of its neighbourhood: if a pass adds a key, the
  key was pending and fresh, and either at least the needed number of the peers closest to it
  answered this very round that they hold it (each of them, if this node holds the key and the peer
  is known to commit to storage, with a recent storage proof of that key under its current
  commitment), or more than half of its paid close group answered that it is paid.
\<close>

theorem paid_list_growth_backed:
  assumes "reachable_from queue_step queues_new (cy_queues st)"
    and "k \<in> cy_paid (run_verification_cycle env st) - cy_paid st"
  shows "(\<exists>e. get_pending (cy_queues st) k = Some e \<and> ce_now env - created_at e < PENDING_VERIFY_MAX_AGE) \<and>
    ((let Q = filter (\<lambda>p. p \<noteq> ce_self env) (ce_fc env k (close_group_size (ce_config env)));
          needed = quorum_needed (ce_config env) (length Q)
      in 0 < needed \<and> needed \<le> length (filter (\<lambda>p. says_present env k p \<and>
           (ce_stored env k = Some True \<and> p \<in> ce_capable env \<longrightarrow> proved_holder env k p)) Q)) \<or>
     (let G = ce_fcs env k (paid_list_close_group_size (ce_config env))
      in length G < 2 * length (filter (\<lambda>p. p \<noteq> ce_self env \<and> says_paid env k p) G)))"
proof -
  let ?q = "evicted env st"
  from queues.inv_reachable [OF assms(1)] have inv0: "queues_inv (cy_queues st)" .
  from assms(2) cycle_paid [OF evicted_inv [OF inv0], of env "cy_paid st"]
  have net: "k \<in> set (network_keys env (cy_paid st) ?q)"
    and ver: "outcome_sources (network_outcome env (network_keys env (cy_paid st) ?q) k) \<noteq> None"
    by (auto simp: cycle_queues_eq)
  from local_keys_pending(2) [OF net] obtain e where e: "stage ?q k = InPending e" by blast
  have "get_pending (cy_queues st) k = Some e \<and> ce_now env - created_at e < PENDING_VERIFY_MAX_AGE"
    using e stage_evict [OF inv0, of "ce_now env" PENDING_VERIFY_MAX_AGE k]
    by (auto simp: evicted_def stage_InPending split: key_stage.splits if_splits)
  with network_verified_backed [OF net ver] show ?thesis by blast
qed

lemma example_paid:
  "42 \<in> cy_paid (run_verification_cycle (example_env present_reply) (example_cycle_state {}))"
proof -
  have inv: "queues_inv example_queues" by (rule queues.inv_reachable [OF example_queues_reachable])
  have net: "network_keys (example_env present_reply) {} example_queues = [42]"
    by (simp add: example_round_simps example_queues_eq example_env_def)
  have "outcome_sources (network_outcome (example_env present_reply) [42] 42) \<noteq> None"
    by (simp add: network_outcome_def example_round_simps example_env_def Let_def holder_credit_def
        evaluate_key_evidence_with_holder_check_def quorum_needed_def confirm_needed_def default_config_def
        QUORUM_THRESHOLD_def)
  with cycle_paid [OF inv, of "example_env present_reply" "{}"] net show ?thesis
    by (simp add: cycle_queues_eq example_evicted) (simp add: example_cycle_state_def example_env_def)
qed

theorem paid_list_growth_backed_witness:
  "says_present (example_env present_reply) 42 10"
proof -
  have r: "reachable_from queue_step queues_new (cy_queues (example_cycle_state {}))"
    by (simp add: example_cycle_state_def example_queues_reachable)
  have k: "42 \<in> cy_paid (run_verification_cycle (example_env present_reply) (example_cycle_state {})) -
      cy_paid (example_cycle_state {})" using example_paid by (simp add: example_cycle_state_def)
  have "\<not> says_paid (example_env present_reply) 42 10" by (simp add: says_paid_def example_env_def)
  with paid_list_growth_backed [OF r k] show ?thesis
    by (auto simp: Let_def example_env_def split: if_splits)
qed

end
