(* ===== verification/Audit_Messages.thy ===== *)
theory Audit_Messages
  imports Subtree Types
begin

text \<open>
  The messages of the audits (src/src/replication/protocol.rs), what an auditor sees of a request,
  and the outcome of an audit with its evidence (audit.rs, types.rs). Reason strings of rejections
  are diagnostic text and left out.
\<close>

section \<open>Messages\<close>

record key_audit_challenge =
  kc_challenge_id :: nat
  kc_nonce :: hash32
  kc_challenged_peer_id :: peer_id
  kc_keys :: "xor_name list"

datatype key_audit_response =
    Digests nat "hash32 list"
  | DigestsBootstrapping nat
  | DigestsRejected nat

definition ABSENT_KEY_DIGEST :: hash32 where "ABSENT_KEY_DIGEST = 0"

datatype reject_kind = UnknownCommitment | RejectTransient | RejectProtocol

record subtree_audit_challenge =
  ac_challenge_id :: nat
  ac_nonce :: hash32
  ac_challenged_peer_id :: peer_id
  ac_expected_commitment_hash :: hash32

datatype subtree_audit_response =
    AuditProof nat storage_commitment subtree_proof
  | AuditBootstrapping nat
  | AuditRejected nat reject_kind

record subtree_byte_challenge =
  by_challenge_id :: nat
  by_nonce :: hash32
  by_challenged_peer_id :: peer_id
  by_expected_commitment_hash :: hash32
  by_keys :: "xor_name list"

datatype subtree_byte_item = ItemPresent xor_name bytes | ItemAbsent xor_name

datatype subtree_byte_response =
    ByteItems nat "subtree_byte_item list"
  | ByteBootstrapping nat
  | ByteRejected nat reject_kind

datatype reply_body =
    BodyKeyAuditResponse key_audit_response
  | BodyAuditResponse subtree_audit_response
  | BodyByteResponse subtree_byte_response
  | BodyOther

text \<open>What the auditor sees of one request: it could not be encoded, no answer came in time (or the
  transport failed), the answer could not be decoded, or a message.\<close>

datatype wire = EncodeFailed | SendFailed | Undecodable | Received reply_body

section \<open>Outcomes\<close>

datatype failure_evidence =
    ReplicationFailure peer_id xor_name
  | AuditFailure nat peer_id "xor_name list" audit_failure_summary audit_failure_reason
  | BootstrapClaimAbuse peer_id instant
  | QuoteCommitmentMismatch peer_id hash32 nat nat bytes storage_commitment

datatype audit_tick_result =
    TickPassed peer_id nat
  | TickFailed failure_evidence
  | TickBootstrapClaim peer_id
  | TickIdle
  | TickInsufficientKeys

end
