(* ===== verification/Storage_Audit.thy ===== *)
theory Storage_Audit
  imports Audit_Messages Commitment_State Recent_Provers Config
begin

text \<open>
  The two-round storage audit (src/src/replication/storage_commitment_audit.rs). Round 1: the
  auditor pins a commitment hash and sends a nonce; the responder proves the subtree the nonce
  selects. Round 2: the auditor asks for the original bytes of leaves it draws after the proof
  arrived. Both sides are functions; a message exchange is the function that answers a challenge,
  so an honest responder and an arbitrary one are instances of the same auditor. Hash,
  commitment hash and signature check are parameters, random draws and storage reads arguments.
\<close>

section \<open>Outcomes\<close>

datatype reject_grade = GradeConfirmed | GradeTimeoutLane

definition grade_reject :: "reject_kind \<Rightarrow> reject_grade" where
  "grade_reject k = (case k of UnknownCommitment \<Rightarrow> GradeConfirmed | RejectProtocol \<Rightarrow> GradeConfirmed
     | RejectTransient \<Rightarrow> GradeTimeoutLane)"

definition subtree_failure_summary :: "audit_failure_reason \<Rightarrow> audit_failure_summary" where
  "subtree_failure_summary reason =
     (let summary = \<lparr>challenged_keys = 1, failed_keys = 0, absent_keys = 0, digest_mismatch_keys = 0\<rparr>
      in case reason of
           FailTimeout \<Rightarrow> summary
         | FailDigestMismatch \<Rightarrow> summary\<lparr>failed_keys := 1, digest_mismatch_keys := 1\<rparr>
         | FailKeyAbsent \<Rightarrow> summary\<lparr>failed_keys := 1, absent_keys := 1\<rparr>
         | FailMalformedResponse \<Rightarrow> summary\<lparr>failed_keys := 1\<rparr>
         | FailRejected \<Rightarrow> summary\<lparr>failed_keys := 1\<rparr>)"

definition failed :: "peer_id \<Rightarrow> nat \<Rightarrow> audit_failure_reason \<Rightarrow> audit_tick_result" where
  "failed challenged_peer challenge_id reason =
     TickFailed (AuditFailure challenge_id challenged_peer [] (subtree_failure_summary reason) reason)"

section \<open>Responder\<close>

definition AUDIT_READ_RETRY_ATTEMPTS :: nat where "AUDIT_READ_RETRY_ATTEMPTS = 3"

text \<open>
  The \<open>n\<close>-th read of a key; \<open>Inl ()\<close> is a transient IO error, \<open>Inr None\<close> means that the key is
  definitely not stored.
\<close>

type_synonym reads = "xor_name \<Rightarrow> nat \<Rightarrow> unit + bytes option"

function get_raw_from :: "reads \<Rightarrow> xor_name \<Rightarrow> nat \<Rightarrow> unit + bytes option" where
  "get_raw_from rd key attempt =
     (case rd key attempt of
        Inr v \<Rightarrow> Inr v
      | Inl e \<Rightarrow> if attempt < AUDIT_READ_RETRY_ATTEMPTS then get_raw_from rd key (attempt + 1) else Inl e)"
  by auto
termination by (relation "measure (\<lambda>(_, _, attempt). AUDIT_READ_RETRY_ATTEMPTS - attempt)") auto

declare get_raw_from.simps [simp del]

definition get_raw_retrying :: "reads \<Rightarrow> xor_name \<Rightarrow> unit + bytes option" where
  "get_raw_retrying rd key = get_raw_from rd key 1"

fun read_leaves ::
  "(bytes \<Rightarrow> hash32) \<Rightarrow> reads \<Rightarrow> subtree_audit_challenge \<Rightarrow> xor_name list \<Rightarrow>
     reject_kind + subtree_leaf_data list" where
  "read_leaves b3 rd challenge [] = Inr []"
| "read_leaves b3 rd challenge (key # ks) =
     (case get_raw_retrying rd key of
        Inr (Some bs) \<Rightarrow>
          (case read_leaves b3 rd challenge ks of
             Inl e \<Rightarrow> Inl e
           | Inr ls \<Rightarrow> Inr (subtree_leaf b3 (ac_nonce challenge) (ac_challenged_peer_id challenge) key bs # ls))
      | Inr None \<Rightarrow> Inl RejectProtocol
      | Inl e \<Rightarrow> Inl RejectTransient)"

definition handle_subtree_challenge ::
  "(bytes \<Rightarrow> hash32) \<Rightarrow> nat \<Rightarrow> reads \<Rightarrow> peer_id \<Rightarrow> bool \<Rightarrow> inner option \<Rightarrow>
     subtree_audit_challenge \<Rightarrow> subtree_audit_response" where
  "handle_subtree_challenge b3 max_key_count rd self_peer_id is_bootstrapping commitment_state challenge =
     (let cid = ac_challenge_id challenge
      in if is_bootstrapping then AuditBootstrapping cid
         else if ac_challenged_peer_id challenge \<noteq> self_peer_id then AuditRejected cid RejectProtocol
         else case commitment_state of
           None \<Rightarrow> AuditRejected cid RejectProtocol
         | Some state \<Rightarrow>
             (case lookup_by_hash state (ac_expected_commitment_hash challenge) of
                None \<Rightarrow> AuditRejected cid UnknownCommitment
              | Some built \<Rightarrow>
                  (case subtree_plan max_key_count (bc_tree built) (ac_nonce challenge) of
                     Inl e \<Rightarrow> AuditRejected cid RejectProtocol
                   | Inr plan \<Rightarrow>
                       (case read_leaves b3 rd challenge (pl_leaf_keys plan) of
                          Inl kind \<Rightarrow> AuditRejected cid kind
                        | Inr leaves \<Rightarrow> AuditProof cid (bc_commitment built)
                            \<lparr>sp_leaves = leaves, sp_cut_hashes = pl_cut_hashes plan\<rparr>))))"

text \<open>The items of round 2; \<open>None\<close> is the panic of \<open>proof_for\<close>.\<close>

fun read_items ::
  "reads \<Rightarrow> built_commitment \<Rightarrow> xor_name list \<Rightarrow> (reject_kind + subtree_byte_item list) option" where
  "read_items rd built [] = Some (Inr [])"
| "read_items rd built (key # ks) =
     (case proof_for built key of
        None \<Rightarrow> None
      | Some None \<Rightarrow> map_option (map_sum id (\<lambda>items. ItemAbsent key # items)) (read_items rd built ks)
      | Some (Some _) \<Rightarrow>
          (case get_raw_retrying rd key of
             Inr (Some bs) \<Rightarrow> map_option (map_sum id (\<lambda>items. ItemPresent key bs # items)) (read_items rd built ks)
           | Inr None \<Rightarrow> map_option (map_sum id (\<lambda>items. ItemAbsent key # items)) (read_items rd built ks)
           | Inl e \<Rightarrow> Some (Inl RejectTransient)))"

definition handle_subtree_byte_challenge ::
  "nat \<Rightarrow> reads \<Rightarrow> peer_id \<Rightarrow> bool \<Rightarrow> inner option \<Rightarrow> subtree_byte_challenge \<Rightarrow>
     subtree_byte_response option" where
  "handle_subtree_byte_challenge max_chunk_size rd self_peer_id is_bootstrapping commitment_state challenge =
     (let cid = by_challenge_id challenge
      in if is_bootstrapping then Some (ByteBootstrapping cid)
         else if by_challenged_peer_id challenge \<noteq> self_peer_id then Some (ByteRejected cid RejectProtocol)
         else if length (by_keys challenge) > MAX_BYTE_CHALLENGE_KEYS max_chunk_size
         then Some (ByteRejected cid RejectProtocol)
         else case commitment_state of
           None \<Rightarrow> Some (ByteRejected cid RejectProtocol)
         | Some state \<Rightarrow>
             (case lookup_by_hash state (by_expected_commitment_hash challenge) of
                None \<Rightarrow> Some (ByteRejected cid UnknownCommitment)
              | Some built \<Rightarrow>
                  map_option (\<lambda>r. case r of Inl kind \<Rightarrow> ByteRejected cid kind | Inr items \<Rightarrow> ByteItems cid items)
                    (read_items rd built (by_keys challenge))))"

section \<open>Auditor\<close>

definition BYTE_SPOTCHECK_MIN :: nat where "BYTE_SPOTCHECK_MIN = 3"

definition BYTE_SPOTCHECK_MAX :: nat where "BYTE_SPOTCHECK_MAX = 5"

definition AUDIT_SPOTCHECK_COUNT :: nat where "AUDIT_SPOTCHECK_COUNT = 5"

definition SUBTREE_AUDIT_TIMEOUT_LEAF_HINT :: nat where "SUBTREE_AUDIT_TIMEOUT_LEAF_HINT = 1000"

record audit_params =
  ap_b3 :: "bytes \<Rightarrow> hash32"
  ap_max_key_count :: nat
  ap_max_chunk_size :: nat
  ap_commitment_hash :: "storage_commitment \<Rightarrow> hash32 option"
  ap_verify_signature :: "storage_commitment \<Rightarrow> bool"

record audit_ctx =
  cx_peer :: peer_id
  cx_challenge_id :: nat
  cx_nonce :: hash32
  cx_expected_hash :: hash32

datatype byte_round = RoundServed "subtree_byte_item list" | RoundRejected | RoundTransientReject | RoundTimeout | RoundMalformed

datatype audit_verdict = VerdictPass nat | VerdictFail audit_failure_reason

text \<open>The deadline of round 1, from the subtree the nonce selects.\<close>

definition proof_deadline :: "audit_params \<Rightarrow> replication_config \<Rightarrow> hash32 \<Rightarrow> nat \<Rightarrow> duration" where
  "proof_deadline ap config nonce kc =
     audit_response_timeout config (ap_max_chunk_size ap)
       (case select_subtree_path (ap_max_key_count ap) nonce kc of
          None \<Rightarrow> SUBTREE_AUDIT_TIMEOUT_LEAF_HINT | Some p \<Rightarrow> real_leaf_count p)"

definition byte_challenge :: "audit_ctx \<Rightarrow> xor_name list \<Rightarrow> subtree_byte_challenge" where
  "byte_challenge ctx ks =
     \<lparr>by_challenge_id = cx_challenge_id ctx, by_nonce = cx_nonce ctx, by_challenged_peer_id = cx_peer ctx,
      by_expected_commitment_hash = cx_expected_hash ctx, by_keys = ks\<rparr>"

definition request_byte_proof ::
  "audit_ctx \<Rightarrow> (subtree_byte_challenge \<Rightarrow> wire) \<Rightarrow> xor_name list \<Rightarrow> byte_round" where
  "request_byte_proof ctx send ks =
     (case send (byte_challenge ctx ks) of
        EncodeFailed \<Rightarrow> RoundMalformed
      | SendFailed \<Rightarrow> RoundTimeout
      | Undecodable \<Rightarrow> RoundMalformed
      | Received body \<Rightarrow>
          (case body of
             BodyByteResponse (ByteItems cid items) \<Rightarrow>
               if cid = cx_challenge_id ctx then RoundServed items else RoundMalformed
           | BodyByteResponse (ByteRejected cid kind) \<Rightarrow>
               if cid = cx_challenge_id ctx
               then (case grade_reject kind of GradeConfirmed \<Rightarrow> RoundRejected
                     | GradeTimeoutLane \<Rightarrow> RoundTransientReject)
               else RoundMalformed
           | BodyByteResponse (ByteBootstrapping cid) \<Rightarrow>
               if cid = cx_challenge_id ctx then RoundTimeout else RoundMalformed
           | _ \<Rightarrow> RoundMalformed))"

definition evaluate_subtree_structure ::
  "audit_params \<Rightarrow> storage_commitment \<Rightarrow> subtree_proof \<Rightarrow> hash32 \<Rightarrow> hash32 \<Rightarrow> peer_id \<Rightarrow>
     audit_failure_reason + unit" where
  "evaluate_subtree_structure ap commitment proof nonce expected_hash peer =
     (if sc_sender_peer_id commitment \<noteq> peer then Inl FailRejected
      else if ap_b3 ap (sc_sender_public_key commitment) \<noteq> sc_sender_peer_id commitment then Inl FailRejected
      else if ap_commitment_hash ap commitment \<noteq> Some expected_hash then Inl FailRejected
      else if \<not> ap_verify_signature ap commitment then Inl FailRejected
      else case verify_subtree_proof (ap_b3 ap) (ap_max_key_count ap) proof nonce commitment of
        Invalid _ \<Rightarrow> Inl FailDigestMismatch
      | Valid \<Rightarrow> Inr ())"

text \<open>
  The sample of round 2: \<open>draws n i\<close> is the \<open>i\<close>-th number \<open>gen_range(0..n)\<close> gives. The loop gives up after a bounded number of draws and is topped up from the lowest index.
\<close>

function pick_loop :: "(nat \<Rightarrow> nat) \<Rightarrow> nat \<Rightarrow> nat \<Rightarrow> nat \<Rightarrow> nat set \<Rightarrow> nat set" where
  "pick_loop draws want bound guard picked =
     (if card picked < want \<and> guard < bound
      then pick_loop draws want bound (guard + 1) (insert (draws guard) picked) else picked)"
  by auto
termination by (relation "measure (\<lambda>(_, _, bound, guard, _). bound - guard)") auto

declare pick_loop.simps [simp del]

fun pick_top_up :: "nat \<Rightarrow> nat list \<Rightarrow> nat set \<Rightarrow> nat set" where
  "pick_top_up want [] picked = picked"
| "pick_top_up want (idx # idxs) picked =
     (if card picked \<ge> want then picked else pick_top_up want idxs (insert idx picked))"

definition random_spotcheck_leaves :: "(nat \<Rightarrow> nat \<Rightarrow> nat) \<Rightarrow> subtree_proof \<Rightarrow> nat \<Rightarrow> subtree_leaf_data list" where
  "random_spotcheck_leaves draws proof cnt =
     (let n = length (sp_leaves proof); want = min cnt n
      in if n = 0 then []
         else map (\<lambda>i. sp_leaves proof ! i)
           (sorted_list_of_set (pick_top_up want [0..<n] (pick_loop (draws n) want (max (cnt * 64) 64) 0 {}))))"

fun verify_byte_response ::
  "(bytes \<Rightarrow> hash32) \<Rightarrow> hash32 \<Rightarrow> peer_id \<Rightarrow> (xor_name \<Rightarrow> bytes option option) \<Rightarrow>
     subtree_leaf_data list \<Rightarrow> nat \<Rightarrow> audit_verdict" where
  "verify_byte_response b3 nonce peer served [] checked = VerdictPass checked"
| "verify_byte_response b3 nonce peer served (leaf # leaves) checked =
     (case served (sl_key leaf) of
        Some (Some content) \<Rightarrow>
          if sl_bytes_hash leaf \<noteq> b3 content \<or>
             sl_nonced_hash leaf \<noteq> nonced_leaf_hash b3 nonce peer (sl_key leaf) content
          then VerdictFail FailDigestMismatch
          else verify_byte_response b3 nonce peer served leaves (checked + 1)
      | _ \<Rightarrow> VerdictFail FailDigestMismatch)"

fun find_item :: "subtree_byte_item list \<Rightarrow> xor_name \<Rightarrow> bytes option option" where
  "find_item [] key = None"
| "find_item (ItemPresent k bs # items) key = (if k = key then Some (Some bs) else find_item items key)"
| "find_item (ItemAbsent k # items) key = (if k = key then Some None else find_item items key)"

function chunks :: "nat \<Rightarrow> 'a list \<Rightarrow> 'a list list" where
  "chunks n xs = (if xs = [] \<or> n = 0 then [] else take n xs # chunks n (drop n xs))"
  by auto
termination by (relation "measure (\<lambda>(n, xs). length xs)") auto

declare chunks.simps [simp del]

type_synonym credit = "recent_provers option"

fun byte_rounds ::
  "audit_params \<Rightarrow> audit_ctx \<Rightarrow> (subtree_byte_challenge \<Rightarrow> wire) \<Rightarrow> nat \<Rightarrow>
     subtree_leaf_data list list \<Rightarrow> credit \<Rightarrow> audit_verdict \<times> credit" where
  "byte_rounds ap ctx send total_n [] cr = (VerdictPass total_n, cr)"
| "byte_rounds ap ctx send total_n (batch # batches) cr =
     (case request_byte_proof ctx send (map sl_key batch) of
        RoundServed items \<Rightarrow>
          (case verify_byte_response (ap_b3 ap) (cx_nonce ctx) (cx_peer ctx) (find_item items) batch 0 of
             VerdictFail reason \<Rightarrow> (VerdictFail reason, cr)
           | VerdictPass _ \<Rightarrow> byte_rounds ap ctx send total_n batches cr)
      | RoundRejected \<Rightarrow> (VerdictFail FailRejected, cr)
      | RoundTransientReject \<Rightarrow>
          (VerdictFail FailTimeout, map_option (forget_commitment (cx_expected_hash ctx)) cr)
      | RoundTimeout \<Rightarrow> (VerdictFail FailTimeout, cr)
      | RoundMalformed \<Rightarrow> (VerdictFail FailMalformedResponse, cr))"

definition record_leaves ::
  "peer_id \<Rightarrow> hash32 \<Rightarrow> instant \<Rightarrow> subtree_leaf_data list \<Rightarrow> recent_provers \<Rightarrow> recent_provers" where
  "record_leaves peer pin now leaves rp = fold (\<lambda>leaf. record_proof (sl_key leaf) peer pin now) leaves rp"

definition verify_subtree_response ::
  "audit_params \<Rightarrow> audit_ctx \<Rightarrow> (subtree_byte_challenge \<Rightarrow> wire) \<Rightarrow> (nat \<Rightarrow> nat \<Rightarrow> nat) \<Rightarrow> instant \<Rightarrow>
     storage_commitment \<Rightarrow> subtree_proof \<Rightarrow> credit \<Rightarrow> audit_tick_result \<times> credit" where
  "verify_subtree_response ap ctx send draws now commitment proof cr =
     (case evaluate_subtree_structure ap commitment proof (cx_nonce ctx) (cx_expected_hash ctx) (cx_peer ctx) of
        Inl reason \<Rightarrow> (failed (cx_peer ctx) (cx_challenge_id ctx) reason, cr)
      | Inr _ \<Rightarrow>
          let sample_n = max BYTE_SPOTCHECK_MIN (min AUDIT_SPOTCHECK_COUNT BYTE_SPOTCHECK_MAX);
              sampled = random_spotcheck_leaves draws proof sample_n
          in if sampled = [] then (failed (cx_peer ctx) (cx_challenge_id ctx) FailDigestMismatch, cr)
             else
               (case byte_rounds ap ctx send (length sampled)
                       (chunks (MAX_BYTE_CHALLENGE_KEYS (ap_max_chunk_size ap)) sampled) cr of
                  (VerdictFail reason, cr') \<Rightarrow> (failed (cx_peer ctx) (cx_challenge_id ctx) reason, cr')
                | (VerdictPass checked, cr') \<Rightarrow>
                    (TickPassed (cx_peer ctx) checked,
                     case ap_commitment_hash ap commitment of
                       None \<Rightarrow> cr'
                     | Some pin \<Rightarrow> map_option (record_leaves (cx_peer ctx) pin now (sp_leaves proof)) cr')))"

definition dispatch_subtree_response ::
  "audit_params \<Rightarrow> audit_ctx \<Rightarrow> (subtree_byte_challenge \<Rightarrow> wire) \<Rightarrow> (nat \<Rightarrow> nat \<Rightarrow> nat) \<Rightarrow> instant \<Rightarrow>
     reply_body \<Rightarrow> credit \<Rightarrow> audit_tick_result \<times> credit" where
  "dispatch_subtree_response ap ctx send draws now body cr =
     (let malformed = (failed (cx_peer ctx) (cx_challenge_id ctx) FailMalformedResponse, cr)
      in case body of
           BodyAuditResponse (AuditBootstrapping cid) \<Rightarrow>
             if cid \<noteq> cx_challenge_id ctx then malformed else (TickBootstrapClaim (cx_peer ctx), cr)
         | BodyAuditResponse (AuditRejected cid kind) \<Rightarrow>
             if cid \<noteq> cx_challenge_id ctx then malformed
             else (case grade_reject kind of
                GradeConfirmed \<Rightarrow> (failed (cx_peer ctx) (cx_challenge_id ctx) FailRejected, cr)
              | GradeTimeoutLane \<Rightarrow>
                  (failed (cx_peer ctx) (cx_challenge_id ctx) FailTimeout,
                   map_option (forget_commitment (cx_expected_hash ctx)) cr))
         | BodyAuditResponse (AuditProof cid commitment proof) \<Rightarrow>
             if cid \<noteq> cx_challenge_id ctx then malformed
             else verify_subtree_response ap ctx send draws now commitment proof cr
         | _ \<Rightarrow> malformed)"

definition audit_challenge :: "audit_ctx \<Rightarrow> subtree_audit_challenge" where
  "audit_challenge ctx =
     \<lparr>ac_challenge_id = cx_challenge_id ctx, ac_nonce = cx_nonce ctx, ac_challenged_peer_id = cx_peer ctx,
      ac_expected_commitment_hash = cx_expected_hash ctx\<rparr>"

definition run_subtree_audit ::
  "audit_params \<Rightarrow> audit_ctx \<Rightarrow> (subtree_audit_challenge \<Rightarrow> wire) \<Rightarrow> (subtree_byte_challenge \<Rightarrow> wire) \<Rightarrow>
     (nat \<Rightarrow> nat \<Rightarrow> nat) \<Rightarrow> instant \<Rightarrow> credit \<Rightarrow> audit_tick_result \<times> credit" where
  "run_subtree_audit ap ctx send send_bytes draws now cr =
     (case send (audit_challenge ctx) of
        EncodeFailed \<Rightarrow> (TickIdle, cr)
      | SendFailed \<Rightarrow> (failed (cx_peer ctx) (cx_challenge_id ctx) FailTimeout, cr)
      | Undecodable \<Rightarrow> (failed (cx_peer ctx) (cx_challenge_id ctx) FailMalformedResponse, cr)
      | Received body \<Rightarrow> dispatch_subtree_response ap ctx send_bytes draws now body cr)"

section \<open>The sample\<close>

lemma pick_loop_props:
  assumes "\<And>i. draws i < n" "picked \<subseteq> {..<n}" "card picked \<le> want"
  shows "pick_loop draws want bound guard picked \<subseteq> {..<n} \<and> card (pick_loop draws want bound guard picked) \<le> want"
  using assms
proof (induction draws want bound guard picked rule: pick_loop.induct)
  case (1 draws want bound guard picked)
  have "card (insert (draws guard) picked) \<le> Suc (card picked)" by (rule card_insert_le_m1) auto
  with 1 show ?case by (subst (1 2) pick_loop.simps) auto
qed

lemma pick_top_up_props:
  assumes "finite picked" "card picked \<le> want" "want \<le> card (picked \<union> set idxs)"
  shows "card (pick_top_up want idxs picked) = want \<and> picked \<subseteq> pick_top_up want idxs picked \<and>
    pick_top_up want idxs picked \<subseteq> picked \<union> set idxs"
  using assms
proof (induction want idxs picked rule: pick_top_up.induct)
  case (2 want idx idxs picked)
  show ?case
  proof (cases "want \<le> card picked")
    case False
    have "card (insert idx picked) \<le> Suc (card picked)" using "2.prems"(1) by (simp add: card_insert_if)
    with 2 False show ?thesis by (auto simp: insert_commute)
  qed (use 2 in auto)
qed auto

lemma random_spotcheck_leaves_props:
  assumes draws: "\<And>n i. 0 < n \<Longrightarrow> draws n i < n"
  obtains S where "S \<subseteq> {..<length (sp_leaves pf)}" "card S = min cnt (length (sp_leaves pf))"
    "random_spotcheck_leaves draws pf cnt = map (\<lambda>i. sp_leaves pf ! i) (sorted_list_of_set S)"
proof (cases "sp_leaves pf = []")
  case True
  then show ?thesis using that [of "{}"] by (simp add: random_spotcheck_leaves_def)
next
  case False
  let ?n = "length (sp_leaves pf)" and ?w = "min cnt (length (sp_leaves pf))"
  let ?P = "pick_loop (draws ?n) ?w (max (cnt * 64) 64) 0 {}"
  have P: "?P \<subseteq> {..<?n}" "card ?P \<le> ?w" using pick_loop_props [of "draws ?n" ?n "{}" ?w] draws False by auto
  have fin: "finite ?P" using P(1) finite_subset by blast
  have "?P \<union> set [0..<?n] = {..<?n}" using P(1) by auto
  then have "card (pick_top_up ?w [0..<?n] ?P) = ?w \<and> pick_top_up ?w [0..<?n] ?P \<subseteq> {..<?n}"
    using pick_top_up_props [OF fin P(2), of "[0..<?n]"] P(1) by auto
  with that [of "pick_top_up ?w [0..<?n] ?P"] False show ?thesis
    by (simp add: random_spotcheck_leaves_def Let_def)
qed

lemma length_sample: "card S = m \<Longrightarrow> length (map f (sorted_list_of_set S)) = m"
  by simp

section \<open>Batches\<close>

lemma concat_chunks: "0 < n \<Longrightarrow> concat (chunks n xs) = xs"
  by (induction n xs rule: chunks.induct) (subst chunks.simps, auto)

lemma set_chunks: "0 < n \<Longrightarrow> b \<in> set (chunks n xs) \<Longrightarrow> length b \<le> n \<and> set b \<subseteq> set xs"
proof (induction n xs rule: chunks.induct)
  case (1 n xs)
  from "1.prems"(2) have "xs \<noteq> [] \<and> (b = take n xs \<or> b \<in> set (chunks n (drop n xs)))"
    by (simp add: chunks.simps [of n xs] split: if_splits)
  with 1 show ?case by (auto dest: in_set_takeD in_set_dropD)
qed

text \<open>What a passing leaf proves, and when a batch passes.\<close>

definition leaf_served ::
  "(bytes \<Rightarrow> hash32) \<Rightarrow> hash32 \<Rightarrow> peer_id \<Rightarrow> (xor_name \<Rightarrow> bytes option option) \<Rightarrow> subtree_leaf_data \<Rightarrow> bool" where
  "leaf_served b3 nonce peer served leaf \<longleftrightarrow> (\<exists>bs. served (sl_key leaf) = Some (Some bs) \<and>
     sl_bytes_hash leaf = b3 bs \<and> sl_nonced_hash leaf = nonced_leaf_hash b3 nonce peer (sl_key leaf) bs)"

lemma verify_byte_response_eq:
  "verify_byte_response b3 nonce peer served leaves n =
     (if \<forall>l\<in>set leaves. leaf_served b3 nonce peer served l then VerdictPass (n + length leaves)
      else VerdictFail FailDigestMismatch)"
  by (induction leaves arbitrary: n) (auto simp: leaf_served_def split: option.splits)

lemma byte_rounds_pass:
  "(\<forall>b\<in>set batches. \<exists>items. request_byte_proof ctx send (map sl_key b) = RoundServed items \<and>
      (\<forall>l\<in>set b. leaf_served (ap_b3 ap) (cx_nonce ctx) (cx_peer ctx) (find_item items) l)) \<Longrightarrow>
   byte_rounds ap ctx send total_n batches cr = (VerdictPass total_n, cr)"
  by (induction batches) (fastforce simp: verify_byte_response_eq)+

lemma byte_rounds_passed:
  "byte_rounds ap ctx send total_n batches cr = (VerdictPass n, cr') \<Longrightarrow>
   n = total_n \<and> cr' = cr \<and> (\<forall>b\<in>set batches. \<exists>items. request_byte_proof ctx send (map sl_key b) = RoundServed items \<and>
      (\<forall>l\<in>set b. leaf_served (ap_b3 ap) (cx_nonce ctx) (cx_peer ctx) (find_item items) l))"
  by (induction batches) (auto simp: verify_byte_response_eq split: byte_round.splits audit_verdict.splits if_splits)

lemma request_served:
  "request_byte_proof ctx send ks = RoundServed items \<longleftrightarrow>
     send (byte_challenge ctx ks) = Received (BodyByteResponse (ByteItems (cx_challenge_id ctx) items))"
  by (auto simp: request_byte_proof_def split: wire.splits reply_body.splits subtree_byte_response.splits
      reject_grade.splits if_splits)

section \<open>The responder's answers\<close>

text \<open>The commitment a node built over its entries.\<close>

lemma build_commitmentD:
  assumes "build_commitment b3 mx sign ch es peer sk pk = Inr b"
  shows "build b3 mx es = Inr (bc_tree b)" "sc_root (bc_commitment b) = root (bc_tree b)"
    "sc_key_count (bc_commitment b) = key_count (bc_tree b)" "sc_sender_peer_id (bc_commitment b) = peer"
    "sc_sender_public_key (bc_commitment b) = pk" "ch (bc_commitment b) = Some (bc_hash b)"
  using assms by (auto simp: build_commitment_def build_from_tree_def Let_def split: sum.splits option.splits)

text \<open>The keys a nonce selects from the committed entries.\<close>

definition selected_entries :: "nat \<Rightarrow> hash32 \<Rightarrow> (xor_name \<times> hash32) list \<Rightarrow> (xor_name \<times> hash32) list" where
  "selected_entries mx nonce es =
     (case select_subtree_path mx nonce (length es) of None \<Rightarrow> []
      | Some p \<Rightarrow> drop (st_leaf_start p) (take (st_leaf_end p) (sort_key fst es)))"

lemma plan_selected:
  assumes "build b3 mx es = Inr t" "mx \<le> 2 ^ 31"
  shows "\<exists>cuts. subtree_plan mx t nonce = Inr \<lparr>pl_leaf_keys = map fst (selected_entries mx nonce es), pl_cut_hashes = cuts\<rparr>"
    and "selected_entries mx nonce es \<noteq> []" and "set (selected_entries mx nonce es) \<subseteq> set es"
proof -
  from assms(1) obtain ss where t: "t = tree_of b3 ss" and ss: "ss = sort_key fst es" "ss \<noteq> []" "length ss \<le> mx"
    by (rule sorted_entries)
  obtain p where p: "select_subtree_path mx nonce (length ss) = Some p"
    "length (drop (st_leaf_start p) (take (st_leaf_end p) ss)) = real_leaf_count p" "0 < real_leaf_count p"
    by (rule chosen_range [OF ss(2,3) assms(2)])
  have sel: "selected_entries mx nonce es = drop (st_leaf_start p) (take (st_leaf_end p) ss)"
    using p(1) by (simp add: selected_entries_def ss(1))
  show "\<exists>cuts. subtree_plan mx t nonce = Inr \<lparr>pl_leaf_keys = map fst (selected_entries mx nonce es), pl_cut_hashes = cuts\<rparr>"
    unfolding sel t by (rule exI, rule subtree_plan_built [OF ss(2,3) assms(2) p(1)])
  show "selected_entries mx nonce es \<noteq> []" using p(2,3) unfolding sel by (metis length_0_conv less_irrefl)
  show "set (selected_entries mx nonce es) \<subseteq> set es"
    using order_trans [OF set_drop_subset set_take_subset, of "st_leaf_start p" "st_leaf_end p" ss]
    unfolding sel ss(1) by simp
qed

lemma read_leaves_ok:
  assumes "\<And>k. k \<in> set ks \<Longrightarrow> get_raw_retrying rd k = Inr (Some (content k))"
  shows "read_leaves b3 rd ch ks =
    Inr (map (\<lambda>k. subtree_leaf b3 (ac_nonce ch) (ac_challenged_peer_id ch) k (content k)) ks)"
  using assms by (induction ks) auto

lemma read_leaves_first_failure:
  assumes "find (\<lambda>k. \<forall>bs. get_raw_retrying rd k \<noteq> Inr (Some bs)) ks = Some k"
  shows "read_leaves b3 rd ch ks = Inl (if get_raw_retrying rd k = Inr None then RejectProtocol else RejectTransient)"
  using assms by (induction ks) (auto split: sum.splits option.splits if_splits)

lemma get_raw_retrying_cases:
  "get_raw_retrying rd k =
     (if rd k 1 \<noteq> Inl () then rd k 1 else if rd k 2 \<noteq> Inl () then rd k 2 else rd k 3)"
  by (auto simp: get_raw_retrying_def get_raw_from.simps AUDIT_READ_RETRY_ATTEMPTS_def numeral_2_eq_2 numeral_3_eq_3
      split: sum.splits)

lemma proof_for_committed:
  assumes "build b3 mx es = Inr (bc_tree b)" "mx \<le> 2 ^ 31" "k \<in> fst ` set es"
  shows "\<exists>v. proof_for b k = Some (Some v)"
proof -
  from assms(3) obtain bh where "(k, bh) \<in> set es" by auto
  with honest_path_verifies [OF assms(1,2), of k bh] show ?thesis by (auto simp: proof_for_def)
qed

lemma read_items_ok:
  assumes "build b3 mx es = Inr (bc_tree b)" "mx \<le> 2 ^ 31"
    and "\<And>k. k \<in> set ks \<Longrightarrow> k \<in> fst ` set es \<and> get_raw_retrying rd k = Inr (Some (content k))"
  shows "read_items rd b ks = Some (Inr (map (\<lambda>k. ItemPresent k (content k)) ks))"
  using assms(3)
proof (induction ks)
  case (Cons k ks)
  obtain v where "proof_for b k = Some (Some v)"
    using proof_for_committed [OF assms(1,2), of k] Cons.prems by auto
  with Cons show ?case by simp
qed simp

lemma find_item_present:
  "k \<in> set ks \<Longrightarrow> find_item (map (\<lambda>k. ItemPresent k (content k)) ks) k = Some (Some (content k))"
  by (induction ks) auto

text \<open>An answerable commitment and a node that follows the code.\<close>

definition honest_send ::
  "audit_params \<Rightarrow> reads \<Rightarrow> peer_id \<Rightarrow> inner \<Rightarrow> subtree_audit_challenge \<Rightarrow> wire" where
  "honest_send ap rd self st c = Received (BodyAuditResponse
     (handle_subtree_challenge (ap_b3 ap) (ap_max_key_count ap) rd self False (Some st) c))"

definition honest_send_bytes ::
  "audit_params \<Rightarrow> reads \<Rightarrow> peer_id \<Rightarrow> inner \<Rightarrow> subtree_byte_challenge \<Rightarrow> wire" where
  "honest_send_bytes ap rd self st c =
     (case handle_subtree_byte_challenge (ap_max_chunk_size ap) rd self False (Some st) c of
        None \<Rightarrow> SendFailed | Some r \<Rightarrow> Received (BodyByteResponse r))"

lemma honest_bytes_served:
  assumes b: "build (ap_b3 ap) mx es = Inr (bc_tree b)" "mx \<le> 2 ^ 31"
    and st: "lookup_by_hash st (cx_expected_hash ctx) = Some b" "cx_peer ctx = self"
    and ks: "length ks \<le> MAX_BYTE_CHALLENGE_KEYS (ap_max_chunk_size ap)"
      "\<And>k. k \<in> set ks \<Longrightarrow> k \<in> fst ` set es \<and> get_raw_retrying rd k = Inr (Some (content k))"
  shows "request_byte_proof ctx (honest_send_bytes ap rd self st) ks =
    RoundServed (map (\<lambda>k. ItemPresent k (content k)) ks)"
  unfolding request_served
  using st ks(1) read_items_ok [OF b ks(2)]
  by (simp add: honest_send_bytes_def handle_subtree_byte_challenge_def byte_challenge_def)

lemma honest_first_answer:
  assumes b: "build_commitment (ap_b3 ap) (ap_max_key_count ap) sign (ap_commitment_hash ap) es self sk pk = Inr b"
    and mx: "ap_max_key_count ap \<le> 2 ^ 31"
    and st: "lookup_by_hash st (cx_expected_hash ctx) = Some b" "cx_peer ctx = self"
  obtains cuts where "honest_send ap rd self st (audit_challenge ctx) = Received (BodyAuditResponse
    (case read_leaves (ap_b3 ap) rd (audit_challenge ctx)
            (map fst (selected_entries (ap_max_key_count ap) (cx_nonce ctx) es)) of
       Inl kind \<Rightarrow> AuditRejected (cx_challenge_id ctx) kind
     | Inr ls \<Rightarrow> AuditProof (cx_challenge_id ctx) (bc_commitment b) \<lparr>sp_leaves = ls, sp_cut_hashes = cuts\<rparr>))"
    "subtree_plan (ap_max_key_count ap) (bc_tree b) (cx_nonce ctx) =
       Inr \<lparr>pl_leaf_keys = map fst (selected_entries (ap_max_key_count ap) (cx_nonce ctx) es), pl_cut_hashes = cuts\<rparr>"
proof -
  obtain cuts where plan: "subtree_plan (ap_max_key_count ap) (bc_tree b) (cx_nonce ctx) =
      Inr \<lparr>pl_leaf_keys = map fst (selected_entries (ap_max_key_count ap) (cx_nonce ctx) es), pl_cut_hashes = cuts\<rparr>"
    using plan_selected(1) [OF build_commitmentD(1) [OF b] mx] by blast
  then show ?thesis
    using st by (intro that [of cuts])
      (auto simp: honest_send_def handle_subtree_challenge_def audit_challenge_def Let_def split: sum.splits)
qed

lemma honest_proof_valid:
  assumes b: "build_commitment (ap_b3 ap) (ap_max_key_count ap) sign (ap_commitment_hash ap) es self sk pk = Inr b"
    and mx: "ap_max_key_count ap \<le> 2 ^ 31"
    and content: "\<And>k bh. (k, bh) \<in> set es \<Longrightarrow> ap_b3 ap (content k) = bh"
    and plan: "subtree_plan (ap_max_key_count ap) (bc_tree b) nonce = Inr \<lparr>pl_leaf_keys = ks, pl_cut_hashes = cuts\<rparr>"
  shows "verify_subtree_proof (ap_b3 ap) (ap_max_key_count ap)
    \<lparr>sp_leaves = map (\<lambda>k. subtree_leaf (ap_b3 ap) nonce self k (content k)) ks, sp_cut_hashes = cuts\<rparr>
    nonce (bc_commitment b) = Valid"
proof -
  note bD = build_commitmentD [OF b]
  have "proof_leaves (ap_b3 ap) nonce self (Some \<circ> content) ks =
      Inr (map (\<lambda>k. subtree_leaf (ap_b3 ap) nonce self k (content k)) ks)"
    by (induction ks) auto
  then have "build_subtree_proof (ap_b3 ap) (ap_max_key_count ap) (bc_tree b) nonce self (Some \<circ> content) =
      Inr \<lparr>sp_leaves = map (\<lambda>k. subtree_leaf (ap_b3 ap) nonce self k (content k)) ks, sp_cut_hashes = cuts\<rparr>"
    by (simp add: build_subtree_proof_def plan)
  moreover have "\<forall>(k, bh)\<in>set es. \<exists>bs. (Some \<circ> content) k = Some bs \<and> ap_b3 ap bs = bh"
    using content by auto
  ultimately show ?thesis
    using honest_subtree_proof_accepted [OF bD(1) mx bD(3,2), of "Some \<circ> content" nonce self] by auto
qed

lemma sample_size: "max BYTE_SPOTCHECK_MIN (min AUDIT_SPOTCHECK_COUNT BYTE_SPOTCHECK_MAX) = 5"
  by (simp add: BYTE_SPOTCHECK_MIN_def BYTE_SPOTCHECK_MAX_def AUDIT_SPOTCHECK_COUNT_def)

lemma leaf_served_honest:
  "served k = Some (Some bs) \<Longrightarrow> leaf_served b3 nonce peer served (subtree_leaf b3 nonce peer k bs)"
  by (simp add: leaf_served_def subtree_leaf_def)

lemma honest_byte_rounds:
  assumes b: "build (ap_b3 ap) mx es = Inr (bc_tree b)" "mx \<le> 2 ^ 31"
    and st: "lookup_by_hash st (cx_expected_hash ctx) = Some b" "cx_peer ctx = self"
    and pos: "0 < MAX_BYTE_CHALLENGE_KEYS (ap_max_chunk_size ap)"
    and sam: "\<And>l. l \<in> set sam \<Longrightarrow> \<exists>k\<in>fst ` set es. get_raw_retrying rd k = Inr (Some (content k)) \<and>
      l = subtree_leaf (ap_b3 ap) (cx_nonce ctx) self k (content k)"
  shows "byte_rounds ap ctx (honest_send_bytes ap rd self st) n
    (chunks (MAX_BYTE_CHALLENGE_KEYS (ap_max_chunk_size ap)) sam) cr = (VerdictPass n, cr)"
proof (rule byte_rounds_pass, rule ballI)
  fix batch assume "batch \<in> set (chunks (MAX_BYTE_CHALLENGE_KEYS (ap_max_chunk_size ap)) sam)"
  note ch = set_chunks [OF pos this]
  let ?ks = "map sl_key batch"
  let ?items = "map (\<lambda>k. ItemPresent k (content k)) ?ks"
  have sam': "\<exists>k\<in>fst ` set es. get_raw_retrying rd k = Inr (Some (content k)) \<and>
      l = subtree_leaf (ap_b3 ap) (cx_nonce ctx) self k (content k)" if "l \<in> set batch" for l
    using that ch by (intro sam) blast
  have ks: "k \<in> fst ` set es \<and> get_raw_retrying rd k = Inr (Some (content k))" if "k \<in> set ?ks" for k
  proof -
    from that obtain l where l: "l \<in> set batch" "k = sl_key l" by auto
    from sam' [OF l(1)] obtain k' where "k' \<in> fst ` set es" "get_raw_retrying rd k' = Inr (Some (content k'))"
      "l = subtree_leaf (ap_b3 ap) (cx_nonce ctx) self k' (content k')" by blast
    then show ?thesis by (simp add: l(2) subtree_leaf_def)
  qed
  have "request_byte_proof ctx (honest_send_bytes ap rd self st) ?ks = RoundServed ?items"
    by (rule honest_bytes_served [OF b st _ ks]) (use ch in auto)
  moreover have "leaf_served (ap_b3 ap) (cx_nonce ctx) (cx_peer ctx) (find_item ?items) l" if l: "l \<in> set batch" for l
  proof -
    obtain k where k: "l = subtree_leaf (ap_b3 ap) (cx_nonce ctx) self k (content k)" using sam' [OF l] by blast
    then have "k = sl_key l" by (simp add: subtree_leaf_def)
    then have "find_item ?items k = Some (Some (content k))" using l by (intro find_item_present) auto
    then show ?thesis unfolding k st(2) by (rule leaf_served_honest)
  qed
  ultimately show "\<exists>items. request_byte_proof ctx (honest_send_bytes ap rd self st) ?ks = RoundServed items \<and>
      (\<forall>l\<in>set batch. leaf_served (ap_b3 ap) (cx_nonce ctx) (cx_peer ctx) (find_item items) l)" by blast
qed

section \<open>Properties\<close>

text \<open>
  C37. An honest holder passes every audit. A node that built the pinned commitment over its entries,
  still retains it, is not bootstrapping and can read the content of every committed key (at the
  latest on the third attempt) passes the two-round audit whatever the nonce and the auditor's random
  draws: five leaves, or all of a smaller subtree, are checked byte by byte, and the auditor records
  a storage proof for every key of the selected subtree under the pinned commitment.
\<close>

theorem honest_audit_passes:
  assumes "build_commitment (ap_b3 ap) (ap_max_key_count ap) sign (ap_commitment_hash ap) es self sk pk = Inr b"
    and "ap_max_key_count ap \<le> 2 ^ 31" and "0 < MAX_BYTE_CHALLENGE_KEYS (ap_max_chunk_size ap)"
    and "ap_b3 ap pk = self" and "ap_verify_signature ap (bc_commitment b)"
    and "lookup_by_hash st (bc_hash b) = Some b"
    and "\<forall>(k, bh)\<in>set es. get_raw_retrying rd k = Inr (Some (content k)) \<and> ap_b3 ap (content k) = bh"
    and "\<forall>n i. 0 < n \<longrightarrow> draws n i < n"
    and "cx_peer ctx = self" and "cx_expected_hash ctx = bc_hash b"
  shows "let sel = selected_entries (ap_max_key_count ap) (cx_nonce ctx) es in
    sel \<noteq> [] \<and>
    run_subtree_audit ap ctx (honest_send ap rd self st) (honest_send_bytes ap rd self st) draws now cr =
      (TickPassed self (min 5 (length sel)),
       map_option (fold (\<lambda>(k, _). record_proof k self (bc_hash b) now) sel) cr)"
proof -
  let ?mx = "ap_max_key_count ap" and ?b3 = "ap_b3 ap" and ?nonce = "cx_nonce ctx"
  let ?sel = "selected_entries ?mx ?nonce es"
  let ?leaf = "\<lambda>k. subtree_leaf ?b3 ?nonce self k (content k)"
  note bD = build_commitmentD [OF assms(1)]
  note sel = plan_selected [OF bD(1) assms(2), of ?nonce]
  have reads: "get_raw_retrying rd k = Inr (Some (content k)) \<and> k \<in> fst ` set es" if "k \<in> fst ` set ?sel" for k
    using that sel(3) assms(7) by fastforce
  obtain cuts where first: "honest_send ap rd self st (audit_challenge ctx) = Received (BodyAuditResponse
      (case read_leaves ?b3 rd (audit_challenge ctx) (map fst ?sel) of
         Inl kind \<Rightarrow> AuditRejected (cx_challenge_id ctx) kind
       | Inr ls \<Rightarrow> AuditProof (cx_challenge_id ctx) (bc_commitment b) \<lparr>sp_leaves = ls, sp_cut_hashes = cuts\<rparr>))"
    and plan: "subtree_plan ?mx (bc_tree b) ?nonce = Inr \<lparr>pl_leaf_keys = map fst ?sel, pl_cut_hashes = cuts\<rparr>"
    using honest_first_answer [OF assms(1,2), where st = st and ctx = ctx and rd = rd] assms(6,9,10) by metis
  define pf where "pf = \<lparr>sp_leaves = map ?leaf (map fst ?sel), sp_cut_hashes = cuts\<rparr>"
  have "read_leaves ?b3 rd (audit_challenge ctx) (map fst ?sel) = Inr (map ?leaf (map fst ?sel))"
    using read_leaves_ok [of "map fst ?sel" rd content ?b3 "audit_challenge ctx"] reads assms(9)
    by (auto simp: audit_challenge_def)
  with first have first': "honest_send ap rd self st (audit_challenge ctx) =
      Received (BodyAuditResponse (AuditProof (cx_challenge_id ctx) (bc_commitment b) pf))"
    by (simp add: pf_def)
  have "verify_subtree_proof ?b3 ?mx pf ?nonce (bc_commitment b) = Valid"
    unfolding pf_def using honest_proof_valid [OF assms(1,2) _ plan, of content] assms(7) by fastforce
  then have struct: "evaluate_subtree_structure ap (bc_commitment b) pf ?nonce (cx_expected_hash ctx) (cx_peer ctx) = Inr ()"
    using bD assms(4,5,9,10) by (simp add: evaluate_subtree_structure_def)
  obtain S where S: "S \<subseteq> {..<length (sp_leaves pf)}" "card S = min 5 (length (sp_leaves pf))"
    "random_spotcheck_leaves draws pf 5 = map (\<lambda>i. sp_leaves pf ! i) (sorted_list_of_set S)"
    using random_spotcheck_leaves_props [of draws pf 5] assms(8) by blast
  let ?sam = "random_spotcheck_leaves draws pf 5"
  have len: "length ?sam = min 5 (length ?sel)" using S(2) unfolding S(3) by (simp add: pf_def)
  have sub: "set ?sam \<subseteq> ?leaf ` fst ` set ?sel"
    using subsetD [OF S(1)] finite_subset [OF S(1)] unfolding S(3)
    by (auto simp: pf_def)
  have sam: "\<exists>k\<in>fst ` set es. get_raw_retrying rd k = Inr (Some (content k)) \<and> l = ?leaf k" if "l \<in> set ?sam" for l
  proof -
    from subsetD [OF sub that] obtain k where k: "k \<in> fst ` set ?sel" "l = ?leaf k" by (rule imageE)
    then show ?thesis using reads [OF k(1)] by (intro bexI [of _ k]) simp_all
  qed
  have "byte_rounds ap ctx (honest_send_bytes ap rd self st) (length ?sam)
      (chunks (MAX_BYTE_CHALLENGE_KEYS (ap_max_chunk_size ap)) ?sam) cr = (VerdictPass (length ?sam), cr)"
    by (rule honest_byte_rounds [OF bD(1) assms(2) _ assms(9,3) sam]) (simp add: assms(6,10))
  moreover have "?sam \<noteq> []" using len sel(2) by (cases ?sam) (auto simp: min_def split: if_splits)
  moreover have "record_leaves self (bc_hash b) now (sp_leaves pf) = fold (\<lambda>(k, _). record_proof k self (bc_hash b) now) ?sel"
    by (auto simp: record_leaves_def pf_def fold_map comp_def subtree_leaf_def case_prod_unfold fun_eq_iff)
  ultimately show ?thesis
    using sel(2) first' struct bD(6) len assms(9)
    by (simp add: Let_def run_subtree_audit_def dispatch_subtree_response_def verify_subtree_response_def sample_size)
qed

definition small_hash :: "bytes \<Rightarrow> hash32" where
  "small_hash bs = (case bs of [x] \<Rightarrow> ucast x | _ \<Rightarrow> 0)"

definition small_params :: audit_params where
  "small_params = \<lparr>ap_b3 = small_hash, ap_max_key_count = 8, ap_max_chunk_size = 4 * 1024 * 1024,
     ap_commitment_hash = \<lambda>_. Some 99, ap_verify_signature = \<lambda>_. True\<rparr>"

definition small_tree :: merkle_tree where
  "small_tree = tree_of small_hash [(1, 7), (2, 9)]"

definition small_built :: built_commitment where
  "small_built = \<lparr>bc_commitment = \<lparr>sc_root = root small_tree, sc_key_count = key_count small_tree,
     sc_sender_peer_id = 5, sc_sender_public_key = [5], sc_signature = []\<rparr>, bc_hash = 99, bc_tree = small_tree\<rparr>"

definition small_state :: inner where
  "small_state = \<lparr>in_slots = [small_built], in_has_current = True, in_recently_gossiped = []\<rparr>"

definition small_reads :: reads where
  "small_reads k attempt = (if attempt < 2 then Inl () else Inr (if k = 1 then Some [7] else Some [9]))"

definition small_ctx :: audit_ctx where
  "small_ctx = \<lparr>cx_peer = 5, cx_challenge_id = 1, cx_nonce = 3, cx_expected_hash = 99\<rparr>"

lemma small_build: "build small_hash 8 [(1, 7), (2, 9)] = Inr small_tree"
  unfolding build_ok_iff by (simp add: small_tree_def)

lemma small_built_ok:
  "build_commitment (ap_b3 small_params) (ap_max_key_count small_params) (\<lambda>_ _. Some [])
     (ap_commitment_hash small_params) [(1, 7), (2, 9)] 5 () [5] = Inr small_built"
  by (simp add: build_commitment_def build_from_tree_def small_params_def small_build sign_commitment_def
      small_built_def)

lemma small_selected: "selected_entries 8 3 [(1, 7), (2, 9)] = [(1, 7), (2, 9)]"
proof -
  have "tree_depth 8 (Suc (Suc 0)) = Some 1" by (subst tree_depth_ok) (simp_all flip: numeral_2_eq_2)
  then show ?thesis
    by (simp add: selected_entries_def select_subtree_path_def SMALL_TREE_FULL_AUDIT_FLOOR_def)
qed

lemma small_reads_ok:
  "get_raw_retrying small_reads 1 = Inr (Some [7])" "get_raw_retrying small_reads 2 = Inr (Some [9])"
  by (simp_all add: get_raw_retrying_def get_raw_from.simps small_reads_def AUDIT_READ_RETRY_ATTEMPTS_def)

theorem honest_audit_passes_witness:
  "run_subtree_audit small_params small_ctx (honest_send small_params small_reads 5 small_state)
     (honest_send_bytes small_params small_reads 5 small_state) (\<lambda>n i. i mod n) 0 (Some []) =
     (TickPassed 5 2, Some (record_proof 2 5 99 0 (record_proof 1 5 99 0 [])))"
proof -
  have "\<forall>(k, bh)\<in>set [(1, 7), (2, 9)]. get_raw_retrying small_reads k =
      Inr (Some (if k = 1 then [7] else [9])) \<and> ap_b3 small_params (if k = 1 then [7] else [9]) = bh"
    by (simp add: small_reads_ok small_params_def small_hash_def)
  from honest_audit_passes [OF small_built_ok _ _ _ _ _ this, where st = small_state and draws = "\<lambda>n i. i mod n"
      and ctx = small_ctx and now = 0 and cr = "Some []"] show ?thesis
    by (simp add: small_params_def small_hash_def small_state_def lookup_by_hash_def small_built_def
        small_ctx_def small_selected Let_def MAX_BYTE_CHALLENGE_KEYS_def MAX_REPLICATION_MESSAGE_SIZE_def
        BYTE_CHALLENGE_RESPONSE_HEADROOM_def)
qed

lemma run_passed:
  assumes "run_subtree_audit ap ctx send send_bytes draws now cr = (TickPassed p n, cr')"
  obtains c pf where
    "send (audit_challenge ctx) = Received (BodyAuditResponse (AuditProof (cx_challenge_id ctx) c pf))"
    "verify_subtree_response ap ctx send_bytes draws now c pf cr = (TickPassed p n, cr')"
  using assms that
  by (auto simp: run_subtree_audit_def dispatch_subtree_response_def failed_def Let_def
      split: wire.splits reply_body.splits subtree_audit_response.splits reject_grade.splits if_splits)

lemma verify_passed:
  assumes "verify_subtree_response ap ctx send_bytes draws now c pf cr = (TickPassed p n, cr')"
  shows "evaluate_subtree_structure ap c pf (cx_nonce ctx) (cx_expected_hash ctx) (cx_peer ctx) = Inr ()"
    and "p = cx_peer ctx" and "random_spotcheck_leaves draws pf 5 \<noteq> []"
    and "\<exists>cr0. byte_rounds ap ctx send_bytes (length (random_spotcheck_leaves draws pf 5))
      (chunks (MAX_BYTE_CHALLENGE_KEYS (ap_max_chunk_size ap)) (random_spotcheck_leaves draws pf 5)) cr =
      (VerdictPass n, cr0) \<and> cr' = (case ap_commitment_hash ap c of None \<Rightarrow> cr0
        | Some pin \<Rightarrow> map_option (record_leaves (cx_peer ctx) pin now (sp_leaves pf)) cr0)"
  using assms
  by (auto simp: verify_subtree_response_def failed_def Let_def sample_size
      split: sum.splits prod.splits audit_verdict.splits if_splits)

lemma structure_ok:
  "evaluate_subtree_structure ap c pf nonce h p = Inr () \<longleftrightarrow>
     sc_sender_peer_id c = p \<and> ap_b3 ap (sc_sender_public_key c) = p \<and> ap_commitment_hash ap c = Some h \<and>
     ap_verify_signature ap c \<and> verify_subtree_proof (ap_b3 ap) (ap_max_key_count ap) pf nonce c = Valid"
  by (auto simp: evaluate_subtree_structure_def split: structure_verdict.splits)

lemma valid_proof_selected:
  assumes "build b3 mx es = Inr t" "mx \<le> 2 ^ 31" "sc_key_count c = key_count t" "sc_root c = root t"
    and "verify_subtree_proof b3 mx pf nonce c = Valid"
    and inj: "inj_on b3 (set (tree_inputs b3 es) \<union>
      set (subtree_inputs b3 (clog2 (length es)) (the (select_subtree_path mx nonce (length es))) pf))"
  shows "map (\<lambda>l. (sl_key l, sl_bytes_hash l)) (sp_leaves pf) = selected_entries mx nonce es"
proof -
  from assms(1) obtain ss where t: "t = tree_of b3 ss" and ss: "ss = sort_key fst es" "ss \<noteq> []" "length ss \<le> mx"
    by (rule sorted_entries)
  have kc: "key_count t = length es" using ss assms(2) by (simp add: t u32_max_def)
  obtain p where p: "select_subtree_path mx nonce (length ss) = Some p"
    by (rule chosen_range [OF ss(2,3) assms(2)])
  then have p': "select_subtree_path mx nonce (length es) = Some p" by (simp add: ss(1))
  with accepted_subtree_proof_committed [OF assms(1-4) _ assms(5), of p] inj show ?thesis
    by (simp add: selected_entries_def kc)
qed

text \<open>
  C38. What a passed audit proves, against any responder and any messages: the peer presented a
  commitment that hashes to the pinned hash, names the peer, has its key hashing to the peer id and
  carries a valid signature; at least one and up to five distinct leaves of its proof were opened,
  and for each the peer sent content that hashes to the leaf's content hash and, with the fresh
  nonce, to its freshness hash. If that commitment is the one the peer built over its entries, and
  BLAKE3 does not collide on the hashed inputs, the leaves are exactly the committed entries the
  nonce selects; credit is recorded for exactly those keys.
\<close>

theorem passed_audit_backed:
  assumes "run_subtree_audit ap ctx send send_bytes draws now cr = (TickPassed p n, cr')"
    and "\<forall>n i. 0 < n \<longrightarrow> draws n i < n" and "0 < MAX_BYTE_CHALLENGE_KEYS (ap_max_chunk_size ap)"
  shows "\<exists>c pf S. p = cx_peer ctx \<and>
    send (audit_challenge ctx) = Received (BodyAuditResponse (AuditProof (cx_challenge_id ctx) c pf)) \<and>
    ap_commitment_hash ap c = Some (cx_expected_hash ctx) \<and> sc_sender_peer_id c = p \<and>
    ap_b3 ap (sc_sender_public_key c) = p \<and> ap_verify_signature ap c \<and>
    S \<subseteq> {..<length (sp_leaves pf)} \<and> card S = n \<and> n = min 5 (length (sp_leaves pf)) \<and> 1 \<le> n \<and>
    (\<forall>i\<in>S. \<exists>ks items. send_bytes (byte_challenge ctx ks) =
         Received (BodyByteResponse (ByteItems (cx_challenge_id ctx) items)) \<and>
       leaf_served (ap_b3 ap) (cx_nonce ctx) p (find_item items) (sp_leaves pf ! i)) \<and>
    cr' = map_option (record_leaves p (cx_expected_hash ctx) now (sp_leaves pf)) cr \<and>
    (\<forall>es t. build (ap_b3 ap) (ap_max_key_count ap) es = Inr t \<and> ap_max_key_count ap \<le> 2 ^ 31 \<and>
       sc_key_count c = key_count t \<and> sc_root c = root t \<and>
       inj_on (ap_b3 ap) (set (tree_inputs (ap_b3 ap) es) \<union> set (subtree_inputs (ap_b3 ap) (clog2 (length es))
         (the (select_subtree_path (ap_max_key_count ap) (cx_nonce ctx) (length es))) pf)) \<longrightarrow>
       map (\<lambda>l. (sl_key l, sl_bytes_hash l)) (sp_leaves pf) = selected_entries (ap_max_key_count ap) (cx_nonce ctx) es)"
proof -
  obtain c pf where first: "send (audit_challenge ctx) = Received (BodyAuditResponse (AuditProof (cx_challenge_id ctx) c pf))"
    and ver: "verify_subtree_response ap ctx send_bytes draws now c pf cr = (TickPassed p n, cr')"
    by (rule run_passed [OF assms(1)])
  note v = verify_passed [OF ver]
  note struct = v(1) [unfolded structure_ok, folded v(2)]
  let ?sam = "random_spotcheck_leaves draws pf 5"
  obtain S where S: "S \<subseteq> {..<length (sp_leaves pf)}" "card S = min 5 (length (sp_leaves pf))"
    "?sam = map (\<lambda>i. sp_leaves pf ! i) (sorted_list_of_set S)"
    using random_spotcheck_leaves_props [of draws pf 5] assms(2) by blast
  have fin: "finite S" using S(1) finite_subset by blast
  from v(4) obtain cr0 where rounds: "byte_rounds ap ctx send_bytes (length ?sam)
      (chunks (MAX_BYTE_CHALLENGE_KEYS (ap_max_chunk_size ap)) ?sam) cr = (VerdictPass n, cr0)"
    and cr': "cr' = map_option (record_leaves p (cx_expected_hash ctx) now (sp_leaves pf)) cr0"
    using struct v(2) by auto
  note rp = byte_rounds_passed [OF rounds]
  have len: "length ?sam = card S" unfolding S(3) by simp
  have n: "n = card S" "1 \<le> n" using rp v(3) len by (auto simp flip: length_greater_0_conv)
  have served: "\<exists>ks items. send_bytes (byte_challenge ctx ks) =
         Received (BodyByteResponse (ByteItems (cx_challenge_id ctx) items)) \<and>
       leaf_served (ap_b3 ap) (cx_nonce ctx) p (find_item items) (sp_leaves pf ! i)" if "i \<in> S" for i
  proof -
    have "sp_leaves pf ! i \<in> set (concat (chunks (MAX_BYTE_CHALLENGE_KEYS (ap_max_chunk_size ap)) ?sam))"
      using that fin by (simp only: concat_chunks [OF assms(3)] S(3)) simp
    then obtain batch where "batch \<in> set (chunks (MAX_BYTE_CHALLENGE_KEYS (ap_max_chunk_size ap)) ?sam)"
      "sp_leaves pf ! i \<in> set batch" by auto
    with rp v(2) show ?thesis unfolding request_served by blast
  qed
  show ?thesis
    using first struct S n served cr' rp v(2) valid_proof_selected [where pf = pf and nonce = "cx_nonce ctx"]
    by (intro exI [of _ c] exI [of _ pf] exI [of _ S] conjI allI impI) auto
qed

definition small_proof :: subtree_proof where
  "small_proof = \<lparr>sp_leaves = [\<lparr>sl_key = 1, sl_bytes_hash = 7, sl_nonced_hash = 0\<rparr>,
     \<lparr>sl_key = 2, sl_bytes_hash = 9, sl_nonced_hash = 0\<rparr>], sp_cut_hashes = []\<rparr>"

definition small_commitment :: storage_commitment where
  "small_commitment = \<lparr>sc_root = 0, sc_key_count = 2, sc_sender_peer_id = 5, sc_sender_public_key = [5],
     sc_signature = []\<rparr>"

lemma small_hash_long: "small_hash (x # y # bs) = 0"
  by (simp add: small_hash_def)

lemma small_node: "node_hash small_hash l r = 0" "leaf_hash small_hash k bh = 0"
  by (simp_all add: node_hash_def leaf_hash_def node_input_def leaf_input_def DOMAIN_NODE_def DOMAIN_LEAF_def
      small_hash_long)

lemma small_nonced: "nonced_leaf_hash small_hash nonce p k bs = 0"
proof -
  obtain x y ys where "bytes_of32 nonce = x # y # ys"
    by (metis length_bytes_of32 list.size(3) One_nat_def Suc_1 length_Cons list.exhaust numeral_eq_one_iff
        semiring_norm(85) zero_neq_numeral)
  then show ?thesis by (simp add: nonced_leaf_hash_def compute_audit_digest_def small_hash_long)
qed

lemma small_structure:
  "evaluate_subtree_structure small_params small_commitment small_proof 3 99 5 = Inr ()"
proof -
  have td: "tree_depth 8 2 = Some 1" by (subst tree_depth_ok) simp_all
  then have "select_subtree_path 8 3 2 = Some \<lparr>st_depth = 0, st_slot = 0, st_leaf_start = 0, st_leaf_end = 2\<rparr>"
    by (simp add: select_subtree_path_def SMALL_TREE_FULL_AUDIT_FLOOR_def)
  with td have "verify_subtree_proof small_hash 8 small_proof 3 small_commitment = Valid"
    by (simp add: verify_subtree_proof_def small_commitment_def small_proof_def real_leaf_count_def
        fold_levels_def small_node)
  then show ?thesis
    by (simp add: evaluate_subtree_structure_def small_params_def small_commitment_def small_hash_def)
qed

lemma small_sample: "random_spotcheck_leaves (\<lambda>n i. i mod n) small_proof 5 = sp_leaves small_proof"
proof -
  have "pick_loop (\<lambda>i. i mod 2) 2 320 0 {} = {0, 1}"
    by (simp add: pick_loop.simps insert_commute)
  then have "pick_loop (\<lambda>i. i mod Suc (Suc 0)) (Suc (Suc 0)) 320 0 {} = {0, Suc 0}"
    by (simp flip: numeral_2_eq_2)
  then show ?thesis by (simp add: random_spotcheck_leaves_def small_proof_def)
qed

lemma small_run:
  "run_subtree_audit small_params small_ctx
     (\<lambda>_. Received (BodyAuditResponse (AuditProof 1 small_commitment small_proof)))
     (\<lambda>_. Received (BodyByteResponse (ByteItems 1 [ItemPresent 1 [7], ItemPresent 2 [9]])))
     (\<lambda>n i. i mod n) 0 None = (TickPassed 5 2, None)"
  using small_structure small_sample
  by (simp add: run_subtree_audit_def dispatch_subtree_response_def verify_subtree_response_def small_ctx_def
      sample_size small_params_def MAX_BYTE_CHALLENGE_KEYS_def MAX_REPLICATION_MESSAGE_SIZE_def
      BYTE_CHALLENGE_RESPONSE_HEADROOM_def small_proof_def chunks.simps request_byte_proof_def
      small_nonced) (simp add: small_hash_def)

theorem passed_audit_backed_witness:
  "\<exists>c. ap_commitment_hash small_params c = Some 99 \<and> sc_sender_peer_id c = 5 \<and>
     ap_b3 small_params (sc_sender_public_key c) = 5"
  using passed_audit_backed [OF small_run]
  by (auto simp: small_ctx_def small_params_def MAX_BYTE_CHALLENGE_KEYS_def MAX_REPLICATION_MESSAGE_SIZE_def
      BYTE_CHALLENGE_RESPONSE_HEADROOM_def)

text \<open>
  Lost data is told apart from a disk hiccup. The responder reads the selected keys in order, each
  up to three times, and the first key it cannot serve decides. If a read finds that key missing
  the audit fails as a confirmed rejection and the auditor's credit is left alone; if all three
  reads end in an IO error the failure goes to the timeout lane and the auditor withdraws the credit
  it gave for the pinned commitment. In neither case does the second round run.
\<close>

theorem unreadable_leaf_graded:
  assumes "build_commitment (ap_b3 ap) (ap_max_key_count ap) sign (ap_commitment_hash ap) es self sk pk = Inr b"
    and "ap_max_key_count ap \<le> 2 ^ 31" and "lookup_by_hash st (bc_hash b) = Some b"
    and "cx_peer ctx = self" and "cx_expected_hash ctx = bc_hash b"
    and "find (\<lambda>k. \<forall>bs. get_raw_retrying rd k \<noteq> Inr (Some bs))
           (map fst (selected_entries (ap_max_key_count ap) (cx_nonce ctx) es)) = Some k"
  shows "run_subtree_audit ap ctx (honest_send ap rd self st) send_bytes draws now cr =
    (if rd k 1 = Inl () \<and> rd k 2 = Inl () \<and> rd k 3 = Inl ()
     then (failed self (cx_challenge_id ctx) FailTimeout, map_option (forget_commitment (bc_hash b)) cr)
     else (failed self (cx_challenge_id ctx) FailRejected, cr))"
proof -
  let ?sel = "selected_entries (ap_max_key_count ap) (cx_nonce ctx) es"
  have lk: "lookup_by_hash st (cx_expected_hash ctx) = Some b" using assms(3,5) by simp
  obtain cuts where first: "honest_send ap rd self st (audit_challenge ctx) = Received (BodyAuditResponse
      (case read_leaves (ap_b3 ap) rd (audit_challenge ctx) (map fst ?sel) of
         Inl kind \<Rightarrow> AuditRejected (cx_challenge_id ctx) kind
       | Inr ls \<Rightarrow> AuditProof (cx_challenge_id ctx) (bc_commitment b) \<lparr>sp_leaves = ls, sp_cut_hashes = cuts\<rparr>))"
    by (rule honest_first_answer [OF assms(1,2) lk assms(4), where rd = rd])
  have unserved: "\<forall>bs. get_raw_retrying rd k \<noteq> Inr (Some bs)"
    using assms(6) by (auto simp: find_Some_iff)
  then have "get_raw_retrying rd k = Inr None \<longleftrightarrow> \<not> (rd k 1 = Inl () \<and> rd k 2 = Inl () \<and> rd k 3 = Inl ())"
    unfolding get_raw_retrying_cases by (cases "rd k 3") (auto split: if_splits, (metis old.sum.exhaust old.unit.exhaust option.exhaust)+)
  then show ?thesis
    using assms(4,5) unfolding run_subtree_audit_def first read_leaves_first_failure [OF assms(6)]
    by (simp add: dispatch_subtree_response_def grade_reject_def)
qed

definition lossy_reads :: "bool \<Rightarrow> reads" where
  "lossy_reads hiccup k attempt = (if k = 1 then Inr (Some [7]) else if hiccup then Inl () else Inr None)"

theorem unreadable_leaf_graded_witness:
  "run_subtree_audit small_params small_ctx (honest_send small_params (lossy_reads False) 5 small_state)
     (\<lambda>_. SendFailed) (\<lambda>n i. i mod n) 0 (Some [(2, [])]) = (failed 5 1 FailRejected, Some [(2, [])]) \<and>
   run_subtree_audit small_params small_ctx (honest_send small_params (lossy_reads True) 5 small_state)
     (\<lambda>_. SendFailed) (\<lambda>n i. i mod n) 0 None = (failed 5 1 FailTimeout, None)"
proof -
  have r: "get_raw_retrying (lossy_reads h) 1 = Inr (Some [7])"
    "get_raw_retrying (lossy_reads h) 2 = (if h then Inl () else Inr None)" for h
    by (simp_all add: get_raw_retrying_cases lossy_reads_def)
  have "find (\<lambda>k. \<forall>bs. get_raw_retrying (lossy_reads h) k \<noteq> Inr (Some bs)) [1, 2] = Some 2" for h
    by (simp add: r)
  then show ?thesis
    using unreadable_leaf_graded [OF small_built_ok, of small_state small_ctx "lossy_reads False" 2
        "\<lambda>_. SendFailed" "\<lambda>n i. i mod n" 0 "Some [(2, [])]"]
      unreadable_leaf_graded [OF small_built_ok, of small_state small_ctx "lossy_reads True" 2
        "\<lambda>_. SendFailed" "\<lambda>n i. i mod n" 0 None]
    by (simp add: small_params_def small_state_def lookup_by_hash_def small_built_def small_ctx_def
        small_selected lossy_reads_def)
qed

end
