(* ===== verification/Responsible_Audit.thy ===== *)
theory Responsible_Audit
  imports Audit_Messages Repair_Proofs
begin

text \<open>
  The audit of single chunks (src/src/replication/audit.rs): a node samples keys of its own store,
  keeps those a chosen peer is responsible for and was told about, and asks the peer for one digest
  per key. Routing-table lookups are functions (one for the sampling and one for the confirmation of
  a failure, since the table may change in between), the random choices and the answer of the peer
  are arguments.
\<close>

section \<open>Who and what is audited\<close>

definition eligible_audit_peers :: "(peer_id \<times> peer_sync_record) list \<Rightarrow> peer_id list" where
  "eligible_audit_peers sync_history = map fst (filter (\<lambda>(_, record). has_repair_opportunity record) sync_history)"

fun mature_audit_keys_for_peer ::
  "peer_id \<Rightarrow> (xor_name \<times> peer_id set) list \<Rightarrow> nat \<Rightarrow> instant \<Rightarrow> repair_proofs \<Rightarrow>
     xor_name list \<times> repair_proofs" where
  "mature_audit_keys_for_peer challenged_peer [] current_sync_epoch now proofs = ([], proofs)"
| "mature_audit_keys_for_peer challenged_peer ((key, close_peers) # groups) current_sync_epoch now proofs =
     (let (mature, proofs1) =
            has_mature_replica_hint challenged_peer key close_peers current_sync_epoch now proofs;
          (ks, proofs2) = mature_audit_keys_for_peer challenged_peer groups current_sync_epoch now proofs1
      in (if mature then key # ks else ks, proofs2))"

section \<open>Failures\<close>

datatype audit_key_failure_kind = KindAbsent | KindDigestMismatch | KindUnclassified

record audit_key_failure =
  kf_key :: xor_name
  kf_kind :: audit_key_failure_kind

definition failure_absent :: "xor_name \<Rightarrow> audit_key_failure" where
  "failure_absent key = \<lparr>kf_key = key, kf_kind = KindAbsent\<rparr>"

definition failure_digest_mismatch :: "xor_name \<Rightarrow> audit_key_failure" where
  "failure_digest_mismatch key = \<lparr>kf_key = key, kf_kind = KindDigestMismatch\<rparr>"

definition failure_unclassified :: "xor_name \<Rightarrow> audit_key_failure" where
  "failure_unclassified key = \<lparr>kf_key = key, kf_kind = KindUnclassified\<rparr>"

definition count_failure :: "audit_key_failure \<Rightarrow> audit_failure_summary \<Rightarrow> audit_failure_summary" where
  "count_failure failure summary =
     (case kf_kind failure of
        KindAbsent \<Rightarrow> summary\<lparr>absent_keys := absent_keys summary + 1\<rparr>
      | KindDigestMismatch \<Rightarrow> summary\<lparr>digest_mismatch_keys := digest_mismatch_keys summary + 1\<rparr>
      | KindUnclassified \<Rightarrow> summary)"

definition build_audit_failure_summary :: "nat \<Rightarrow> audit_key_failure list \<Rightarrow> audit_failure_summary" where
  "build_audit_failure_summary challenged_key_count confirmed_failures =
     fold count_failure confirmed_failures
       \<lparr>challenged_keys = challenged_key_count, failed_keys = length confirmed_failures,
        absent_keys = 0, digest_mismatch_keys = 0\<rparr>"

definition audit_digest_failure_reason :: "audit_key_failure list \<Rightarrow> audit_failure_reason" where
  "audit_digest_failure_reason confirmed_failures =
     (if list_all (\<lambda>failure. kf_kind failure = KindAbsent) confirmed_failures then FailKeyAbsent
      else FailDigestMismatch)"

definition handle_classified_audit_failure ::
  "(xor_name \<Rightarrow> peer_id list) \<Rightarrow> peer_id \<Rightarrow> nat \<Rightarrow> audit_key_failure list \<Rightarrow> audit_failure_reason \<Rightarrow>
     nat \<Rightarrow> audit_tick_result" where
  "handle_classified_audit_failure closest challenged_peer challenge_id failures reason challenged_key_count =
     (let confirmed = filter (\<lambda>failure. challenged_peer \<in> set (closest (kf_key failure))) failures
      in if confirmed = [] then TickIdle
         else TickFailed (AuditFailure challenge_id challenged_peer (map kf_key confirmed)
           (build_audit_failure_summary challenged_key_count confirmed)
           (if reason = FailDigestMismatch then audit_digest_failure_reason confirmed else reason)))"

definition handle_audit_failure ::
  "(xor_name \<Rightarrow> peer_id list) \<Rightarrow> peer_id \<Rightarrow> nat \<Rightarrow> xor_name list \<Rightarrow> audit_failure_reason \<Rightarrow> audit_tick_result" where
  "handle_audit_failure closest challenged_peer challenge_id ks reason =
     handle_classified_audit_failure closest challenged_peer challenge_id (map failure_unclassified ks) reason
       (length ks)"

definition handle_audit_timeout ::
  "(xor_name \<Rightarrow> peer_id list) \<Rightarrow> peer_id \<Rightarrow> nat \<Rightarrow> xor_name list \<Rightarrow> audit_tick_result" where
  "handle_audit_timeout closest challenged_peer challenge_id ks =
     handle_audit_failure closest challenged_peer challenge_id ks FailTimeout"

section \<open>Digests\<close>

text \<open>One key of the response; the read of the local copy may fail or find nothing.\<close>

definition check_digest ::
  "(bytes \<Rightarrow> hash32) \<Rightarrow> hash32 \<Rightarrow> peer_id \<Rightarrow> (xor_name \<Rightarrow> unit + bytes option) \<Rightarrow> xor_name \<Rightarrow> hash32 \<Rightarrow>
     audit_key_failure option" where
  "check_digest b3 nonce challenged_peer get_raw key received_digest =
     (if received_digest = ABSENT_KEY_DIGEST then Some (failure_absent key)
      else case get_raw key of
        Inl _ \<Rightarrow> None
      | Inr None \<Rightarrow> None
      | Inr (Some local_bytes) \<Rightarrow>
          if received_digest \<noteq> compute_audit_digest b3 nonce challenged_peer key local_bytes
          then Some (failure_digest_mismatch key) else None)"

definition verify_digests ::
  "(bytes \<Rightarrow> hash32) \<Rightarrow> (xor_name \<Rightarrow> peer_id list) \<Rightarrow> (xor_name \<Rightarrow> unit + bytes option) \<Rightarrow> peer_id \<Rightarrow> nat \<Rightarrow>
     hash32 \<Rightarrow> xor_name list \<Rightarrow> hash32 list \<Rightarrow> audit_tick_result" where
  "verify_digests b3 closest get_raw challenged_peer challenge_id nonce ks digests =
     (if length digests \<noteq> length ks
      then handle_audit_failure closest challenged_peer challenge_id ks FailMalformedResponse
      else let failures = List.map_filter (\<lambda>(key, d). check_digest b3 nonce challenged_peer get_raw key d) (zip ks digests)
        in if failures = [] then TickPassed challenged_peer (length ks)
           else handle_classified_audit_failure closest challenged_peer challenge_id failures
             FailDigestMismatch (length ks))"

section \<open>The audit tick\<close>

record tick_env =
  te_b3 :: "bytes \<Rightarrow> hash32"
  te_close_group_size :: nat
  te_closest :: "xor_name \<Rightarrow> nat \<Rightarrow> peer_id list"
  te_closest_later :: "xor_name \<Rightarrow> nat \<Rightarrow> peer_id list"
  te_all_keys :: "xor_name list option"
  te_get_raw :: "xor_name \<Rightarrow> unit + bytes option"
  te_choose :: "peer_id list \<Rightarrow> peer_id option"
  te_choose_multiple :: "xor_name list \<Rightarrow> nat \<Rightarrow> xor_name list"
  te_nonce :: hash32
  te_challenge_id :: nat
  te_send :: "peer_id \<Rightarrow> key_audit_challenge \<Rightarrow> wire"
  te_now :: instant

definition dispatch_key_audit ::
  "tick_env \<Rightarrow> peer_id \<Rightarrow> xor_name list \<Rightarrow> reply_body \<Rightarrow> audit_tick_result" where
  "dispatch_key_audit te challenged_peer peer_keys body =
     (let closest = (\<lambda>k. te_closest_later te k (te_close_group_size te));
          fail = handle_audit_failure closest challenged_peer (te_challenge_id te) peer_keys
      in case body of
           BodyKeyAuditResponse (DigestsBootstrapping resp_id) \<Rightarrow>
             if resp_id \<noteq> te_challenge_id te then fail FailMalformedResponse else TickBootstrapClaim challenged_peer
         | BodyKeyAuditResponse (Digests resp_id digests) \<Rightarrow>
             if resp_id \<noteq> te_challenge_id te then fail FailMalformedResponse
             else verify_digests (te_b3 te) closest (te_get_raw te) challenged_peer (te_challenge_id te)
               (te_nonce te) peer_keys digests
         | BodyKeyAuditResponse (DigestsRejected resp_id) \<Rightarrow>
             if resp_id \<noteq> te_challenge_id te then fail FailMalformedResponse else fail FailRejected
         | _ \<Rightarrow> fail FailMalformedResponse)"

definition sampled_key_groups :: "tick_env \<Rightarrow> peer_id \<Rightarrow> xor_name list \<Rightarrow> (xor_name \<times> peer_id set) list" where
  "sampled_key_groups te challenged_peer sampled =
     filter (\<lambda>(_, close_peers). challenged_peer \<in> close_peers)
       (map (\<lambda>key. (key, set (te_closest te key (te_close_group_size te)))) sampled)"

definition send_key_audit :: "tick_env \<Rightarrow> peer_id \<Rightarrow> xor_name list \<Rightarrow> audit_tick_result" where
  "send_key_audit te challenged_peer peer_keys =
     (let closest = (\<lambda>k. te_closest_later te k (te_close_group_size te))
      in case te_send te challenged_peer
            \<lparr>kc_challenge_id = te_challenge_id te, kc_nonce = te_nonce te,
             kc_challenged_peer_id = challenged_peer, kc_keys = peer_keys\<rparr> of
           EncodeFailed \<Rightarrow> TickIdle
         | SendFailed \<Rightarrow> handle_audit_timeout closest challenged_peer (te_challenge_id te) peer_keys
         | Undecodable \<Rightarrow>
             handle_audit_failure closest challenged_peer (te_challenge_id te) peer_keys FailMalformedResponse
         | Received body \<Rightarrow> dispatch_key_audit te challenged_peer peer_keys body)"

definition audit_tick_with_repair_proofs ::
  "tick_env \<Rightarrow> (peer_id \<times> peer_sync_record) list \<Rightarrow> nat \<Rightarrow> bool \<Rightarrow> repair_proofs \<Rightarrow>
     audit_tick_result \<times> repair_proofs" where
  "audit_tick_with_repair_proofs te sync_history current_sync_epoch is_bootstrapping proofs =
     (if is_bootstrapping then (TickIdle, proofs)
      else let eligible_peers = eligible_audit_peers sync_history
      in if eligible_peers = [] then (TickIdle, proofs)
      else case te_choose te eligible_peers of
        None \<Rightarrow> (TickIdle, proofs)
      | Some challenged_peer \<Rightarrow>
          (case te_all_keys te of
             None \<Rightarrow> (TickIdle, proofs)
           | Some all_keys \<Rightarrow>
               if all_keys = [] then (TickIdle, proofs)
               else let sampled = te_choose_multiple te all_keys (audit_sample_count (length all_keys));
                        (peer_keys, proofs') = mature_audit_keys_for_peer challenged_peer
                          (sampled_key_groups te challenged_peer sampled) current_sync_epoch (te_now te) proofs
                    in if peer_keys = [] then (TickIdle, proofs')
                       else (send_key_audit te challenged_peer peer_keys, proofs')))"

definition audit_tick ::
  "tick_env \<Rightarrow> (peer_id \<times> peer_sync_record) list \<Rightarrow> bool \<Rightarrow> audit_tick_result" where
  "audit_tick te sync_history is_bootstrapping =
     fst (audit_tick_with_repair_proofs te sync_history 0 is_bootstrapping repair_proofs_new)"

section \<open>The responder\<close>

definition handle_audit_challenge ::
  "(bytes \<Rightarrow> hash32) \<Rightarrow> (xor_name \<Rightarrow> unit + bytes option) \<Rightarrow> peer_id \<Rightarrow> bool \<Rightarrow> nat \<Rightarrow> key_audit_challenge \<Rightarrow>
     key_audit_response" where
  "handle_audit_challenge b3 get_raw self_peer_id is_bootstrapping stored_chunks challenge =
     (let cid = kc_challenge_id challenge
      in if is_bootstrapping then DigestsBootstrapping cid
         else if kc_challenged_peer_id challenge \<noteq> self_peer_id then DigestsRejected cid
         else if length (kc_keys challenge) > max_incoming_audit_keys stored_chunks then DigestsRejected cid
         else Digests cid (map (\<lambda>key. case get_raw key of
                Inr (Some bs) \<Rightarrow> compute_audit_digest b3 (kc_nonce challenge) (kc_challenged_peer_id challenge) key bs
              | Inr None \<Rightarrow> ABSENT_KEY_DIGEST
              | Inl _ \<Rightarrow> ABSENT_KEY_DIGEST) (kc_keys challenge)))"

section \<open>The audited keys\<close>

lemma eligible_iff: "p \<in> set (eligible_audit_peers h) \<longleftrightarrow> (\<exists>r. (p, r) \<in> set h \<and> has_repair_opportunity r)"
  by (force simp: eligible_audit_peers_def)

lemma mature_keysD:
  assumes "mature_audit_keys_for_peer p gs e now rp = (ks, rp')" "proofs_inv rp"
  shows "length ks \<le> length gs \<and> (\<forall>k\<in>set ks. \<exists>C pr. (k, C) \<in> set gs \<and> p \<in> C \<and> proof_of rp k p = Some pr \<and>
    hinted_at_epoch pr < e \<and> REPAIR_HINT_MIN_AGE \<le> now - hinted_at pr)"
  using assms
proof (induction gs arbitrary: rp ks rp')
  case (Cons g gs)
  obtain key C where g: "g = (key, C)" by (cases g)
  obtain m rp1 where m: "has_mature_replica_hint p key C e now rp = (m, rp1)"
    by (cases "has_mature_replica_hint p key C e now rp")
  obtain ks2 rp2 where r: "mature_audit_keys_for_peer p gs e now rp1 = (ks2, rp2)"
    by (cases "mature_audit_keys_for_peer p gs e now rp1")
  note inv1 = has_mature_inv [OF Cons.prems(2), of p key C e now, unfolded m snd_conv]
  have ks: "ks = (if m then key # ks2 else ks2)" using Cons.prems(1) by (auto simp: g m r)
  note ih = Cons.IH [OF r inv1]
  show ?case
  proof (intro conjI ballI)
    show "length ks \<le> length (g # gs)" using ih by (simp add: ks)
    fix k assume "k \<in> set ks"
    then consider "m" "k = key" | "k \<in> set ks2" by (auto simp: ks split: if_splits)
    then show "\<exists>C pr. (k, C) \<in> set (g # gs) \<and> p \<in> C \<and> proof_of rp k p = Some pr \<and>
        hinted_at_epoch pr < e \<and> REPAIR_HINT_MIN_AGE \<le> now - hinted_at pr"
    proof cases
      case 1
      with mature_hintD [of p key C e now rp] m Cons.prems(2) g show ?thesis by auto
    next
      case 2
      with ih has_mature_shrinks [OF Cons.prems(2), of p key C e now k p] m show ?thesis by fastforce
    qed
  qed
qed simp

lemma tick_failedD:
  assumes "audit_tick_with_repair_proofs te h e boot rp = (TickFailed ev, rp')"
  obtains p all peer_keys where "\<not> boot" "te_choose te (eligible_audit_peers h) = Some p" "te_all_keys te = Some all"
    "mature_audit_keys_for_peer p (sampled_key_groups te p
       (te_choose_multiple te all (audit_sample_count (length all)))) e (te_now te) rp = (peer_keys, rp')"
    "send_key_audit te p peer_keys = TickFailed ev"
  using assms by (auto simp: audit_tick_with_repair_proofs_def Let_def split: if_splits option.splits prod.splits)

section \<open>Evidence\<close>

lemma fold_count_failure:
  "fold count_failure fs s = s\<lparr>
     absent_keys := absent_keys s + length (filter (\<lambda>f. kf_kind f = KindAbsent) fs),
     digest_mismatch_keys := digest_mismatch_keys s + length (filter (\<lambda>f. kf_kind f = KindDigestMismatch) fs)\<rparr>"
  by (induction fs arbitrary: s) (auto simp: count_failure_def split: audit_key_failure_kind.splits)

lemma count_kinds: "length (filter (\<lambda>f. kf_kind f = KindAbsent) fs) +
    length (filter (\<lambda>f. kf_kind f = KindDigestMismatch) fs) \<le> length fs"
  by (induction fs) auto

lemma classified_failedD:
  assumes "handle_classified_audit_failure closest p cid fs reason n = TickFailed ev"
  obtains cs where "cs = filter (\<lambda>f. p \<in> set (closest (kf_key f))) fs" "cs \<noteq> []"
    "ev = AuditFailure cid p (map kf_key cs) (build_audit_failure_summary n cs)
       (if reason = FailDigestMismatch then audit_digest_failure_reason cs else reason)"
  using assms by (auto simp: handle_classified_audit_failure_def Let_def split: if_splits)

lemma summary_counts:
  "challenged_keys (build_audit_failure_summary n cs) = n" "failed_keys (build_audit_failure_summary n cs) = length cs"
  "absent_keys (build_audit_failure_summary n cs) + digest_mismatch_keys (build_audit_failure_summary n cs) \<le> length cs"
  using count_kinds [of cs] by (simp_all add: build_audit_failure_summary_def fold_count_failure)

text \<open>What a failure of one key rests on: the peer said that it lacks the key, or sent a wrong digest.\<close>

definition wrong_digest :: "tick_env \<Rightarrow> peer_id \<Rightarrow> xor_name \<Rightarrow> hash32 \<Rightarrow> bool" where
  "wrong_digest te p k d \<longleftrightarrow> d = ABSENT_KEY_DIGEST \<or>
     (\<exists>bs. te_get_raw te k = Inr (Some bs) \<and> d \<noteq> compute_audit_digest (te_b3 te) (te_nonce te) p k bs)"

lemma check_digest_Some:
  "check_digest (te_b3 te) (te_nonce te) p (te_get_raw te) k d = Some f \<Longrightarrow> kf_key f = k \<and> wrong_digest te p k d"
  by (auto simp: check_digest_def wrong_digest_def failure_absent_def failure_digest_mismatch_def
      split: if_splits sum.splits option.splits)

definition key_challenge :: "tick_env \<Rightarrow> peer_id \<Rightarrow> xor_name list \<Rightarrow> key_audit_challenge" where
  "key_challenge te p ks =
     \<lparr>kc_challenge_id = te_challenge_id te, kc_nonce = te_nonce te, kc_challenged_peer_id = p, kc_keys = ks\<rparr>"

definition digest_failures :: "tick_env \<Rightarrow> peer_id \<Rightarrow> xor_name list \<Rightarrow> hash32 list \<Rightarrow> audit_key_failure list" where
  "digest_failures te p ks ds =
     List.map_filter (\<lambda>(k, d). check_digest (te_b3 te) (te_nonce te) p (te_get_raw te) k d) (zip ks ds)"

lemma digest_failures_wrong:
  assumes "length ds = length ks" "f \<in> set (digest_failures te p ks ds)"
  shows "\<exists>i<length ks. ks ! i = kf_key f \<and> wrong_digest te p (kf_key f) (ds ! i)"
proof -
  from assms(2) obtain k d where "(k, d) \<in> set (zip ks ds)"
    "check_digest (te_b3 te) (te_nonce te) p (te_get_raw te) k d = Some f"
    by (auto simp: digest_failures_def List.map_filter_def)
  with check_digest_Some [of te p k d f] assms(1) show ?thesis by (auto simp: in_set_zip)
qed

lemma length_digest_failures: "length ds = length ks \<Longrightarrow> length (digest_failures te p ks ds) \<le> length ks"
  by (simp add: digest_failures_def List.map_filter_def) (rule order_trans [OF length_filter_le], simp)

text \<open>A failed challenge: either no key has a class, or the peer answered with digests.\<close>

lemma send_failedD:
  assumes "send_key_audit te p ks = TickFailed ev"
  obtains (other) reason where "reason \<notin> {FailDigestMismatch, FailKeyAbsent}"
      "handle_audit_failure (\<lambda>k. te_closest_later te k (te_close_group_size te)) p (te_challenge_id te) ks reason =
         TickFailed ev"
    | (digests) ds where
      "te_send te p (key_challenge te p ks) = Received (BodyKeyAuditResponse (Digests (te_challenge_id te) ds))"
      "length ds = length ks"
      "handle_classified_audit_failure (\<lambda>k. te_closest_later te k (te_close_group_size te)) p (te_challenge_id te)
         (digest_failures te p ks ds) FailDigestMismatch (length ks) = TickFailed ev"
  using assms
  by (auto simp: send_key_audit_def dispatch_key_audit_def verify_digests_def handle_audit_timeout_def Let_def
      key_challenge_def [symmetric] digest_failures_def [symmetric]
      split: wire.splits reply_body.splits key_audit_response.splits if_splits)

lemma send_failed_evidence:
  assumes "send_key_audit te p ks = TickFailed ev"
  obtains bks summary reason where "ev = AuditFailure (te_challenge_id te) p bks summary reason" "bks \<noteq> []"
    "set bks \<subseteq> set ks" "\<forall>k\<in>set bks. p \<in> set (te_closest_later te k (te_close_group_size te))"
    "failed_keys summary = length bks" "length bks \<le> challenged_keys summary" "challenged_keys summary = length ks"
    "absent_keys summary + digest_mismatch_keys summary \<le> length bks"
    "reason \<in> {FailDigestMismatch, FailKeyAbsent} \<longrightarrow>
       (\<exists>ds. te_send te p (key_challenge te p ks) = Received (BodyKeyAuditResponse (Digests (te_challenge_id te) ds)) \<and>
          (\<forall>k\<in>set bks. \<exists>i<length ds. ks ! i = k \<and> wrong_digest te p k (ds ! i)))"
  using assms
proof (cases rule: send_failedD)
  case (other reason)
  from other(2) [unfolded handle_audit_failure_def] show ?thesis
  proof (rule classified_failedD)
    fix cs
    assume cs: "cs = filter (\<lambda>f. p \<in> set (te_closest_later te (kf_key f) (te_close_group_size te)))
        (map failure_unclassified ks)" "cs \<noteq> []"
      "ev = AuditFailure (te_challenge_id te) p (map kf_key cs) (build_audit_failure_summary (length ks) cs)
        (if reason = FailDigestMismatch then audit_digest_failure_reason cs else reason)"
    have "length cs \<le> length ks" unfolding cs(1) by (metis length_filter_le length_map)
    moreover have "set (map kf_key cs) \<subseteq> set ks"
      "\<forall>k\<in>set (map kf_key cs). p \<in> set (te_closest_later te k (te_close_group_size te))"
      unfolding cs(1) by (auto simp: failure_unclassified_def)
    ultimately show ?thesis
      using cs(2) other(1) summary_counts by (intro that [OF cs(3)]) auto
  qed
next
  case (digests ds)
  from digests(3) show ?thesis
  proof (rule classified_failedD)
    fix cs
    assume cs: "cs = filter (\<lambda>f. p \<in> set (te_closest_later te (kf_key f) (te_close_group_size te)))
        (digest_failures te p ks ds)" "cs \<noteq> []"
      "ev = AuditFailure (te_challenge_id te) p (map kf_key cs) (build_audit_failure_summary (length ks) cs)
        (if FailDigestMismatch = FailDigestMismatch then audit_digest_failure_reason cs else FailDigestMismatch)"
    have "length cs \<le> length ks"
      using length_digest_failures [OF digests(2)] unfolding cs(1) by (rule order_trans [OF length_filter_le])
    moreover have wrong: "\<exists>i<length ks. ks ! i = kf_key f \<and> wrong_digest te p (kf_key f) (ds ! i)" if "f \<in> set cs" for f
      using digest_failures_wrong [OF digests(2)] that unfolding cs(1) by auto
    moreover have "set (map kf_key cs) \<subseteq> set ks" using wrong by (auto simp: in_set_conv_nth) metis
    moreover have "\<forall>k\<in>set (map kf_key cs). p \<in> set (te_closest_later te k (te_close_group_size te))"
      unfolding cs(1) by auto
    ultimately show ?thesis
      using cs(2) summary_counts digests(1,2) by (intro that [OF cs(3)]) auto
  qed
qed

section \<open>Properties\<close>

text \<open>
  C39. Nobody is blamed without warning. If the audit tick reports a failure of a peer, this node is not
  bootstrapping, the peer synced with it and a sync cycle has completed since, and for every key in
  the evidence: this node stores the key, the peer is in the key's close group both when the key was
  sampled and in the lookup after the failure, and an earlier call recorded that the peer was told
  about the key, in an earlier sync epoch and at least an hour ago, with nothing withdrawing that
  hint since. The counts of the evidence agree with its keys, the challenge is within the
  square-root sample, and a digest failure rests for each key on an absent or wrong digest the
  peer sent.
\<close>

theorem key_audit_blame_after_warning:
  assumes "audit_tick_with_repair_proofs te h epoch boot (proof_run evs) = (TickFailed ev, rp')"
    and "\<forall>xs p. te_choose te xs = Some p \<longrightarrow> p \<in> set xs"
    and "\<forall>xs n. set (te_choose_multiple te xs n) \<subseteq> set xs \<and> length (te_choose_multiple te xs n) \<le> n"
  shows "\<exists>p ks summary reason all. ev = AuditFailure (te_challenge_id te) p ks summary reason \<and> \<not> boot \<and>
    te_all_keys te = Some all \<and> (\<exists>r. (p, r) \<in> set h \<and> has_repair_opportunity r) \<and> ks \<noteq> [] \<and>
    (\<forall>k\<in>set ks. k \<in> set all \<and> p \<in> set (te_closest te k (te_close_group_size te)) \<and>
       p \<in> set (te_closest_later te k (te_close_group_size te)) \<and>
       (\<exists>e t. hinted_since evs p k e t \<and> e < epoch \<and> REPAIR_HINT_MIN_AGE \<le> te_now te - t)) \<and>
    failed_keys summary = length ks \<and> length ks \<le> challenged_keys summary \<and>
    challenged_keys summary \<le> audit_sample_count (length all) \<and>
    absent_keys summary + digest_mismatch_keys summary \<le> length ks \<and>
    (reason \<in> {FailDigestMismatch, FailKeyAbsent} \<longrightarrow>
       (\<exists>c ds. te_send te p c = Received (BodyKeyAuditResponse (Digests (te_challenge_id te) ds)) \<and>
          (\<forall>k\<in>set ks. \<exists>i<length ds. kc_keys c ! i = k \<and> wrong_digest te p k (ds ! i))))"
proof -
  from assms(1) obtain p all peer_keys where t: "\<not> boot" "te_choose te (eligible_audit_peers h) = Some p"
    "te_all_keys te = Some all"
    "mature_audit_keys_for_peer p (sampled_key_groups te p
       (te_choose_multiple te all (audit_sample_count (length all)))) epoch (te_now te) (proof_run evs) = (peer_keys, rp')"
    "send_key_audit te p peer_keys = TickFailed ev"
    by (rule tick_failedD)
  let ?gs = "sampled_key_groups te p (te_choose_multiple te all (audit_sample_count (length all)))"
  note mk = mature_keysD [OF t(4) proof_run_inv]
  have "length ?gs \<le> audit_sample_count (length all)"
    using assms(3) by (auto simp: sampled_key_groups_def intro: order_trans [OF length_filter_le])
  with mk have len: "length peer_keys \<le> audit_sample_count (length all)" by simp
  have key: "k \<in> set all \<and> p \<in> set (te_closest te k (te_close_group_size te)) \<and>
      (\<exists>e t. hinted_since evs p k e t \<and> e < epoch \<and> REPAIR_HINT_MIN_AGE \<le> te_now te - t)"
    if k: "k \<in> set peer_keys" for k
  proof -
    from mk k obtain C pr where "(k, C) \<in> set ?gs" "proof_of (proof_run evs) k p = Some pr"
      "hinted_at_epoch pr < epoch" "REPAIR_HINT_MIN_AGE \<le> te_now te - hinted_at pr" by blast
    then show ?thesis using assms(3) proof_of_hinted [of evs k p pr] by (auto simp: sampled_key_groups_def)
  qed
  from assms(2) t(2) have el: "\<exists>r. (p, r) \<in> set h \<and> has_repair_opportunity r" using eligible_iff by blast
  from t(5) show ?thesis
  proof (rule send_failed_evidence)
    fix bks summary reason
    assume ev: "ev = AuditFailure (te_challenge_id te) p bks summary reason" "bks \<noteq> []" "set bks \<subseteq> set peer_keys"
      "\<forall>k\<in>set bks. p \<in> set (te_closest_later te k (te_close_group_size te))"
      "failed_keys summary = length bks" "length bks \<le> challenged_keys summary"
      "challenged_keys summary = length peer_keys" "absent_keys summary + digest_mismatch_keys summary \<le> length bks"
    assume wrong: "reason \<in> {FailDigestMismatch, FailKeyAbsent} \<longrightarrow>
       (\<exists>ds. te_send te p (key_challenge te p peer_keys) =
          Received (BodyKeyAuditResponse (Digests (te_challenge_id te) ds)) \<and>
          (\<forall>k\<in>set bks. \<exists>i<length ds. peer_keys ! i = k \<and> wrong_digest te p k (ds ! i)))"
    have "reason \<in> {FailDigestMismatch, FailKeyAbsent} \<longrightarrow>
       (\<exists>c ds. te_send te p c = Received (BodyKeyAuditResponse (Digests (te_challenge_id te) ds)) \<and>
          (\<forall>k\<in>set bks. \<exists>i<length ds. kc_keys c ! i = k \<and> wrong_digest te p k (ds ! i)))"
      using wrong by (intro impI exI [of _ "key_challenge te p peer_keys"]) (auto simp: key_challenge_def)
    with ev len key el t(1,3) show ?thesis
      by (intro exI [of _ p] exI [of _ bks] exI [of _ summary] exI [of _ reason] exI [of _ all]) auto
  qed
qed

definition small_tick :: "(xor_name \<Rightarrow> unit + bytes option) \<Rightarrow> tick_env" where
  "small_tick peer_raw =
     \<lparr>te_b3 = \<lambda>_. 1, te_close_group_size = 2, te_closest = \<lambda>_ _. [2, 3], te_closest_later = \<lambda>_ _. [3, 2],
      te_all_keys = Some [1, 4], te_get_raw = \<lambda>_. Inr (Some []),
      te_choose = \<lambda>xs. if xs = [] then None else Some (hd xs), te_choose_multiple = \<lambda>xs n. take n xs,
      te_nonce = 5, te_challenge_id = 9,
      te_send = \<lambda>p c. Received (BodyKeyAuditResponse (handle_audit_challenge (\<lambda>_. 1) peer_raw p False 1 c)),
      te_now = from_secs 3600\<rparr>"

lemma small_tick_failed:
  "audit_tick_with_repair_proofs (small_tick (\<lambda>_. Inr None)) [(2, \<lparr>psr_last_sync = Some 0, psr_cycles_since_sync = 1\<rparr>)]
     1 False (proof_run [HintSent 2 1 {2, 3} 0 0]) =
   (TickFailed (AuditFailure 9 2 [1]
      \<lparr>challenged_keys = 1, failed_keys = 1, absent_keys = 1, digest_mismatch_keys = 0\<rparr> FailKeyAbsent),
    proof_run [HintSent 2 1 {2, 3} 0 0])"
proof -
  have count: "audit_sample_count (Suc (Suc 0)) = 1" "max_incoming_audit_keys (Suc 0) = 2"
    by (simp_all add: audit_sample_count_def max_incoming_audit_keys_def isqrt_def numeral_2_eq_2)
  show ?thesis
    by (simp add: audit_tick_with_repair_proofs_def small_tick_def eligible_audit_peers_def has_repair_opportunity_def
        count sampled_key_groups_def proof_run_def repair_proofs_new_def record_replica_hint_sent_def
        insert_replica_hint_sent_def reconcile_key_close_group_def has_mature_replica_hint_def entry_new_def
        REPAIR_HINT_MIN_AGE_def from_secs_def send_key_audit_def handle_audit_challenge_def dispatch_key_audit_def
        verify_digests_def List.map_filter_def check_digest_def handle_classified_audit_failure_def
        failure_absent_def build_audit_failure_summary_def count_failure_def audit_digest_failure_reason_def
        is_some_and_def insert_commute)
qed

theorem key_audit_blame_after_warning_witness:
  "\<exists>e t. hinted_since [HintSent 2 1 {2, 3} 0 0] 2 1 e t \<and> e < 1 \<and>
     REPAIR_HINT_MIN_AGE \<le> te_now (small_tick (\<lambda>_. Inr None)) - t"
proof -
  let ?te = "small_tick (\<lambda>_. Inr None)"
  have "\<forall>xs p. te_choose ?te xs = Some p \<longrightarrow> p \<in> set xs"
    and "\<forall>xs n. set (te_choose_multiple ?te xs n) \<subseteq> set xs \<and> length (te_choose_multiple ?te xs n) \<le> n"
    by (auto simp: small_tick_def dest: in_set_takeD)
  from key_audit_blame_after_warning [OF small_tick_failed this] show ?thesis by auto
qed

text \<open>
  C40. The audit sees exactly what is lost. When the peer follows the code, is not bootstrapping, the
  challenge is within its limit and both sides' readable copies are the same, the peer passes if it
  can read every challenged key; otherwise the failed keys are exactly the keys it cannot read and is
  still responsible for, reported as absent, and the result is idle when it is no longer responsible
  for any of them.
\<close>

theorem key_audit_exact:
  assumes "te_send te p = (\<lambda>c. Received (BodyKeyAuditResponse
      (handle_audit_challenge (te_b3 te) peer_raw p False stored c)))"
    and "length ks \<le> max_incoming_audit_keys stored"
    and "\<forall>k\<in>set ks. te_get_raw te k = Inr (Some (content k)) \<and>
      peer_raw k \<in> {Inl (), Inr None, Inr (Some (content k))} \<and>
      compute_audit_digest (te_b3 te) (te_nonce te) p k (content k) \<noteq> ABSENT_KEY_DIGEST"
  shows "send_key_audit te p ks =
    (let lost = filter (\<lambda>k. peer_raw k \<noteq> Inr (Some (content k))) ks;
         blamed = filter (\<lambda>k. p \<in> set (te_closest_later te k (te_close_group_size te))) lost
     in if lost = [] then TickPassed p (length ks)
        else if blamed = [] then TickIdle
        else TickFailed (AuditFailure (te_challenge_id te) p blamed
          \<lparr>challenged_keys = length ks, failed_keys = length blamed, absent_keys = length blamed,
           digest_mismatch_keys = 0\<rparr> FailKeyAbsent))"
proof -
  let ?dig = "\<lambda>k. case peer_raw k of Inr (Some bs) \<Rightarrow> compute_audit_digest (te_b3 te) (te_nonce te) p k bs
    | Inr None \<Rightarrow> ABSENT_KEY_DIGEST | Inl _ \<Rightarrow> ABSENT_KEY_DIGEST"
  let ?lost = "filter (\<lambda>k. peer_raw k \<noteq> Inr (Some (content k))) ks"
  have "digest_failures te p ks (map ?dig ks) = map failure_absent ?lost"
    using assms(3)
  proof (induction ks)
    case (Cons k ks)
    then have "check_digest (te_b3 te) (te_nonce te) p (te_get_raw te) k (?dig k) =
        (if peer_raw k \<noteq> Inr (Some (content k)) then Some (failure_absent k) else None)"
      by (auto simp: check_digest_def)
    with Cons show ?case by (simp add: digest_failures_def List.map_filter_def)
  qed (simp add: digest_failures_def List.map_filter_def)
  moreover have "filter (\<lambda>f. p \<in> set (te_closest_later te (kf_key f) (te_close_group_size te))) (map failure_absent xs) =
      map failure_absent (filter (\<lambda>k. p \<in> set (te_closest_later te k (te_close_group_size te))) xs)" for xs
    by (induction xs) (simp_all add: failure_absent_def)
  moreover have "build_audit_failure_summary n (map failure_absent xs) =
      \<lparr>challenged_keys = n, failed_keys = length xs, absent_keys = length xs, digest_mismatch_keys = 0\<rparr>" for n xs
    by (simp add: build_audit_failure_summary_def fold_count_failure filter_map comp_def failure_absent_def)
  moreover have "audit_digest_failure_reason (map failure_absent xs) = FailKeyAbsent" for xs
    by (simp add: audit_digest_failure_reason_def list_all_iff failure_absent_def)
  moreover have "map kf_key (map failure_absent xs) = xs" for xs by (simp add: failure_absent_def comp_def)
  moreover have "te_send te p (key_challenge te p ks) =
      Received (BodyKeyAuditResponse (Digests (te_challenge_id te) (map ?dig ks)))"
    using assms(2) unfolding assms(1) handle_audit_challenge_def key_challenge_def
    by (simp add: Let_def cong: sum.case_cong option.case_cong)
  ultimately show ?thesis
    by (simp add: send_key_audit_def dispatch_key_audit_def verify_digests_def key_challenge_def [symmetric]
        digest_failures_def [symmetric] handle_classified_audit_failure_def Let_def del: map_map filter_filter)
qed

theorem key_audit_exact_witness:
  "send_key_audit (small_tick (\<lambda>k. if k = 4 then Inl () else Inr (Some []))) 2 [1, 4] =
     TickFailed (AuditFailure 9 2 [4]
       \<lparr>challenged_keys = 2, failed_keys = 1, absent_keys = 1, digest_mismatch_keys = 0\<rparr> FailKeyAbsent)"
  using key_audit_exact [of "small_tick (\<lambda>k. if k = 4 then Inl () else Inr (Some []))" 2
      "\<lambda>k. if k = 4 then Inl () else Inr (Some [])" 1 "[1, 4]" "\<lambda>_. []"]
  by (simp add: small_tick_def max_incoming_audit_keys_def audit_sample_count_def isqrt_def compute_audit_digest_def
      ABSENT_KEY_DIGEST_def)

end
