(* ===== verification/Bootstrap_Sync.thy ===== *)
theory Bootstrap_Sync
  imports Verification_Cycle
begin

text \<open>
  The one-shot bootstrap sync (\<open>start_bootstrap_sync\<close> in src/src/replication/mod.rs) interleaved
  with the workers that share its state. The sync task has a program counter; each of its steps is
  one critical section of the code. A verification pass, the handling of a download and the handling
  of an inbound sync message are one step each. Inputs from the network (replies, hints, lookups) are
  the free variables of the rules.
\<close>

section \<open>The steps\<close>

datatype sync_reply = SyncNoReply | SyncBootstrapping | SyncHints "xor_name list" "xor_name list"

datatype sync_pc =
    SyncStart
  | SyncTurn "peer_id list"
  | SyncRequested peer_id "peer_id list"
  | SyncAnswered peer_id sync_reply "peer_id list"
  | SyncAdmitted peer_id admission_outcome "peer_id list"
  | SyncTracked peer_id admission_outcome "peer_id list"
  | SyncEnded

type_synonym engine = "sync_pc \<times> cycle_state"

definition on_bs :: "(bootstrap_state \<Rightarrow> bootstrap_state) \<Rightarrow> cycle_state \<Rightarrow> cycle_state" where
  "on_bs f cs = cs\<lparr>cy_boot := (f (fst (cy_boot cs)), snd (cy_boot cs))\<rparr>"

definition begin_sync :: "peer_id list \<Rightarrow> cycle_state \<Rightarrow> engine" where
  "begin_sync neighbors cs =
     (if neighbors = []
      then (SyncEnded, cs\<lparr>cy_boot := complete_bootstrap (mark_bootstrap_drained (fst (cy_boot cs)), snd (cy_boot cs))\<rparr>)
      else (SyncTurn neighbors, cs))"

definition track_discovered :: "admission_outcome \<Rightarrow> bootstrap_state \<Rightarrow> bootstrap_state" where
  "track_discovered outcome bs =
     (if ao_discovered outcome \<noteq> {} then track_discovered_keys (ao_discovered outcome) bs else bs)"

definition note_or_clear :: "peer_id \<Rightarrow> admission_outcome \<Rightarrow> bootstrap_state \<Rightarrow> bootstrap_state" where
  "note_or_clear peer outcome bs =
     (if ao_capacity_rejected_count outcome > 0 then note_capacity_rejected peer bs
      else clear_capacity_rejected peer bs)"

definition end_sync :: "cycle_state \<Rightarrow> engine" where
  "end_sync cs = (SyncEnded, cs\<lparr>cy_boot := drain_check (cy_queues cs) (cy_boot cs)\<rparr>)"

definition fetch_finished :: "xor_name \<Rightarrow> fetch_result option \<Rightarrow> cycle_state \<Rightarrow> cycle_state" where
  "fetch_finished key res cs =
     (let (terminal, _, q) = handle_fetch_outcome (cy_queues cs) key res
      in cs\<lparr>cy_queues := q, cy_boot := update_bootstrap_after_fetch key terminal q (cy_boot cs)\<rparr>)"

text \<open>Hints of an inbound request or of a response in a regular sync round.\<close>

definition inbound_hints :: "peer_id \<Rightarrow> admission_outcome \<Rightarrow> cycle_state \<Rightarrow> cycle_state" where
  "inbound_hints source outcome cs =
     (if snd (cy_boot cs) then on_bs (track_admission source outcome) cs else cs)"

inductive engine_step :: "engine \<Rightarrow> engine \<Rightarrow> bool" where
  sync_begin: "engine_step (SyncStart, cs) (begin_sync neighbors cs)"
| sync_request: "engine_step (SyncTurn (p # ns), cs) (SyncRequested p ns, on_bs (increment_pending_requests 1) cs)"
| sync_answer: "engine_step (SyncRequested p ns, cs) (SyncAnswered p r ns, on_bs (decrement_pending_requests 1) cs)"
| sync_skip: "r = SyncNoReply \<or> r = SyncBootstrapping \<Longrightarrow> engine_step (SyncAnswered p r ns, cs) (SyncTurn ns, cs)"
| sync_admit:
    "admit_and_queue_hints fcs config self_id stored paid now p rh ph (cy_queues cs) = (out, q) \<Longrightarrow>
     engine_step (SyncAnswered p (SyncHints rh ph) ns, cs) (SyncAdmitted p out ns, cs\<lparr>cy_queues := q\<rparr>)"
| sync_track: "engine_step (SyncAdmitted p out ns, cs) (SyncTracked p out ns, on_bs (track_discovered out) cs)"
| sync_note: "engine_step (SyncTracked p out ns, cs) (SyncTurn ns, on_bs (note_or_clear p out) cs)"
| sync_end: "ns = [] \<or> shutdown \<Longrightarrow> engine_step (SyncTurn ns, cs) (end_sync cs)"
| verification: "engine_step (pc, cs) (pc, run_verification_cycle env cs)"
| fetch_start: "engine_step (pc, cs) (pc, cs\<lparr>cy_queues := snd (fill_slots (cy_queues cs) free now)\<rparr>)"
| fetch_done: "key \<in> keys (in_flight_fetch (cy_queues cs)) \<Longrightarrow> engine_step (pc, cs) (pc, fetch_finished key res cs)"
| inbound:
    "admit_and_queue_hints fcs config self_id stored paid now p rh ph (cy_queues cs) = (out, q) \<Longrightarrow>
     engine_step (pc, cs) (pc, inbound_hints p out (cs\<lparr>cy_queues := q\<rparr>))"

inductive_cases engine_stepE: "engine_step s s'"

definition engine_start :: engine where
  "engine_start = (SyncStart, \<lparr>cy_queues = queues_new, cy_paid = {}, cy_boot = (bootstrap_new, True)\<rparr>)"

section \<open>The pipeline under the steps of the workers\<close>

lemma cycle_pipeline:
  assumes inv: "queues_inv (cy_queues cs)"
    and k: "contains_key (cy_queues (run_verification_cycle env cs)) k"
  shows "contains_key (cy_queues cs) k"
    and "k \<notin> set (snd (snd (cycle_result env (cy_paid cs) (evicted env cs))))"
proof -
  let ?q = "evicted env cs" and ?r = "snd (cycle_result env (cy_paid cs) (evicted env cs))"
  note evinv = evicted_inv [OF inv, of env]
  have st: "stage (fst ?r) k \<noteq> NoStage"
    using k stage_contains [OF cycle_inv [OF evinv, of env "cy_paid cs"], of k] by (simp add: cycle_queues_eq)
  have "contains_key ?q k \<and> k \<notin> set (snd ?r)"
  proof (cases "\<exists>e. stage ?q k = InPending e")
    case True
    then obtain e where e: "stage ?q k = InPending e" by blast
    from cycle_resolved [OF evinv e, of env "cy_paid cs"] st have "k \<notin> set (snd ?r)"
      by (auto simp: resolved_def split: key_fate.splits)
    with e stage_contains [OF evinv, of k] show ?thesis by simp
  next
    case False
    with cycle_other [OF evinv, of k env "cy_paid cs"] st stage_contains [OF evinv, of k] show ?thesis
      by (simp add: key_view_def)
  qed
  moreover have "contains_key ?q k \<Longrightarrow> contains_key (cy_queues cs) k"
    using stage_contains [OF evinv, of k] stage_contains [OF inv, of k]
      stage_evict [OF inv, of "ce_now env" PENDING_VERIFY_MAX_AGE k]
    by (auto simp: evicted_def split: key_stage.splits if_splits)
  ultimately show "contains_key (cy_queues cs) k" "k \<notin> set (snd (snd (cycle_result env (cy_paid cs) (evicted env cs))))"
    by simp_all
qed

lemma fill_slots_pipeline:
  "queues_inv q \<Longrightarrow> contains_key (snd (fill_slots q free now)) k \<Longrightarrow> contains_key q k"
proof (induction q free now rule: fill_slots.induct)
  case (1 q free now)
  show ?case
  proof (cases "free = 0 \<or> fst (dequeue_fetch q) = None")
    case True
    have "stages_disjoint q" using "1.prems"(1) by (simp add: queues_inv_def)
    with True "1.prems" dequeue_fetch_None [of q] show ?thesis
      by (cases "dequeue_fetch q") (auto simp: fill_slots.simps [of q] split: if_splits)
  next
    case False
    then obtain c q' where deq: "dequeue_fetch q = (Some c, q')" and free: "free \<noteq> 0"
      by (cases "dequeue_fetch q") auto
    have dj: "stages_disjoint q" using "1.prems"(1) by (simp add: queues_inv_def)
    from dj deq obtain rest where pop: "heap_pop (fetch_queue q) = Some (c, rest)"
      and q': "q' = q\<lparr>fetch_queue := rest, fetch_queue_keys := fetch_queue_keys q - {fc_key c}\<rparr>"
      by (rule dequeue_fetch_SomeE)
    have inv': "queues_inv q'" by (rule dequeue_fetch_inv [OF "1.prems"(1) deq])
    have gone: "\<not> contains_key q' (fc_key c)" by (rule dequeue_fetch_removed [OF dj deq])
    have c: "contains_key q (fc_key c)"
      using heap.pop_member [OF pop] dj by (auto simp: contains_key_def stages_disjoint_def)
    have q'q: "contains_key q' j \<Longrightarrow> contains_key q j" for j by (auto simp: q' contains_key_def)
    show ?thesis
    proof (cases "fc_sources c")
      case Nil
      with "1.IH"(1) [OF free deq [symmetric] refl Nil inv'] deq free "1.prems"(2) q'q show ?thesis
        by (simp add: fill_slots.simps [of q])
    next
      case (Cons src srcs)
      let ?s = "start_fetch q' (fc_key c) src (src # srcs) now"
      have "contains_key ?s k"
        using "1.IH"(2) [OF free deq [symmetric] refl Cons] start_fetch_inv [OF inv' gone] deq free "1.prems"(2) Cons
        by (simp add: fill_slots.simps [of q] split_def Let_def)
      then have "k = fc_key c \<or> contains_key q' k" by (auto simp: start_fetch_def contains_key_iff keys_update)
      then show ?thesis using c q'q by blast
    qed
  qed
qed

lemma fetch_outcome_pipeline:
  assumes inv: "queues_inv q" and key: "key \<in> keys (in_flight_fetch q)"
    and out: "handle_fetch_outcome q key res = (terminal, n, q')" and k: "contains_key q' k"
  shows "contains_key q k \<and> (terminal \<longrightarrow> k \<noteq> key)"
proof -
  have single: "key \<notin> keys (pending_verify q)" "key \<notin> fetch_queue_keys q"
    using inv key unfolding queues_inv_def stages_disjoint_def disjoint3_def by blast+
  have complete: "contains_key (snd (complete_fetch q0 key)) k \<Longrightarrow>
      pending_verify q0 = pending_verify q \<Longrightarrow> fetch_queue_keys q0 = fetch_queue_keys q \<Longrightarrow>
      keys (in_flight_fetch q0) = keys (in_flight_fetch q) \<Longrightarrow> contains_key q k \<and> k \<noteq> key" for q0
    using single by (auto simp: complete_fetch_def contains_key_iff keys_delete)
  obtain r q0 where r: "retry_fetch q key = (r, q0)" by (cases "retry_fetch q key")
  then have "q0 = q \<or> (\<exists>e. q0 = q\<lparr>in_flight_fetch := AList.update key e (in_flight_fetch q)\<rparr>)"
    by (auto simp: retry_fetch_def Let_def split: option.splits)
  then have q0: "pending_verify q0 = pending_verify q" "fetch_queue_keys q0 = fetch_queue_keys q"
    "keys (in_flight_fetch q0) = keys (in_flight_fetch q)"
    using keys_update [of key _ "in_flight_fetch q"] insert_absorb [OF key] by (elim disjE exE; simp)+
  then have "contains_key q0 k \<longleftrightarrow> contains_key q k" by (simp add: contains_key_iff)
  with out k r complete [of q] complete [OF _ q0] show ?thesis
    by (auto simp: handle_fetch_outcome_def split: option.splits fetch_result.splits)
qed

lemma admit_pipeline:
  assumes "queues_inv q" and "admit_and_queue_hints fcs config self_id stored paid now p rh ph q = (out, q')"
  shows "queues_inv q' \<and> (\<forall>k. contains_key q' k \<longleftrightarrow> contains_key q k \<or> k \<in> ao_discovered out)"
proof -
  let ?w = "queue_work stored (admit_hints fcs config self_id stored paid rh ph (set (pending_keys q)))"
  have "queued_ok now p q ?w (queue_all now p ?w q)" by (rule queue_all_ok [OF assms(1) distinct_queue_work])
  with assms(2) show ?thesis by (simp add: admit_and_queue_hints_eq queued_ok_def)
qed

section \<open>The invariant\<close>

text \<open>The keys the sync task has queued and not yet registered.\<close>

fun unregistered :: "sync_pc \<Rightarrow> xor_name set" where
  "unregistered (SyncAdmitted p out ns) = ao_discovered out"
| "unregistered _ = {}"

fun open_requests :: "sync_pc \<Rightarrow> nat" where
  "open_requests (SyncRequested p ns) = 1"
| "open_requests _ = 0"

definition engine_inv :: "engine \<Rightarrow> bool" where
  "engine_inv = (\<lambda>(pc, cs). let (bs, flag) = cy_boot cs in
     queues_inv (cy_queues cs) \<and> flag = (\<not> bs_drained bs) \<and> bs_pending_peer_requests bs = open_requests pc \<and>
     (\<not> bs_drained bs \<longrightarrow> (\<forall>k. contains_key (cy_queues cs) k \<longrightarrow> k \<in> bs_pending_keys bs \<union> unregistered pc)))"

lemma engine_inv_eq:
  "engine_inv (pc, cs) \<longleftrightarrow> queues_inv (cy_queues cs) \<and> snd (cy_boot cs) = (\<not> bs_drained (fst (cy_boot cs))) \<and>
     bs_pending_peer_requests (fst (cy_boot cs)) = open_requests pc \<and>
     (\<not> bs_drained (fst (cy_boot cs)) \<longrightarrow>
        (\<forall>k. contains_key (cy_queues cs) k \<longrightarrow> k \<in> bs_pending_keys (fst (cy_boot cs)) \<union> unregistered pc))"
  by (auto simp: engine_inv_def split_beta Let_def)

text \<open>
  A worker that shrinks the pipeline, drops keys that have left it from the pending set and then
  checks keeps the invariant.
\<close>

lemma worker_step_inv:
  assumes "engine_inv (pc, cs)" "queues_inv q" "\<And>k. contains_key q k \<Longrightarrow> contains_key (cy_queues cs) k \<and> k \<notin> T"
    and "b = cy_boot cs \<or> b = drain_check q (fst (cy_boot cs)\<lparr>bs_pending_keys := bs_pending_keys (fst (cy_boot cs)) - T\<rparr>, snd (cy_boot cs))"
  shows "engine_inv (pc, cs\<lparr>cy_queues := q, cy_boot := b\<rparr>)"
  using assms drain_check_frame drain_check_flag by (fastforce simp: engine_inv_eq drain_check_drained)

lemma verification_boot:
  "update_bootstrap_after_verification ts q b = b \<or>
   update_bootstrap_after_verification ts q b =
     drain_check q (fst b\<lparr>bs_pending_keys := bs_pending_keys (fst b) - set ts\<rparr>, snd b)"
  by (cases b) (auto simp: update_bootstrap_after_verification_def fold_bs_remove_key)

lemma fetch_boot:
  "update_bootstrap_after_fetch key t q b = b \<or>
   t \<and> update_bootstrap_after_fetch key t q b =
     drain_check q (fst b\<lparr>bs_pending_keys := bs_pending_keys (fst b) - {key}\<rparr>, snd b)"
  by (cases b) (auto simp: update_bootstrap_after_fetch_def bs_remove_key_def)

lemma verification_step_inv: "engine_inv (pc, cs) \<Longrightarrow> engine_inv (pc, run_verification_cycle env cs)"
proof -
  assume inv: "engine_inv (pc, cs)"
  then have q: "queues_inv (cy_queues cs)" by (simp add: engine_inv_eq)
  let ?st = "run_verification_cycle env cs"
  let ?T = "set (snd (snd (cycle_result env (cy_paid cs) (evicted env cs))))"
  have "engine_inv (pc, cs\<lparr>cy_queues := cy_queues ?st, cy_boot := cy_boot ?st\<rparr>)"
  proof (rule worker_step_inv [OF inv])
    show "queues_inv (cy_queues ?st)" by (simp add: cycle_queues_eq cycle_inv evicted_inv q)
    show "contains_key (cy_queues cs) k \<and> k \<notin> ?T" if "contains_key (cy_queues ?st) k" for k
      using cycle_pipeline [OF q that] by simp
    show "cy_boot ?st = cy_boot cs \<or> cy_boot ?st = drain_check (cy_queues ?st)
        (fst (cy_boot cs)\<lparr>bs_pending_keys := bs_pending_keys (fst (cy_boot cs)) - ?T\<rparr>, snd (cy_boot cs))"
      unfolding cycle_queues_eq(3) by (rule verification_boot)
  qed
  then show ?thesis by (simp add: engine_inv_eq)
qed

lemma fetch_step_inv:
  assumes inv: "engine_inv (pc, cs)" and key: "key \<in> keys (in_flight_fetch (cy_queues cs))"
  shows "engine_inv (pc, fetch_finished key res cs)"
proof -
  obtain t n q where out: "handle_fetch_outcome (cy_queues cs) key res = (t, n, q)"
    by (cases "handle_fetch_outcome (cy_queues cs) key res") auto
  have qi: "queues_inv (cy_queues cs)" using inv by (simp add: engine_inv_eq)
  show ?thesis
    unfolding fetch_finished_def out Let_def prod.case
  proof (rule worker_step_inv [OF inv, where T = "if t then {key} else {}"])
    show "queues_inv q" using handle_fetch_outcome_inv [OF qi out] .
    show "contains_key (cy_queues cs) k \<and> k \<notin> (if t then {key} else {})" if "contains_key q k" for k
      using fetch_outcome_pipeline [OF qi key out that] by simp
  qed (use fetch_boot [of key t q "cy_boot cs"] in auto)
qed

lemma inbound_step_inv:
  assumes inv: "engine_inv (pc, cs)"
    and out: "admit_and_queue_hints fcs config self_id stored paid now p rh ph (cy_queues cs) = (out, q)"
  shows "engine_inv (pc, inbound_hints p out (cs\<lparr>cy_queues := q\<rparr>))"
  using inv admit_pipeline [OF _ out]
  by (auto simp: engine_inv_eq inbound_hints_def on_bs_def track_admission_def bootstrap_ops Let_def)

lemma engine_step_inv:
  assumes "engine_inv s" "engine_step s s'" shows "engine_inv s'"
  using assms(2)
proof (cases rule: engine_step.cases)
  case (sync_end ns shutdown cs)
  with assms(1) worker_step_inv [of "SyncTurn ns" cs "cy_queues cs" "{}" "drain_check (cy_queues cs) (cy_boot cs)"]
  show ?thesis by (cases "cy_boot cs") (simp add: end_sync_def engine_inv_eq)
next
  case (sync_admit fcs config self_id stored paid now p rh ph cs out q ns)
  with assms(1) admit_pipeline [OF _ sync_admit(3)] show ?thesis by (auto simp: engine_inv_eq)
next
  case (fetch_start pc cs free now)
  with assms(1) fill_slots_pipeline [of "cy_queues cs" free now] show ?thesis
    by (auto simp: engine_inv_eq fill_slots_inv)
next
  case verification
  with assms(1) verification_step_inv show ?thesis by simp
next
  case fetch_done
  with assms(1) fetch_step_inv show ?thesis by simp
next
  case inbound
  with assms(1) inbound_step_inv show ?thesis by simp
qed (use assms(1) in \<open>auto simp: engine_inv_eq begin_sync_def on_bs_def complete_bootstrap_def
      track_discovered_def note_or_clear_def bootstrap_ops\<close>)

lemma engine_start_inv: "engine_inv engine_start"
  by (simp add: engine_inv_eq engine_start_def queues_new_inv bootstrap_new_def)
     (simp add: queues_new_def contains_key_def)

interpretation engine: invariant_system engine_step engine_start engine_inv
  by unfold_locales (auto intro: engine_start_inv engine_step_inv)

section \<open>When the state drains\<close>

definition drained_ok :: "engine \<Rightarrow> bool" where
  "drained_ok = (\<lambda>(pc, cs). open_requests pc = 0 \<and> bs_pending_peer_requests (fst (cy_boot cs)) = 0 \<and>
     bs_capacity_rejected_sources (fst (cy_boot cs)) = {} \<and>
     (\<forall>k. contains_key (cy_queues cs) k \<longrightarrow> k \<in> unregistered pc))"

abbreviation drained :: "engine \<Rightarrow> bool" where
  "drained s \<equiv> bs_drained (fst (cy_boot (snd s)))"

lemma worker_drains:
  assumes "engine_inv (pc, cs)" "\<And>k. contains_key q k \<Longrightarrow> contains_key (cy_queues cs) k \<and> k \<notin> T"
    and "b = cy_boot cs \<or> b = drain_check q (fst (cy_boot cs)\<lparr>bs_pending_keys := bs_pending_keys (fst (cy_boot cs)) - T\<rparr>, snd (cy_boot cs))"
    and "\<not> bs_drained (fst (cy_boot cs))" "bs_drained (fst b)" "cy_queues cs' = q" "cy_boot cs' = b"
  shows "drained_ok (pc, cs')"
  using assms by (fastforce simp: drained_ok_def engine_inv_eq drain_check_drained drain_check_frame)

lemma step_drains:
  assumes inv: "engine_inv s" and "engine_step s s'" and nd: "\<not> drained s" and d: "drained s'"
  shows "s' = begin_sync [] (snd s) \<or> drained_ok s'"
  using assms(2)
proof (cases rule: engine_step.cases)
  case (sync_begin cs neighbors)
  with nd d show ?thesis by (auto simp: begin_sync_def split: if_splits)
next
  case (sync_end ns shutdown cs)
  with inv nd d worker_drains [of "SyncTurn ns" cs "cy_queues cs" "{}" "drain_check (cy_queues cs) (cy_boot cs)" "snd s'"]
  show ?thesis by (cases "cy_boot cs") (auto simp: end_sync_def drained_ok_def)
next
  case (verification pc cs env)
  then have q: "queues_inv (cy_queues cs)" using inv by (simp add: engine_inv_eq)
  let ?ts = "snd (snd (cycle_result env (cy_paid cs) (evicted env cs)))"
  have "drained_ok (pc, run_verification_cycle env cs)"
    by (rule worker_drains [where cs = cs and T = "set ?ts", OF _ _ _ _ _ refl refl])
      (use verification inv nd d cycle_pipeline [OF q] verification_boot [of ?ts _ "cy_boot cs"]
        in \<open>simp_all only: cycle_queues_eq(3) fst_conv snd_conv, simp_all\<close>)
  then show ?thesis by (simp add: verification)
next
  case (fetch_done key cs pc res)
  then have q: "queues_inv (cy_queues cs)" using inv by (simp add: engine_inv_eq)
  obtain t n q' where out: "handle_fetch_outcome (cy_queues cs) key res = (t, n, q')"
    by (cases "handle_fetch_outcome (cy_queues cs) key res") auto
  have "drained_ok (pc, fetch_finished key res cs)"
    by (rule worker_drains [where cs = cs and T = "if t then {key} else {}", OF _ _ _ _ _ refl refl])
      (use fetch_done inv nd d fetch_outcome_pipeline [OF q _ out] fetch_boot [of key t q' "cy_boot cs"]
        in \<open>auto simp: fetch_finished_def out\<close>)
  then show ?thesis by (simp add: fetch_done)
qed (use nd d in \<open>auto simp: on_bs_def track_discovered_def note_or_clear_def bootstrap_ops inbound_hints_def
      track_admission_def Let_def split: if_splits\<close>)

section \<open>Properties\<close>


text \<open>
  The gap in the accounting of requests: the counter of open requests is raised and lowered inside
  the loop for one peer at a time, so between two peers it is zero. A verification pass that
  finishes the keys of the first peer then ends the bootstrap although the second neighbour has not
  been asked for its hints.
\<close>

definition gap_env :: cycle_env where
  "gap_env = \<lparr>ce_fc = \<lambda>_ _. [], ce_fcs = \<lambda>_ _. [1], ce_self = 1, ce_config = default_config 7,
     ce_stored = \<lambda>_. Some False, ce_paid_read_ok = \<lambda>_. True, ce_paid_insert_ok = \<lambda>_. True,
     ce_commitments = Map.empty, ce_capable = {}, ce_provers = [], ce_now = 9,
     ce_xor_distance = \<lambda>a b. xor a b, ce_probe_replies = [], ce_network_replies = []\<rparr>"

definition gap_admission :: "admission_outcome \<times> replication_queues" where
  "gap_admission = admit_and_queue_hints (\<lambda>_ _. [1]) (default_config 7) 1 (\<lambda>_. Some False) (\<lambda>_. Some False) 9 2
     [42] [] queues_new"

definition gap_state :: cycle_state where
  "gap_state = \<lparr>cy_queues = snd gap_admission, cy_paid = {},
     cy_boot = (\<lparr>bs_drained = False, bs_pending_peer_requests = 0, bs_pending_keys = {42},
       bs_capacity_rejected_sources = {}\<rparr>, True)\<rparr>"

lemma gap_admission_eq:
  "gap_admission = (\<lparr>ao_discovered = {42}, ao_capacity_rejected_count = 0\<rparr>,
     \<lparr>pending_verify = [(42, new_entry Replica 9 2)], fetch_queue = [], fetch_queue_keys = {}, in_flight_fetch = [],
       pending_per_sender = [2 \<mapsto> 1]\<rparr>)"
  by (simp add: gap_admission_def admit_and_queue_hints_def pending_keys_def queues_new_def
      admit_hints_eq replica_admissible_def paid_admissible_def queue_hint_def add_pending_verify_def
      contains_key_def new_entry_def MAX_PENDING_VERIFY_def MAX_PENDING_VERIFY_PER_PEER_def)

lemma gap_reachable: "reachable_from engine_step engine_start (SyncTurn [3], gap_state)"
proof -
  let ?cs = "\<lambda>n q ks. \<lparr>cy_queues = q, cy_paid = {}, cy_boot = (\<lparr>bs_drained = False, bs_pending_peer_requests = n,
    bs_pending_keys = ks, bs_capacity_rejected_sources = {}\<rparr>, True)\<rparr>"
  let ?q = "snd gap_admission" and ?out = "fst gap_admission"
  have "engine_step engine_start (SyncTurn [2, 3], ?cs 0 queues_new {})"
    using sync_begin [of "?cs 0 queues_new {}" "[2, 3]"] by (simp add: engine_start_def begin_sync_def bootstrap_new_def)
  moreover have "engine_step (SyncTurn [2, 3], ?cs 0 queues_new {}) (SyncRequested 2 [3], ?cs 1 queues_new {})"
    using sync_request [of 2 "[3]" "?cs 0 queues_new {}"] by (simp add: on_bs_def bootstrap_ops)
  moreover have "engine_step (SyncRequested 2 [3], ?cs 1 queues_new {}) (SyncAnswered 2 (SyncHints [42] []) [3], ?cs 0 queues_new {})"
    using sync_answer [of 2 "[3]" "?cs 1 queues_new {}" "SyncHints [42] []"] by (simp add: on_bs_def bootstrap_ops)
  moreover have "engine_step (SyncAnswered 2 (SyncHints [42] []) [3], ?cs 0 queues_new {}) (SyncAdmitted 2 ?out [3], ?cs 0 ?q {})"
    using sync_admit [of "\<lambda>_ _. [1]" "default_config 7" 1 "\<lambda>_. Some False" "\<lambda>_. Some False" 9 2 "[42]" "[]"
        "?cs 0 queues_new {}" ?out ?q "[3]"] by (simp add: gap_admission_def)
  moreover have "engine_step (SyncAdmitted 2 ?out [3], ?cs 0 ?q {}) (SyncTracked 2 ?out [3], ?cs 0 ?q {42})"
    using sync_track [of 2 ?out "[3]" "?cs 0 ?q {}"] by (simp add: on_bs_def track_discovered_def bootstrap_ops gap_admission_eq)
  moreover have "engine_step (SyncTracked 2 ?out [3], ?cs 0 ?q {42}) (SyncTurn [3], gap_state)"
    using sync_note [of 2 ?out "[3]" "?cs 0 ?q {42}"]
    by (simp add: on_bs_def note_or_clear_def bootstrap_ops gap_admission_eq gap_state_def)
  ultimately show ?thesis by (meson reachable_from.intros)
qed

lemma gap_cycle: "cy_boot (run_verification_cycle gap_env gap_state) =
    (\<lparr>bs_drained = True, bs_pending_peer_requests = 0, bs_pending_keys = {}, bs_capacity_rejected_sources = {}\<rparr>, False)"
proof -
  let ?e = "new_entry Replica 9 2"
  have "queues_inv (cy_queues gap_state)"
    using engine.inv_reachable [OF gap_reachable] by (simp add: engine_inv_eq)
  then have inv: "queues_inv (evicted gap_env gap_state)" by (rule evicted_inv)
  have ev: "evicted gap_env gap_state = snd gap_admission"
    by (simp add: evicted_def gap_state_def gap_env_def gap_admission_eq evict_stale_def new_entry_def
        PENDING_VERIFY_MAX_AGE_def from_secs_def)
  have st: "stage (evicted gap_env gap_state) 42 = InPending ?e"
    by (simp add: ev gap_admission_eq stage_InPending get_pending_def)
  have net: "42 \<in> set (network_keys gap_env {} (snd gap_admission))"
    by (simp add: network_keys_def pending_keys_def local_paid_def paid_contains_def gap_admission_eq gap_env_def)
  have "outcome_sources (network_outcome gap_env (network_keys gap_env {} (snd gap_admission)) 42) = None"
    using network_verified_backed [OF net] by (force simp: gap_env_def Let_def)
  moreover have "\<not> local_paid gap_env {} 42" by (simp add: local_paid_def paid_contains_def gap_env_def)
  ultimately have "fate gap_env {} (snd gap_admission) 42 Replica = Leave" by (simp add: fate_def)
  with cycle_resolved [OF inv st, of gap_env "{}"] have "42 \<in> set (snd (snd (cycle_result gap_env {} (snd gap_admission))))"
    by (simp add: resolved_def ev new_entry_def)
  moreover have "cy_paid gap_state = {}" "cy_boot gap_state = (\<lparr>bs_drained = False, bs_pending_peer_requests = 0,
      bs_pending_keys = {42}, bs_capacity_rejected_sources = {}\<rparr>, True)"
    by (simp_all add: gap_state_def)
  ultimately show ?thesis
    unfolding cycle_queues_eq(3) ev
    by (auto simp: update_bootstrap_after_verification_def fold_bs_remove_key is_drained_def drain_check_def
        check_bootstrap_drained_def complete_bootstrap_def is_bootstrap_work_empty_def)
qed


theorem bootstrap_ends_before_all_neighbours:
  "\<exists>cs. reachable_from engine_step engine_start (SyncTurn [3], cs) \<and> bs_drained (fst (cy_boot cs)) \<and> \<not> snd (cy_boot cs)"
  using reachable_from.step [OF gap_reachable engine_step.verification [of "SyncTurn [3]" gap_state gap_env]] gap_cycle
  by (intro exI [of _ "run_verification_cycle gap_env gap_state"]) simp

end
