(* ===== verification/Paid_List.thy ===== *)
theory Paid_List
  imports Prelude
begin

text \<open>
  The persistent list of paid keys (src/src/replication/paid_list.rs) with its two in-memory clocks
  of when a key went out of range and the cursor of the prune scan. The LMDB database is the set of
  its keys, iterated in ascending order; whether a transaction succeeds is an argument, and \<open>None\<close>
  is the error result.
\<close>

section \<open>Operations\<close>

record paid_list =
  pl_keys :: "xor_name set"
  pl_paid_out_of_range :: "xor_name \<rightharpoonup> instant"
  pl_record_out_of_range :: "xor_name \<rightharpoonup> instant"
  pl_paid_prune_cursor :: nat

text \<open>Opening the list on the database a previous run left: the clocks start empty.\<close>

definition pl_new :: "xor_name set \<Rightarrow> paid_list" where
  "pl_new db = \<lparr>pl_keys = db, pl_paid_out_of_range = Map.empty, pl_record_out_of_range = Map.empty,
     pl_paid_prune_cursor = 0\<rparr>"

definition pl_contains :: "bool \<Rightarrow> xor_name \<Rightarrow> paid_list \<Rightarrow> bool option" where
  "pl_contains read_ok key pl = (if read_ok then Some (key \<in> pl_keys pl) else None)"

definition pl_insert :: "bool \<Rightarrow> bool \<Rightarrow> xor_name \<Rightarrow> paid_list \<Rightarrow> bool option \<times> paid_list" where
  "pl_insert read_ok write_ok key pl =
     (case pl_contains read_ok key pl of
        None \<Rightarrow> (None, pl)
      | Some True \<Rightarrow> (Some False, pl)
      | Some False \<Rightarrow> if write_ok then (Some True, pl\<lparr>pl_keys := insert key (pl_keys pl)\<rparr>) else (None, pl))"

definition drop_clocks :: "xor_name set \<Rightarrow> paid_list \<Rightarrow> paid_list" where
  "drop_clocks ks pl = pl\<lparr>pl_paid_out_of_range := pl_paid_out_of_range pl |` (- ks),
     pl_record_out_of_range := pl_record_out_of_range pl |` (- ks)\<rparr>"

definition pl_remove :: "bool \<Rightarrow> xor_name \<Rightarrow> paid_list \<Rightarrow> bool option \<times> paid_list" where
  "pl_remove write_ok key pl =
     (if \<not> write_ok then (None, pl)
      else if key \<in> pl_keys pl then (Some True, drop_clocks {key} (pl\<lparr>pl_keys := pl_keys pl - {key}\<rparr>))
      else (Some False, pl))"

definition pl_count :: "bool \<Rightarrow> paid_list \<Rightarrow> nat option" where
  "pl_count read_ok pl = (if read_ok then Some (card (pl_keys pl)) else None)"

definition pl_all_keys :: "bool \<Rightarrow> paid_list \<Rightarrow> xor_name list option" where
  "pl_all_keys read_ok pl = (if read_ok then Some (sorted_list_of_set (pl_keys pl)) else None)"

definition or_insert_at :: "'k \<Rightarrow> 'v \<Rightarrow> ('k \<rightharpoonup> 'v) \<Rightarrow> ('k \<rightharpoonup> 'v)" where
  "or_insert_at k v m = (case m k of None \<Rightarrow> m(k \<mapsto> v) | Some _ \<Rightarrow> m)"

definition set_paid_out_of_range :: "instant \<Rightarrow> xor_name \<Rightarrow> paid_list \<Rightarrow> paid_list" where
  "set_paid_out_of_range now key pl =
     pl\<lparr>pl_paid_out_of_range := or_insert_at key now (pl_paid_out_of_range pl)\<rparr>"

definition clear_paid_out_of_range :: "xor_name \<Rightarrow> paid_list \<Rightarrow> paid_list" where
  "clear_paid_out_of_range key pl = pl\<lparr>pl_paid_out_of_range := (pl_paid_out_of_range pl)(key := None)\<rparr>"

definition paid_out_of_range_since :: "xor_name \<Rightarrow> paid_list \<Rightarrow> instant option" where
  "paid_out_of_range_since key pl = pl_paid_out_of_range pl key"

definition set_record_out_of_range :: "instant \<Rightarrow> xor_name \<Rightarrow> paid_list \<Rightarrow> paid_list" where
  "set_record_out_of_range now key pl =
     pl\<lparr>pl_record_out_of_range := or_insert_at key now (pl_record_out_of_range pl)\<rparr>"

definition clear_record_out_of_range :: "xor_name \<Rightarrow> paid_list \<Rightarrow> paid_list" where
  "clear_record_out_of_range key pl = pl\<lparr>pl_record_out_of_range := (pl_record_out_of_range pl)(key := None)\<rparr>"

definition record_out_of_range_since :: "xor_name \<Rightarrow> paid_list \<Rightarrow> instant option" where
  "record_out_of_range_since key pl = pl_record_out_of_range pl key"

definition paid_prune_scan_start :: "nat \<Rightarrow> paid_list \<Rightarrow> nat" where
  "paid_prune_scan_start paid_key_count pl =
     (if paid_key_count = 0 then 0 else pl_paid_prune_cursor pl mod paid_key_count)"

definition advance_paid_prune_cursor :: "nat \<Rightarrow> nat \<Rightarrow> nat option \<Rightarrow> paid_list \<Rightarrow> paid_list" where
  "advance_paid_prune_cursor paid_key_count scan_start last_selected_offset pl =
     pl\<lparr>pl_paid_prune_cursor :=
       (if paid_key_count = 0 then 0
        else (scan_start + (case last_selected_offset of None \<Rightarrow> 1 | Some offset \<Rightarrow> offset + 1)) mod paid_key_count)\<rparr>"

text \<open>The deletions of one transaction, in order, with the keys that were there.\<close>

fun delete_each :: "xor_name list \<Rightarrow> xor_name set \<Rightarrow> xor_name list \<times> xor_name set" where
  "delete_each [] db = ([], db)"
| "delete_each (key # ks) db =
     (let (removed, db') = delete_each ks (db - {key}) in (if key \<in> db then key # removed else removed, db'))"

definition pl_remove_batch :: "bool \<Rightarrow> xor_name list \<Rightarrow> paid_list \<Rightarrow> nat option \<times> paid_list" where
  "pl_remove_batch write_ok ks pl =
     (if ks = [] then (Some 0, pl)
      else if \<not> write_ok then (None, pl)
      else let (removed, db) = delete_each ks (pl_keys pl)
           in (Some (length removed), drop_clocks (set removed) (pl\<lparr>pl_keys := db\<rparr>)))"

section \<open>Lemmas\<close>

lemmas clock_defs = set_paid_out_of_range_def clear_paid_out_of_range_def paid_out_of_range_since_def
  set_record_out_of_range_def clear_record_out_of_range_def record_out_of_range_since_def

lemma or_insert_at_apply: "or_insert_at k v m j = (if j = k \<and> m k = None then Some v else m j)"
  by (auto simp: or_insert_at_def split: option.splits)

lemma delete_each_eq:
  "delete_each ks db = (removed, db') \<Longrightarrow> db' = db - set ks \<and> set removed = set ks \<inter> db \<and> distinct removed"
  by (induction ks arbitrary: db removed db') (fastforce split: prod.splits if_splits)+

lemma drop_clocks_drop: "drop_clocks A (drop_clocks B pl) = drop_clocks (A \<union> B) pl"
  by (simp add: drop_clocks_def restrict_restrict Int_commute)

lemma drop_no_clocks [simp]: "drop_clocks {} pl = pl"
  by (simp add: drop_clocks_def restrict_map_def)

lemma drop_clocks_keys:
  "drop_clocks A (pl\<lparr>pl_keys := K\<rparr>) = (drop_clocks A pl)\<lparr>pl_keys := K\<rparr>" "pl_keys (drop_clocks A pl) = pl_keys pl"
  by (simp_all add: drop_clocks_def)

text \<open>The removal of the keys one by one, counting those that were there.\<close>

fun remove_each :: "xor_name list \<Rightarrow> paid_list \<Rightarrow> nat \<times> paid_list" where
  "remove_each [] pl = (0, pl)"
| "remove_each (key # ks) pl =
     (let (existed, pl1) = pl_remove True key pl; (n, pl2) = remove_each ks pl1
      in (if existed = Some True then n + 1 else n, pl2))"

lemma remove_each_eq:
  "remove_each ks pl =
     (card (set ks \<inter> pl_keys pl), drop_clocks (set ks \<inter> pl_keys pl) (pl\<lparr>pl_keys := pl_keys pl - set ks\<rparr>))"
proof (induction ks arbitrary: pl)
  case Nil
  show ?case by simp
next
  case (Cons key ks)
  show ?case
  proof (cases "key \<in> pl_keys pl")
    case True
    have s: "insert key (set ks) \<inter> pl_keys pl = insert key (set ks \<inter> (pl_keys pl - {key}))" using True by auto
    have "pl_keys pl - {key} - set ks = pl_keys pl - insert key (set ks)" by auto
    with True show ?thesis by (simp add: pl_remove_def s Cons drop_clocks_keys drop_clocks_drop)
  next
    case False
    then have "insert key (set ks) \<inter> pl_keys pl = set ks \<inter> pl_keys pl"
      "pl_keys pl - insert key (set ks) = pl_keys pl - set ks" by auto
    with False Cons [of pl] show ?thesis by (simp add: pl_remove_def)
  qed
qed

section \<open>Properties\<close>

text \<open>
  Removing a batch in one transaction is removing its keys one after the other: the same keys, the
  same clocks, the same count; and a batch whose transaction fails changes nothing. Reopening the
  list keeps every key and restarts the clocks.
\<close>

theorem remove_batch_is_sequence:
  "pl_remove_batch True ks pl = map_prod Some id (remove_each ks pl) \<and>
   pl_remove_batch False ks pl = (if ks = [] then Some 0 else None, pl) \<and>
   pl_keys (pl_new (pl_keys (snd (pl_remove_batch True ks pl)))) = pl_keys pl - set ks"
proof -
  obtain removed db where d: "delete_each ks (pl_keys pl) = (removed, db)" by (cases "delete_each ks (pl_keys pl)")
  note de = delete_each_eq [OF d]
  then have "card (set ks \<inter> pl_keys pl) = length removed" using distinct_card [of removed] by simp
  with de have "pl_remove_batch True ks pl = map_prod Some id (remove_each ks pl)"
    by (cases "ks = []") (simp_all add: pl_remove_batch_def d remove_each_eq)
  then show ?thesis by (simp add: remove_each_eq pl_remove_batch_def pl_new_def drop_clocks_keys)
qed

end
