(* ===== verification/Record_Pruning.thy ===== *)
theory Record_Pruning
  imports Responsible_Audit Neighbor_Sync Commitment_State Paid_List
begin

text \<open>
  Pruning of stored records (src/src/replication/pruning.rs): a scan selects records that have been
  out of range long enough, the close group is asked to prove that it holds them, and a record is
  deleted when a second look after the answers still allows it. Routing lookups, the commitment state
  and the clock are given once for the scan and once for the second look, since both can change while
  the answers are awaited. The trust events the pass reports are collected in a list.
\<close>

section \<open>Data\<close>

datatype trust_event = AuditFailureEvent peer_id | ReplicationFailureEvent peer_id

datatype prune_audit_status = Proven | AuditFailed | PeerBootstrapping

record record_prune_candidate =
  rc_key :: xor_name
  rc_target_peers :: "peer_id list"

datatype record_prune_key_state =
    KeyNone
  | KeyCleared
  | BootstrapDeferred
  | BudgetDeferred
  | HeldByCommitment
  | KeyCandidate record_prune_candidate

record prune_env =
  pe_self :: peer_id
  pe_config :: replication_config
  pe_closest :: "xor_name \<Rightarrow> nat \<Rightarrow> peer_id list"
  pe_closest_audit :: "xor_name \<Rightarrow> nat \<Rightarrow> peer_id list"
  pe_closest_later :: "xor_name \<Rightarrow> nat \<Rightarrow> peer_id list"
  pe_allow_remote_prune_audits :: bool
  pe_current_sync_epoch :: nat
  pe_now :: instant
  pe_mark_now :: "xor_name \<Rightarrow> instant"
  pe_now_later :: instant
  pe_commitment :: "inner option"
  pe_commitment_later :: "inner option"
  pe_read_ok :: bool
  pe_get_raw :: "xor_name \<Rightarrow> unit + bytes option"
  pe_delete_ok :: "xor_name \<Rightarrow> bool"
  pe_delete_now :: "xor_name \<Rightarrow> instant"
  pe_b3 :: "bytes \<Rightarrow> hash32"
  pe_challenge_id :: "peer_id \<Rightarrow> xor_name \<Rightarrow> nat"
  pe_nonce :: "peer_id \<Rightarrow> xor_name \<Rightarrow> hash32"
  pe_send :: "peer_id \<Rightarrow> key_audit_challenge \<Rightarrow> wire"
  pe_claim_now :: "peer_id \<Rightarrow> xor_name \<Rightarrow> instant"
  pe_completion :: "(peer_id \<times> xor_name) list \<Rightarrow> (peer_id \<times> xor_name) list"

record prune_state =
  pr_store :: "xor_name list"
  pr_paid_list :: paid_list
  pr_sync :: neighbor_sync_state
  pr_proofs :: repair_proofs

section \<open>The scan\<close>

definition remote_close_group_peers :: "peer_id list \<Rightarrow> peer_id \<Rightarrow> peer_id list" where
  "remote_close_group_peers close_group self_id = filter (\<lambda>p. p \<noteq> self_id) close_group"

definition prune_proofs_needed :: "nat \<Rightarrow> nat" where
  "prune_proofs_needed group_size = (if group_size \<le> 2 then group_size else group_size - 1)"

fun peers_with_mature_repair_proofs ::
  "xor_name \<Rightarrow> peer_id list \<Rightarrow> peer_id set \<Rightarrow> nat \<Rightarrow> instant \<Rightarrow> repair_proofs \<Rightarrow> peer_id list \<times> repair_proofs" where
  "peers_with_mature_repair_proofs key [] close_peers epoch now proofs = ([], proofs)"
| "peers_with_mature_repair_proofs key (peer # peers) close_peers epoch now proofs =
     (let (mature, proofs1) = has_mature_replica_hint peer key close_peers epoch now proofs;
          (ps, proofs2) = peers_with_mature_repair_proofs key peers close_peers epoch now proofs1
      in (if mature then peer # ps else ps, proofs2))"

definition record_prune_lookup_groups ::
  "(xor_name \<Rightarrow> nat \<Rightarrow> peer_id list) \<Rightarrow> replication_config \<Rightarrow> xor_name \<Rightarrow> peer_id list \<times> peer_id list" where
  "record_prune_lookup_groups closest config key =
     (closest key (storage_admission_width (close_group_size config)), closest key (close_group_size config))"

definition held_by :: "inner option \<Rightarrow> xor_name \<Rightarrow> bool" where
  "held_by cs key = is_some_and cs (\<lambda>st. is_held st key)"

record scan =
  sn_marked :: nat
  sn_cleared :: nat
  sn_held :: nat
  sn_candidates :: "record_prune_candidate list"
  sn_budget :: nat
  sn_last :: "nat option"
  sn_pl :: paid_list
  sn_proofs :: repair_proofs

text \<open>
  One key: whether its clock was started, its state, the remaining budget and the tables. The early
  returns are the branches.
\<close>

definition evaluate_record_prune_key ::
  "prune_env \<Rightarrow> xor_name \<Rightarrow> nat \<Rightarrow> paid_list \<Rightarrow> repair_proofs \<Rightarrow>
     bool \<times> record_prune_key_state \<times> nat \<times> paid_list \<times> repair_proofs" where
  "evaluate_record_prune_key env key budget pl proofs =
     (let (storage_admission_group, strict_close_group) =
            record_prune_lookup_groups (pe_closest env) (pe_config env) key
      in if pe_self env \<in> set storage_admission_group
         then (if record_out_of_range_since key pl \<noteq> None
               then (False, KeyCleared, budget, clear_record_out_of_range key pl, proofs)
               else (False, KeyNone, budget, pl, proofs))
         else if held_by (pe_commitment env) key then (False, HeldByCommitment, budget, pl, proofs)
         else
           let marked = (record_out_of_range_since key pl = None);
               pl1 = set_record_out_of_range (pe_mark_now env key) key pl
           in case record_out_of_range_since key pl1 of
                None \<Rightarrow> (marked, KeyNone, budget, pl1, proofs)
              | Some first_seen \<Rightarrow>
                  if pe_now env - first_seen < prune_hysteresis_duration (pe_config env)
                  then (marked, KeyNone, budget, pl1, proofs)
                  else if \<not> pe_allow_remote_prune_audits env
                  then (marked, BootstrapDeferred, budget, pl1, proofs)
                  else
                    let target_peers = remote_close_group_peers strict_close_group (pe_self env)
                    in if target_peers = [] then (marked, KeyNone, budget, pl1, proofs)
                       else
                         let (audit_targets, proofs1) = peers_with_mature_repair_proofs key target_peers
                               (set strict_close_group) (pe_current_sync_epoch env) (pe_now env) proofs;
                             proofs_needed = prune_proofs_needed (length target_peers)
                         in if proofs_needed = 0 \<or> length audit_targets < proofs_needed
                            then (marked, KeyNone, budget, pl1, proofs1)
                            else if length audit_targets > budget
                            then (marked, BudgetDeferred, budget, pl1, proofs1)
                            else (marked, KeyCandidate \<lparr>rc_key = key, rc_target_peers = audit_targets\<rparr>,
                              budget - length audit_targets, pl1, proofs1))"

definition scan_record :: "prune_env \<Rightarrow> nat \<times> xor_name \<Rightarrow> scan \<Rightarrow> scan" where
  "scan_record env = (\<lambda>(offset, key) sn.
     let (marked, state, budget, pl, proofs) =
           evaluate_record_prune_key env key (sn_budget sn) (sn_pl sn) (sn_proofs sn);
         sn1 = sn\<lparr>sn_marked := (if marked then sn_marked sn + 1 else sn_marked sn),
           sn_budget := budget, sn_pl := pl, sn_proofs := proofs\<rparr>
     in case state of
          KeyNone \<Rightarrow> sn1
        | KeyCleared \<Rightarrow> sn1\<lparr>sn_cleared := sn_cleared sn1 + 1\<rparr>
        | BootstrapDeferred \<Rightarrow> sn1
        | BudgetDeferred \<Rightarrow> sn1
        | HeldByCommitment \<Rightarrow> sn1\<lparr>sn_held := sn_held sn1 + 1\<rparr>
        | KeyCandidate candidate \<Rightarrow>
            sn1\<lparr>sn_last := Some offset, sn_candidates := sn_candidates sn1 @ [candidate]\<rparr>)"

definition prune_scan_start :: "nat \<Rightarrow> neighbor_sync_state \<Rightarrow> nat" where
  "prune_scan_start stored_key_count st = (if stored_key_count = 0 then 0 else ns_prune_cursor st mod stored_key_count)"

definition advance_prune_cursor :: "nat \<Rightarrow> nat \<Rightarrow> nat option \<Rightarrow> neighbor_sync_state \<Rightarrow> neighbor_sync_state" where
  "advance_prune_cursor stored_key_count scan_start last_selected_offset st =
     st\<lparr>ns_prune_cursor :=
       (if stored_key_count = 0 then 0
        else (scan_start + (case last_selected_offset of None \<Rightarrow> 1 | Some offset \<Rightarrow> offset + 1)) mod stored_key_count)\<rparr>"

definition scan_order :: "nat \<Rightarrow> xor_name list \<Rightarrow> (nat \<times> xor_name) list" where
  "scan_order scan_start ks = map (\<lambda>offset. (offset, ks ! ((scan_start + offset) mod length ks))) [0..<length ks]"

definition scan_records :: "prune_env \<Rightarrow> prune_state \<Rightarrow> scan" where
  "scan_records env st =
     fold (scan_record env) (scan_order (prune_scan_start (length (pr_store st)) (pr_sync st)) (pr_store st))
       \<lparr>sn_marked = 0, sn_cleared = 0, sn_held = 0, sn_candidates = [],
        sn_budget = MAX_PRUNE_AUDIT_CHALLENGES_PER_PASS, sn_last = None, sn_pl = pr_paid_list st,
        sn_proofs = pr_proofs st\<rparr>"

section \<open>The confirmation audits\<close>

definition local_record_bytes :: "prune_env \<Rightarrow> xor_name \<Rightarrow> bytes option" where
  "local_record_bytes env key = (case pe_get_raw env key of Inr (Some bs) \<Rightarrow> Some bs | Inr None \<Rightarrow> None | Inl _ \<Rightarrow> None)"

definition audit_digest_proves_key ::
  "(bytes \<Rightarrow> hash32) \<Rightarrow> peer_id \<Rightarrow> xor_name \<Rightarrow> hash32 \<Rightarrow> bytes \<Rightarrow> hash32 \<Rightarrow> bool" where
  "audit_digest_proves_key b3 peer key nonce local_bytes digest =
     (if digest = ABSENT_KEY_DIGEST then False
      else digest = compute_audit_digest b3 nonce peer key local_bytes)"

definition prune_audit_response_status ::
  "(bytes \<Rightarrow> hash32) \<Rightarrow> reply_body \<Rightarrow> nat \<Rightarrow> peer_id \<Rightarrow> xor_name \<Rightarrow> hash32 \<Rightarrow> bytes \<Rightarrow> prune_audit_status" where
  "prune_audit_response_status b3 body challenge_id peer key nonce local_bytes =
     (case body of
        BodyKeyAuditResponse (Digests resp_id digests) \<Rightarrow>
          if resp_id \<noteq> challenge_id then AuditFailed
          else (case digests of
             [digest] \<Rightarrow>
               if digest = ABSENT_KEY_DIGEST then AuditFailed
               else if audit_digest_proves_key b3 peer key nonce local_bytes digest then Proven
               else AuditFailed
           | _ \<Rightarrow> AuditFailed)
      | BodyKeyAuditResponse (DigestsBootstrapping resp_id) \<Rightarrow>
          if resp_id = challenge_id then PeerBootstrapping else AuditFailed
      | BodyKeyAuditResponse (DigestsRejected resp_id) \<Rightarrow> AuditFailed
      | _ \<Rightarrow> AuditFailed)"

definition prune_audit_response_clears_bootstrap_claim :: "prune_audit_status \<Rightarrow> bool" where
  "prune_audit_response_clears_bootstrap_claim status \<longleftrightarrow> status = Proven \<or> status = AuditFailed"

definition prune_challenge :: "prune_env \<Rightarrow> peer_id \<Rightarrow> xor_name \<Rightarrow> key_audit_challenge" where
  "prune_challenge env peer key =
     \<lparr>kc_challenge_id = pe_challenge_id env peer key, kc_nonce = pe_nonce env peer key,
      kc_challenged_peer_id = peer, kc_keys = [key]\<rparr>"

record prune_audits =
  pa_present :: "xor_name \<rightharpoonup> peer_id set"
  pa_sync :: neighbor_sync_state
  pa_audit_failures :: "peer_id set"
  pa_bootstrap_abuse :: "peer_id set"
  pa_events :: "trust_event list"

definition peer_is_currently_responsible :: "prune_env \<Rightarrow> peer_id \<Rightarrow> xor_name \<Rightarrow> bool" where
  "peer_is_currently_responsible env peer key \<longleftrightarrow>
     peer \<in> set (pe_closest_audit env key (close_group_size (pe_config env)))"

definition report_prune_audit_failure_once :: "prune_env \<Rightarrow> peer_id \<Rightarrow> xor_name \<Rightarrow> prune_audits \<Rightarrow> prune_audits" where
  "report_prune_audit_failure_once env peer key pa =
     (if peer_is_currently_responsible env peer key \<and> peer \<notin> pa_audit_failures pa
      then pa\<lparr>pa_audit_failures := insert peer (pa_audit_failures pa),
              pa_events := pa_events pa @ [AuditFailureEvent peer]\<rparr>
      else pa)"

definition report_prune_bootstrap_claim :: "prune_env \<Rightarrow> peer_id \<Rightarrow> xor_name \<Rightarrow> prune_audits \<Rightarrow> prune_audits" where
  "report_prune_bootstrap_claim env peer key pa =
     (if \<not> peer_is_currently_responsible env peer key then pa
      else let (observation, sync) = observe_bootstrap_claim peer (pe_claim_now env peer key)
                 (bootstrap_claim_grace_period (pe_config env)) (pa_sync pa);
               pa1 = pa\<lparr>pa_sync := sync\<rparr>;
               report = (if peer \<in> pa_bootstrap_abuse pa1 then pa1
                 else pa1\<lparr>pa_bootstrap_abuse := insert peer (pa_bootstrap_abuse pa1),
                         pa_events := pa_events pa1 @ [ReplicationFailureEvent peer]\<rparr>)
           in case observation of WithinGrace _ \<Rightarrow> pa1 | PastGrace _ \<Rightarrow> report | Repeated _ \<Rightarrow> report)"

definition clear_prune_bootstrap_claim :: "peer_id \<Rightarrow> prune_audits \<Rightarrow> prune_audits" where
  "clear_prune_bootstrap_claim peer pa = pa\<lparr>pa_sync := snd (clear_active_bootstrap_claim peer (pa_sync pa))\<rparr>"

definition add_present :: "peer_id \<Rightarrow> xor_name \<Rightarrow> prune_audits \<Rightarrow> prune_audits" where
  "add_present peer key pa =
     pa\<lparr>pa_present := (pa_present pa)(key \<mapsto> insert peer (unwrap_or (pa_present pa key) {}))\<rparr>"

definition peer_proves_record :: "prune_env \<Rightarrow> peer_id \<times> xor_name \<Rightarrow> prune_audits \<Rightarrow> prune_audits" where
  "peer_proves_record env = (\<lambda>(peer, key) pa.
     case local_record_bytes env key of
       None \<Rightarrow> pa
     | Some local_bytes \<Rightarrow>
         (case pe_send env peer (prune_challenge env peer key) of
            EncodeFailed \<Rightarrow> pa
          | SendFailed \<Rightarrow> report_prune_audit_failure_once env peer key pa
          | Undecodable \<Rightarrow> report_prune_audit_failure_once env peer key pa
          | Received body \<Rightarrow>
              let status = prune_audit_response_status (pe_b3 env) body (pe_challenge_id env peer key) peer key
                    (pe_nonce env peer key) local_bytes;
                  pa1 = (if prune_audit_response_clears_bootstrap_claim status
                         then clear_prune_bootstrap_claim peer pa else pa)
              in case status of
                   Proven \<Rightarrow> add_present peer key pa1
                 | PeerBootstrapping \<Rightarrow> report_prune_bootstrap_claim env peer key pa1
                 | AuditFailed \<Rightarrow> report_prune_audit_failure_once env peer key pa1))"

definition build_peer_audit_challenges :: "record_prune_candidate list \<Rightarrow> (peer_id \<times> xor_name) list" where
  "build_peer_audit_challenges candidates =
     concat (map (\<lambda>c. map (\<lambda>peer. (peer, rc_key c)) (rc_target_peers c)) candidates)"

text \<open>The challenges run concurrently; \<open>pe_completion\<close> is the order in which they complete.\<close>

definition collect_record_prune_proofs ::
  "prune_env \<Rightarrow> record_prune_candidate list \<Rightarrow> neighbor_sync_state \<Rightarrow> prune_audits" where
  "collect_record_prune_proofs env candidates sync =
     fold (peer_proves_record env) (pe_completion env (build_peer_audit_challenges candidates))
       \<lparr>pa_present = Map.empty, pa_sync = sync, pa_audit_failures = {}, pa_bootstrap_abuse = {}, pa_events = []\<rparr>"

section \<open>The second look and the deletion\<close>

definition target_peers_reported_present ::
  "xor_name \<Rightarrow> peer_id list \<Rightarrow> (xor_name \<rightharpoonup> peer_id set) \<Rightarrow> nat \<Rightarrow> bool" where
  "target_peers_reported_present key target_peers present_by_key proofs_needed =
     (if proofs_needed = 0 then False
      else case present_by_key key of
        None \<Rightarrow> False
      | Some present_peers \<Rightarrow> card {p \<in> present_peers. p \<in> set target_peers} \<ge> proofs_needed)"

definition revalidate_record ::
  "prune_env \<Rightarrow> (xor_name \<rightharpoonup> peer_id set) \<Rightarrow> record_prune_candidate \<Rightarrow> xor_name list \<times> nat \<times> paid_list \<Rightarrow>
     xor_name list \<times> nat \<times> paid_list" where
  "revalidate_record env present_by_key candidate = (\<lambda>(keys_to_delete, cleared, pl).
     let key = rc_key candidate
     in if held_by (pe_commitment_later env) key then (keys_to_delete, cleared, pl)
        else let (storage_admission_group, strict_close_group) =
               record_prune_lookup_groups (pe_closest_later env) (pe_config env) key
        in if pe_self env \<in> set storage_admission_group
           then (if record_out_of_range_since key pl \<noteq> None
                 then (keys_to_delete, cleared + 1, clear_record_out_of_range key pl)
                 else (keys_to_delete, cleared, pl))
           else case record_out_of_range_since key pl of
             None \<Rightarrow> (keys_to_delete, cleared, pl)
           | Some first_seen \<Rightarrow>
               if pe_now_later env - first_seen < prune_hysteresis_duration (pe_config env)
               then (keys_to_delete, cleared, pl)
               else
                 let current_target_peers = remote_close_group_peers strict_close_group (pe_self env)
                 in if current_target_peers = [] then (keys_to_delete, cleared, pl)
                    else if target_peers_reported_present key current_target_peers present_by_key
                              (prune_proofs_needed (length current_target_peers))
                    then (keys_to_delete @ [key], cleared, pl)
                    else (keys_to_delete, cleared, pl))"

definition revalidated_record_prune_keys ::
  "prune_env \<Rightarrow> record_prune_candidate list \<Rightarrow> (xor_name \<rightharpoonup> peer_id set) \<Rightarrow> paid_list \<Rightarrow>
     xor_name list \<times> nat \<times> paid_list" where
  "revalidated_record_prune_keys env candidates present_by_key pl =
     fold (revalidate_record env present_by_key) candidates ([], 0, pl)"

definition delete_record :: "prune_env \<Rightarrow> xor_name \<Rightarrow> nat \<times> prune_state \<Rightarrow> nat \<times> prune_state" where
  "delete_record env key = (\<lambda>(pruned, st).
     if \<not> pe_delete_ok env key then (pruned, st)
     else (pruned + 1,
       st\<lparr>pr_store := filter (\<lambda>k. k \<noteq> key) (pr_store st),
          pr_paid_list := set_paid_out_of_range (pe_delete_now env key) key
            (clear_record_out_of_range key (pr_paid_list st)),
          pr_proofs := proofs_remove_key key (pr_proofs st)\<rparr>))"

definition delete_stored_records :: "prune_env \<Rightarrow> xor_name list \<Rightarrow> prune_state \<Rightarrow> nat \<times> prune_state" where
  "delete_stored_records env keys_to_delete st = fold (delete_record env) keys_to_delete (0, st)"

record record_prune_stats =
  rs_marked :: nat
  rs_cleared :: nat
  rs_pruned :: nat
  rs_held_by_commitment :: nat

definition prune_stored_records ::
  "prune_env \<Rightarrow> prune_state \<Rightarrow> record_prune_stats \<times> trust_event list \<times> prune_state" where
  "prune_stored_records env st =
     (if \<not> pe_read_ok env
      then (\<lparr>rs_marked = 0, rs_cleared = 0, rs_pruned = 0, rs_held_by_commitment = 0\<rparr>, [], st)
      else
        let n = length (pr_store st);
            sn = scan_records env st;
            sync1 = advance_prune_cursor n (prune_scan_start n (pr_sync st)) (sn_last sn) (pr_sync st);
            pa = collect_record_prune_proofs env (sn_candidates sn) sync1;
            (keys_to_delete, revalidated_cleared, pl) =
              revalidated_record_prune_keys env (sn_candidates sn) (pa_present pa) (sn_pl sn);
            (pruned, st') = delete_stored_records env keys_to_delete
              (st\<lparr>pr_paid_list := pl, pr_sync := pa_sync pa, pr_proofs := sn_proofs sn\<rparr>)
        in (\<lparr>rs_marked = sn_marked sn, rs_cleared = sn_cleared sn + revalidated_cleared, rs_pruned = pruned,
             rs_held_by_commitment = sn_held sn\<rparr>, pa_events pa, st'))"

section \<open>What the scan selects\<close>

lemma mature_peers:
  assumes "peers_with_mature_repair_proofs key ps C e now rp = (qs, rp')" "proofs_inv rp"
  shows "proofs_inv rp' \<and> (\<forall>k p pr. proof_of rp' k p = Some pr \<longrightarrow> proof_of rp k p = Some pr) \<and>
    (\<forall>p\<in>set qs. p \<in> set ps \<and> (\<exists>pr. proof_of rp key p = Some pr \<and> hinted_at_epoch pr < e \<and>
       REPAIR_HINT_MIN_AGE \<le> now - hinted_at pr))"
  using assms
proof (induction ps arbitrary: rp qs rp')
  case (Cons p ps)
  obtain m rp1 where m: "has_mature_replica_hint p key C e now rp = (m, rp1)"
    by (cases "has_mature_replica_hint p key C e now rp")
  obtain qs2 rp2 where r: "peers_with_mature_repair_proofs key ps C e now rp1 = (qs2, rp2)"
    by (cases "peers_with_mature_repair_proofs key ps C e now rp1")
  have inv1: "proofs_inv rp1" using has_mature_inv [OF Cons.prems(2), of p key C e now] m by simp
  have shrink: "proof_of rp1 k q = Some pr \<Longrightarrow> proof_of rp k q = Some pr" for k q pr
    using has_mature_shrinks [OF Cons.prems(2), of p key C e now k q pr] m by simp
  have "m \<Longrightarrow> \<exists>pr. proof_of rp key p = Some pr \<and> hinted_at_epoch pr < e \<and> REPAIR_HINT_MIN_AGE \<le> now - hinted_at pr"
    using mature_hintD [of p key C e now rp] m Cons.prems(2) by simp
  with Cons.IH [OF r inv1] Cons.prems(1) shrink show ?case by (fastforce simp: m r split: if_splits)
qed simp

definition hinted_long_ago :: "prune_env \<Rightarrow> repair_proofs \<Rightarrow> xor_name \<Rightarrow> peer_id \<Rightarrow> bool" where
  "hinted_long_ago env rp k p \<longleftrightarrow> (\<exists>pr. proof_of rp k p = Some pr \<and> hinted_at_epoch pr < pe_current_sync_epoch env \<and>
     REPAIR_HINT_MIN_AGE \<le> pe_now env - hinted_at pr)"

definition out_long_enough :: "prune_env \<Rightarrow> paid_list \<Rightarrow> xor_name \<Rightarrow> bool" where
  "out_long_enough env pl k \<longleftrightarrow> (\<exists>t. record_out_of_range_since k pl = Some t \<and>
     prune_hysteresis_duration (pe_config env) \<le> pe_now env - t)"

definition selected :: "prune_env \<Rightarrow> repair_proofs \<Rightarrow> record_prune_candidate \<Rightarrow> bool" where
  "selected env rp c \<longleftrightarrow>
     pe_self env \<notin> set (pe_closest env (rc_key c) (storage_admission_width (close_group_size (pe_config env)))) \<and>
     \<not> held_by (pe_commitment env) (rc_key c) \<and> pe_allow_remote_prune_audits env \<and>
     (\<forall>p\<in>set (rc_target_peers c). p \<noteq> pe_self env \<and>
        p \<in> set (pe_closest env (rc_key c) (close_group_size (pe_config env))) \<and> hinted_long_ago env rp (rc_key c) p)"

text \<open>The clock of a key after some steps of the scan: as before, stopped, or started in this scan.\<close>

definition clocks_ok :: "prune_env \<Rightarrow> paid_list \<Rightarrow> paid_list \<Rightarrow> bool" where
  "clocks_ok env pl0 pl \<longleftrightarrow>
     (\<forall>k. record_out_of_range_since k pl \<in> {record_out_of_range_since k pl0, None, Some (pe_mark_now env k)})"

lemma set_remote [simp]: "set (remote_close_group_peers G self_id) = set G - {self_id}"
  by (auto simp: remote_close_group_peers_def)

lemma evaluate_cases:
  assumes "evaluate_record_prune_key env key budget pl rp = (marked, state, budget', pl', rp')" "proofs_inv rp"
  shows "proofs_inv rp' \<and> (\<forall>k p pr. proof_of rp' k p = Some pr \<longrightarrow> proof_of rp k p = Some pr) \<and>
    (\<forall>k. record_out_of_range_since k pl' \<in> {record_out_of_range_since k pl, None, Some (pe_mark_now env k)}) \<and>
    (case state of
       KeyCandidate c \<Rightarrow> rc_key c = key \<and> selected env rp c \<and> budget' + length (rc_target_peers c) = budget \<and>
         (\<exists>t. record_out_of_range_since key pl' = Some t \<and> prune_hysteresis_duration (pe_config env) \<le> pe_now env - t)
     | _ \<Rightarrow> budget' = budget)"
proof -
  let ?strict = "pe_closest env key (close_group_size (pe_config env))"
  obtain qs rp1 where m: "peers_with_mature_repair_proofs key (remote_close_group_peers ?strict (pe_self env))
      (set ?strict) (pe_current_sync_epoch env) (pe_now env) rp = (qs, rp1)"
    by (cases "peers_with_mature_repair_proofs key (remote_close_group_peers ?strict (pe_self env))
      (set ?strict) (pe_current_sync_epoch env) (pe_now env) rp")
  show ?thesis
    using assms mature_peers [OF m assms(2)]
    by (auto simp: evaluate_record_prune_key_def record_prune_lookup_groups_def Let_def m selected_def
        hinted_long_ago_def clock_defs or_insert_at_apply
        split: if_splits option.splits)
qed

definition scan_ok :: "prune_env \<Rightarrow> prune_state \<Rightarrow> scan \<Rightarrow> bool" where
  "scan_ok env st sn \<longleftrightarrow> proofs_inv (sn_proofs sn) \<and>
     (\<forall>k p pr. proof_of (sn_proofs sn) k p = Some pr \<longrightarrow> proof_of (pr_proofs st) k p = Some pr) \<and>
     clocks_ok env (pr_paid_list st) (sn_pl sn) \<and>
     (\<forall>c\<in>set (sn_candidates sn). rc_key c \<in> set (pr_store st) \<and> selected env (pr_proofs st) c \<and>
        out_long_enough env (pr_paid_list st) (rc_key c)) \<and>
     sn_budget sn + length (build_peer_audit_challenges (sn_candidates sn)) = MAX_PRUNE_AUDIT_CHALLENGES_PER_PASS"

lemma selected_mono:
  "selected env rp1 c \<Longrightarrow> (\<And>k p pr. proof_of rp1 k p = Some pr \<Longrightarrow> proof_of rp k p = Some pr) \<Longrightarrow> selected env rp c"
  by (auto simp: selected_def hinted_long_ago_def)

lemma challenges_snoc:
  "length (build_peer_audit_challenges (cs @ [c])) = length (build_peer_audit_challenges cs) + length (rc_target_peers c)"
  by (simp add: build_peer_audit_challenges_def)

lemma scan_record_ok:
  assumes ok: "scan_ok env st sn" and k: "key \<in> set (pr_store st)"
    and clock: "0 < prune_hysteresis_duration (pe_config env)" "\<forall>k. pe_now env \<le> pe_mark_now env k"
  shows "scan_ok env st (scan_record env (off, key) sn)"
proof -
  obtain marked state budget' pl' rp' where
    ev: "evaluate_record_prune_key env key (sn_budget sn) (sn_pl sn) (sn_proofs sn) = (marked, state, budget', pl', rp')"
    by (metis prod_cases5)
  have inv: "proofs_inv (sn_proofs sn)" using ok by (simp add: scan_ok_def)
  note e = evaluate_cases [OF ev inv]
  have clocks: "clocks_ok env (pr_paid_list st) pl'"
    using e ok by (auto simp: scan_ok_def clocks_ok_def) metis+
  have out: "out_long_enough env (pr_paid_list st) key"
    if "record_out_of_range_since key pl' = Some t" "prune_hysteresis_duration (pe_config env) \<le> pe_now env - t" for t
  proof -
    have "t \<noteq> pe_mark_now env key" using that(2) clock by (metis diff_is_0_eq not_less)
    then have "record_out_of_range_since key (pr_paid_list st) = Some t"
      using clocks that(1) by (auto simp: clocks_ok_def dest!: spec [of _ key])
    with that(2) show ?thesis by (auto simp: out_long_enough_def)
  qed
  have sel: "selected env (pr_proofs st) c" if "selected env (sn_proofs sn) c" for c
    using selected_mono [OF that] ok by (auto simp: scan_ok_def)
  from ok e clocks out sel k show ?thesis
    by (cases state) (auto simp: scan_ok_def scan_record_def ev Let_def challenges_snoc)
qed

lemma scan_records_ok:
  assumes "proofs_inv (pr_proofs st)" "0 < prune_hysteresis_duration (pe_config env)" "\<forall>k. pe_now env \<le> pe_mark_now env k"
  shows "scan_ok env st (scan_records env st)"
proof -
  have step: "scan_ok env st (fold (scan_record env) xs sn)" if "scan_ok env st sn" "snd ` set xs \<subseteq> set (pr_store st)" for xs sn
    using that scan_record_ok [OF _ _ assms(2,3)] by (induction xs arbitrary: sn) auto
  have "snd ` set (scan_order i (pr_store st)) \<subseteq> set (pr_store st)" for i
    by (auto simp: scan_order_def) (metis length_pos_if_in_set mod_less_divisor nth_mem neq0_conv list.size(3) not_less_zero)
  then show ?thesis
    unfolding scan_records_def
    by (intro step) (auto simp: scan_ok_def clocks_ok_def assms(1) build_peer_audit_challenges_def)
qed

section \<open>What an audit proves\<close>

definition proved :: "prune_env \<Rightarrow> peer_id \<Rightarrow> xor_name \<Rightarrow> bool" where
  "proved env p k \<longleftrightarrow> (\<exists>bs d. pe_get_raw env k = Inr (Some bs) \<and>
     pe_send env p (prune_challenge env p k) =
       Received (BodyKeyAuditResponse (Digests (pe_challenge_id env p k) [d])) \<and>
     d \<noteq> ABSENT_KEY_DIGEST \<and> d = compute_audit_digest (pe_b3 env) (pe_nonce env p k) p k bs)"

lemma status_Proven:
  "prune_audit_response_status b3 body cid p k nonce bs = Proven \<longleftrightarrow>
     (\<exists>d. body = BodyKeyAuditResponse (Digests cid [d]) \<and> d \<noteq> ABSENT_KEY_DIGEST \<and>
        d = compute_audit_digest b3 nonce p k bs)"
  by (auto simp: prune_audit_response_status_def audit_digest_proves_key_def
      split: reply_body.splits key_audit_response.splits list.splits if_splits)

lemma local_record_bytes_Some: "local_record_bytes env k = Some bs \<longleftrightarrow> pe_get_raw env k = Inr (Some bs)"
  by (auto simp: local_record_bytes_def split: sum.splits option.splits)

lemma report_present [simp]:
  "pa_present (report_prune_audit_failure_once env p k pa) = pa_present pa"
  "pa_present (report_prune_bootstrap_claim env p k pa) = pa_present pa"
  "pa_present (clear_prune_bootstrap_claim p pa) = pa_present pa"
  by (auto simp: report_prune_audit_failure_once_def report_prune_bootstrap_claim_def clear_prune_bootstrap_claim_def
      Let_def split: bootstrap_claim_observation.splits prod.splits)

text \<open>At most one event of each kind for a peer.\<close>

definition reports_once :: "prune_audits \<Rightarrow> bool" where
  "reports_once pa \<longleftrightarrow> distinct (pa_events pa) \<and>
     pa_audit_failures pa = {p. AuditFailureEvent p \<in> set (pa_events pa)} \<and>
     pa_bootstrap_abuse pa = {p. ReplicationFailureEvent p \<in> set (pa_events pa)}"

lemma reports_once_ops:
  assumes "reports_once pa"
  shows "reports_once (report_prune_audit_failure_once env p k pa)" "reports_once (report_prune_bootstrap_claim env p k pa)"
    "reports_once (clear_prune_bootstrap_claim p pa)" "reports_once (add_present p k pa)"
  using assms by (auto simp: reports_once_def report_prune_audit_failure_once_def report_prune_bootstrap_claim_def
      clear_prune_bootstrap_claim_def add_present_def Let_def split: bootstrap_claim_observation.splits prod.splits)

definition audits_ok :: "prune_env \<Rightarrow> (peer_id \<times> xor_name) set \<Rightarrow> prune_audits \<Rightarrow> bool" where
  "audits_ok env A pa \<longleftrightarrow> reports_once pa \<and>
     (\<forall>k P. pa_present pa k = Some P \<longrightarrow> (\<forall>p\<in>P. (p, k) \<in> A \<and> proved env p k))"

lemma peer_proves_ok:
  assumes "audits_ok env A pa" "x \<in> A" shows "audits_ok env A (peer_proves_record env x pa)"
proof -
  obtain p k where x: "x = (p, k)" by (cases x)
  let ?send = "pe_send env p (prune_challenge env p k)"
  show ?thesis
  proof (cases "\<exists>bs. local_record_bytes env k = Some bs \<and> (\<exists>body. ?send = Received body \<and>
      prune_audit_response_status (pe_b3 env) body (pe_challenge_id env p k) p k (pe_nonce env p k) bs = Proven)")
    case True
    then obtain bs body where b: "local_record_bytes env k = Some bs" "?send = Received body"
      "prune_audit_response_status (pe_b3 env) body (pe_challenge_id env p k) p k (pe_nonce env p k) bs = Proven" by blast
    then have "proved env p k" by (auto simp: proved_def local_record_bytes_Some status_Proven)
    moreover have "peer_proves_record env x pa = add_present p k (clear_prune_bootstrap_claim p pa)"
      by (simp add: x peer_proves_record_def b prune_audit_response_clears_bootstrap_claim_def)
    ultimately show ?thesis
      using assms x by (auto simp: audits_ok_def reports_once_ops add_present_def unwrap_or_def split: option.splits if_splits)
         (simp_all add: reports_once_def clear_prune_bootstrap_claim_def)
  next
    case False
    then have "reports_once (peer_proves_record env x pa) \<and> pa_present (peer_proves_record env x pa) = pa_present pa"
      using assms(1) by (auto simp: x peer_proves_record_def audits_ok_def Let_def reports_once_ops
          split: option.splits wire.splits prune_audit_status.splits)
    with assms(1) show ?thesis by (simp add: audits_ok_def)
  qed
qed

lemma collect_proofs_ok:
  assumes "set (pe_completion env (build_peer_audit_challenges cs)) = set (build_peer_audit_challenges cs)"
  shows "audits_ok env (set (build_peer_audit_challenges cs)) (collect_record_prune_proofs env cs sync)"
proof -
  have step: "audits_ok env A (fold (peer_proves_record env) xs pa)" if "audits_ok env A pa" "set xs \<subseteq> A" for A xs pa
    using that peer_proves_ok by (induction xs arbitrary: pa) auto
  show ?thesis
    unfolding collect_record_prune_proofs_def
    by (rule step) (simp_all add: audits_ok_def reports_once_def assms)
qed

section \<open>What is deleted\<close>

definition still_prunable :: "prune_env \<Rightarrow> (xor_name \<rightharpoonup> peer_id set) \<Rightarrow> xor_name \<Rightarrow> bool" where
  "still_prunable env present k \<longleftrightarrow>
     \<not> held_by (pe_commitment_later env) k \<and>
     pe_self env \<notin> set (pe_closest_later env k (storage_admission_width (close_group_size (pe_config env)))) \<and>
     (let G = remote_close_group_peers (pe_closest_later env k (close_group_size (pe_config env))) (pe_self env)
      in target_peers_reported_present k G present (prune_proofs_needed (length G)))"

lemma revalidated_keys:
  assumes "revalidated_record_prune_keys env cs present pl = (ks, n, pl')"
  shows "\<forall>k\<in>set ks. k \<in> rc_key ` set cs \<and> still_prunable env present k"
proof -
  have "\<forall>k\<in>set (fst (fold (revalidate_record env present) cs s)). k \<in> set (fst s) \<or> k \<in> rc_key ` set cs \<and> still_prunable env present k"
    for s
  proof (induction cs arbitrary: s)
    case (Cons c cs)
    have "set (fst (revalidate_record env present c s)) \<subseteq> set (fst s) \<union> {k. k = rc_key c \<and> still_prunable env present k}"
      by (cases s) (auto simp: revalidate_record_def record_prune_lookup_groups_def Let_def still_prunable_def
          split: option.splits if_splits)
    with Cons [of "revalidate_record env present c s"] show ?case by (auto simp: image_iff)
  qed simp
  from this [of "([], 0, pl)"] assms show ?thesis by (simp add: revalidated_record_prune_keys_def)
qed

lemma delete_records_store:
  "pr_store (snd (fold (delete_record env) ks s)) =
     filter (\<lambda>k. k \<notin> {k \<in> set ks. pe_delete_ok env k}) (pr_store (snd s))"
  by (induction ks arbitrary: s) (auto simp: delete_record_def split_beta intro!: filter_cong)

section \<open>Properties\<close>


definition example_prune_env :: prune_env where
  "example_prune_env =
     \<lparr>pe_self = 9, pe_config = default_config 7, pe_closest = \<lambda>_ _. [2, 3], pe_closest_audit = \<lambda>_ _. [2, 3],
      pe_closest_later = \<lambda>_ _. [3, 2], pe_allow_remote_prune_audits = True, pe_current_sync_epoch = 4,
      pe_now = from_secs (4 * 24 * 60 * 60), pe_mark_now = \<lambda>_. from_secs (4 * 24 * 60 * 60),
      pe_now_later = from_secs (4 * 24 * 60 * 60), pe_commitment = None, pe_commitment_later = None, pe_read_ok = True,
      pe_get_raw = \<lambda>_. Inr (Some [7]), pe_delete_ok = \<lambda>_. True, pe_delete_now = \<lambda>_. from_secs (4 * 24 * 60 * 60),
      pe_b3 = \<lambda>_. 1, pe_challenge_id = \<lambda>_ _. 5, pe_nonce = \<lambda>_ _. 6,
      pe_send = \<lambda>p c. Received (BodyKeyAuditResponse (handle_audit_challenge (\<lambda>_. 1) (\<lambda>_. Inr (Some [7])) p False 1 c)),
      pe_claim_now = \<lambda>_ _. 0, pe_completion = rev\<rparr>"

definition example_prune_state :: prune_state where
  "example_prune_state = \<lparr>pr_store = [1],
     pr_paid_list = \<lparr>pl_keys = {}, pl_paid_out_of_range = Map.empty, pl_record_out_of_range = [1 \<mapsto> 0],
       pl_paid_prune_cursor = 0\<rparr>,
     pr_sync = new_cycle [], pr_proofs = proof_run [HintSent 2 1 {2, 3} 0 0, HintSent 3 1 {2, 3} 0 0]\<rparr>"

lemma example_scan:
  "sn_candidates (scan_records example_prune_env example_prune_state) = [\<lparr>rc_key = 1, rc_target_peers = [2, 3]\<rparr>] \<and>
   sn_pl (scan_records example_prune_env example_prune_state) = pr_paid_list example_prune_state"
  by (simp add: scan_records_def scan_order_def prune_scan_start_def example_prune_state_def example_prune_env_def
      scan_record_def evaluate_record_prune_key_def record_prune_lookup_groups_def held_by_def clock_defs
      or_insert_at_def default_config_def from_secs_def remote_close_group_peers_def has_mature_replica_hint_def
      reconcile_key_close_group_def proof_run_def repair_proofs_new_def record_replica_hint_sent_def
      insert_replica_hint_sent_def entry_new_def REPAIR_HINT_MIN_AGE_def prune_proofs_needed_def
      MAX_PRUNE_AUDIT_CHALLENGES_PER_PASS_def is_some_and_def)

lemma example_present:
  "pa_present (collect_record_prune_proofs example_prune_env [\<lparr>rc_key = 1, rc_target_peers = [2, 3]\<rparr>] sync) 1 = Some {2, 3}"
  by (simp add: collect_record_prune_proofs_def build_peer_audit_challenges_def example_prune_env_def peer_proves_record_def
      local_record_bytes_def prune_challenge_def handle_audit_challenge_def max_incoming_audit_keys_def
      audit_sample_count_def isqrt_def prune_audit_response_status_def ABSENT_KEY_DIGEST_def
      audit_digest_proves_key_def compute_audit_digest_def prune_audit_response_clears_bootstrap_claim_def
      clear_prune_bootstrap_claim_def add_present_def)

lemma example_deleted: "pr_store (snd (snd (prune_stored_records example_prune_env example_prune_state))) = []"
proof -
  have "fst (revalidated_record_prune_keys example_prune_env [\<lparr>rc_key = 1, rc_target_peers = [2, 3]\<rparr>] present
      (pr_paid_list example_prune_state)) = [1]" if "present 1 = Some {2, 3}" for present
  proof -
    have "{p \<in> {2, 3 :: peer_id}. p \<in> set [3, 2]} = {2, 3}" by auto
    with that show ?thesis
      by (simp add: revalidated_record_prune_keys_def revalidate_record_def record_prune_lookup_groups_def clock_defs
          example_prune_state_def target_peers_reported_present_def example_prune_env_def held_by_def default_config_def
          from_secs_def remote_close_group_peers_def prune_proofs_needed_def)
  qed
  then have "fst (revalidated_record_prune_keys example_prune_env [\<lparr>rc_key = 1, rc_target_peers = [2, 3]\<rparr>]
      (pa_present (collect_record_prune_proofs example_prune_env [\<lparr>rc_key = 1, rc_target_peers = [2, 3]\<rparr>] sync))
      (pr_paid_list example_prune_state)) = [1]" for sync using example_present by blast
  moreover have "pe_read_ok example_prune_env" "pe_delete_ok example_prune_env 1" "pr_store example_prune_state = [1]"
    by (simp_all add: example_prune_env_def example_prune_state_def)
  ultimately show ?thesis
    using example_scan by (simp add: prune_stored_records_def Let_def split_beta delete_stored_records_def delete_record_def)
qed

lemma example_hyps:
  "proofs_inv (pr_proofs example_prune_state)" "0 < prune_hysteresis_duration (pe_config example_prune_env)"
  "\<forall>k. pe_now example_prune_env \<le> pe_mark_now example_prune_env k"
  "\<forall>xs. set (pe_completion example_prune_env xs) = set xs"
  by (simp_all add: example_prune_state_def example_prune_env_def proof_run_inv default_config_def from_secs_def)


section \<open>Budget\<close>

lemma record_prune_budget:
  assumes "prune_stored_records env st = (stats, events, st')" and "proofs_inv (pr_proofs st)"
    and "0 < prune_hysteresis_duration (pe_config env)" and "\<forall>k. pe_now env \<le> pe_mark_now env k"
    and "\<forall>xs. set (pe_completion env xs) = set xs"
  shows "length (build_peer_audit_challenges (sn_candidates (scan_records env st))) \<le> 64 \<and> distinct events"
proof -
  have "length (build_peer_audit_challenges (sn_candidates (scan_records env st))) \<le> MAX_PRUNE_AUDIT_CHALLENGES_PER_PASS"
    using scan_records_ok [OF assms(2-4)] by (simp add: scan_ok_def)
  moreover have "distinct events"
    using assms(1) collect_proofs_ok [of env "sn_candidates (scan_records env st)"] assms(5)
    by (auto simp: prune_stored_records_def Let_def split_beta audits_ok_def reports_once_def split: if_splits)
  ultimately show ?thesis by (simp add: MAX_PRUNE_AUDIT_CHALLENGES_PER_PASS_def)
qed

end
