(* ===== verification/Paid_Pruning.thy ===== *)
theory Paid_Pruning
  imports Record_Pruning Quorum
begin

text \<open>
  Pruning of paid-list entries and the whole prune pass (src/src/replication/pruning.rs). An entry
  that has been out of range long enough is put to the current paid close group; it is removed when,
  after the answers, enough of the group as it then is confirmed that they track the key. The round
  of requests is the list of its replies.
\<close>

section \<open>Selection\<close>

definition MAX_PAID_PRUNE_VERIFICATIONS_PER_PASS :: nat where "MAX_PAID_PRUNE_VERIFICATIONS_PER_PASS = 32"

definition MAX_PAID_PRUNE_VERIFICATION_PEERS_PER_PASS :: nat where
  "MAX_PAID_PRUNE_VERIFICATION_PEERS_PER_PASS = 32"

datatype paid_prune_key_state =
    PaidNone
  | RemoteDeferred
  | EntryBudgetDeferred
  | PeerBudgetDeferred
  | PaidCandidate "peer_id list"

definition paid_prune_confirmations_needed :: "nat \<Rightarrow> nat" where
  "paid_prune_confirmations_needed group_size = (3 * group_size + 3) div 4"

definition reserve_paid_prune_peer_budget :: "peer_id list \<Rightarrow> peer_id set \<Rightarrow> bool \<times> peer_id set" where
  "reserve_paid_prune_peer_budget target_peers selected_peers =
     (let new_peer_count = length (filter (\<lambda>p. p \<notin> selected_peers) target_peers)
      in if card selected_peers + new_peer_count > MAX_PAID_PRUNE_VERIFICATION_PEERS_PER_PASS
         then (False, selected_peers) else (True, selected_peers \<union> set target_peers))"

definition select_paid_prune_candidate ::
  "peer_id list \<Rightarrow> peer_id \<Rightarrow> bool \<Rightarrow> nat \<Rightarrow> peer_id set \<Rightarrow> paid_prune_key_state \<times> peer_id set" where
  "select_paid_prune_candidate closest self_id allow selected_candidate_count selected_peers =
     (if \<not> allow then (RemoteDeferred, selected_peers)
      else
        let target_peers = remote_close_group_peers closest self_id
        in if target_peers = [] then (PaidNone, selected_peers)
           else if selected_candidate_count \<ge> MAX_PAID_PRUNE_VERIFICATIONS_PER_PASS
           then (EntryBudgetDeferred, selected_peers)
           else case reserve_paid_prune_peer_budget target_peers selected_peers of
             (False, peers) \<Rightarrow> (PeerBudgetDeferred, peers)
           | (True, peers) \<Rightarrow> (PaidCandidate target_peers, peers))"

record paid_prune_env =
  pp_self :: peer_id
  pp_config :: replication_config
  pp_closest :: "xor_name \<Rightarrow> nat \<Rightarrow> peer_id list"
  pp_closest_later :: "xor_name \<Rightarrow> nat \<Rightarrow> peer_id list"
  pp_allow :: bool
  pp_now :: instant
  pp_mark_now :: "xor_name \<Rightarrow> instant"
  pp_now_later :: instant
  pp_read_ok :: bool
  pp_write_ok :: bool
  pp_replies :: "(peer_id \<times> peer_reply) list"

record paid_scan =
  sc_marked :: nat
  sc_cleared :: nat
  sc_candidates :: "(xor_name \<times> peer_id list) list"
  sc_peers :: "peer_id set"
  sc_last :: "nat option"
  sc_pl :: paid_list

definition scan_paid_entry :: "paid_prune_env \<Rightarrow> nat \<times> xor_name \<Rightarrow> paid_scan \<Rightarrow> paid_scan" where
  "scan_paid_entry env = (\<lambda>(offset, key) sc.
     let closest = pp_closest env key (paid_list_close_group_size (pp_config env))
     in if pp_self env \<in> set closest
        then (if paid_out_of_range_since key (sc_pl sc) \<noteq> None
              then sc\<lparr>sc_pl := clear_paid_out_of_range key (sc_pl sc), sc_cleared := sc_cleared sc + 1\<rparr> else sc)
        else
          let sc1 = sc\<lparr>sc_marked := (if paid_out_of_range_since key (sc_pl sc) = None then sc_marked sc + 1
                          else sc_marked sc),
                sc_pl := set_paid_out_of_range (pp_mark_now env key) key (sc_pl sc)\<rparr>
          in case paid_out_of_range_since key (sc_pl sc1) of
               None \<Rightarrow> sc1
             | Some first_seen \<Rightarrow>
                 if pp_now env - first_seen \<ge> prune_hysteresis_duration (pp_config env)
                 then (case select_paid_prune_candidate closest (pp_self env) (pp_allow env)
                              (length (sc_candidates sc1)) (sc_peers sc1) of
                         (PaidCandidate target_peers, peers) \<Rightarrow>
                           sc1\<lparr>sc_candidates := sc_candidates sc1 @ [(key, target_peers)], sc_peers := peers,
                               sc_last := Some offset\<rparr>
                       | (_, peers) \<Rightarrow> sc1\<lparr>sc_peers := peers\<rparr>)
                 else sc1)"

definition scan_paid_entries :: "paid_prune_env \<Rightarrow> xor_name list \<Rightarrow> paid_list \<Rightarrow> paid_scan" where
  "scan_paid_entries env paid_keys pl =
     fold (scan_paid_entry env) (scan_order (paid_prune_scan_start (length paid_keys) pl) paid_keys)
       \<lparr>sc_marked = 0, sc_cleared = 0, sc_candidates = [], sc_peers = {}, sc_last = None, sc_pl = pl\<rparr>"

section \<open>Confirmation and removal\<close>

definition add_paid_prune_target :: "xor_name \<times> peer_id list \<Rightarrow> verification_targets \<Rightarrow> verification_targets" where
  "add_paid_prune_target = (\<lambda>(key, target_peers) t.
     if target_peers = [] then t
     else let t1 = fold (add_paid_peer key) target_peers t
          in t1\<lparr>paid_targets := (paid_targets t1)(key \<mapsto> target_peers),
                paid_group_sizes := (paid_group_sizes t1)(key \<mapsto> length target_peers)\<rparr>)"

definition add_confirmations ::
  "evidence_map \<Rightarrow> xor_name \<times> peer_id list \<Rightarrow> (xor_name \<rightharpoonup> peer_id set) \<Rightarrow> (xor_name \<rightharpoonup> peer_id set)" where
  "add_confirmations evidence = (\<lambda>(key, target_peers) confirmed_by_key.
     case evidence key of
       None \<Rightarrow> confirmed_by_key
     | Some key_evidence \<Rightarrow>
         let confirmed = Set.filter (\<lambda>p. paid_list_ev key_evidence p = Some Confirmed) (set target_peers)
         in if confirmed = {} then confirmed_by_key else confirmed_by_key(key \<mapsto> confirmed))"

definition paid_confirmations_by_key ::
  "(xor_name \<times> peer_id list) list \<Rightarrow> evidence_map \<Rightarrow> (xor_name \<rightharpoonup> peer_id set)" where
  "paid_confirmations_by_key expired_candidates evidence = fold (add_confirmations evidence) expired_candidates Map.empty"

definition collect_paid_prune_confirmations ::
  "paid_prune_env \<Rightarrow> (xor_name \<times> peer_id list) list \<Rightarrow> (xor_name \<rightharpoonup> peer_id set)" where
  "collect_paid_prune_confirmations env expired_candidates =
     (if expired_candidates = [] then Map.empty
      else
        let targets = dedup_keys (fold add_paid_prune_target expired_candidates targets_empty);
            ks = map fst (filter (\<lambda>(_, target_peers). target_peers \<noteq> []) expired_candidates)
        in paid_confirmations_by_key expired_candidates (run_verification_round ks targets (pp_replies env)))"

definition revalidate_paid_entry ::
  "paid_prune_env \<Rightarrow> (xor_name \<rightharpoonup> peer_id set) \<Rightarrow> xor_name \<times> peer_id list \<Rightarrow> xor_name list \<times> nat \<times> paid_list \<Rightarrow>
     xor_name list \<times> nat \<times> paid_list" where
  "revalidate_paid_entry env confirmed_by_key = (\<lambda>(key, _) (keys_to_delete, cleared, pl).
     let closest = pp_closest_later env key (paid_list_close_group_size (pp_config env))
     in if pp_self env \<in> set closest
        then (if paid_out_of_range_since key pl \<noteq> None
              then (keys_to_delete, cleared + 1, clear_paid_out_of_range key pl)
              else (keys_to_delete, cleared, pl))
        else case paid_out_of_range_since key pl of
          None \<Rightarrow> (keys_to_delete, cleared, pl)
        | Some first_seen \<Rightarrow>
            if pp_now_later env - first_seen < prune_hysteresis_duration (pp_config env)
            then (keys_to_delete, cleared, pl)
            else
              let current_target_peers = remote_close_group_peers closest (pp_self env)
              in if current_target_peers = [] then (keys_to_delete, cleared, pl)
                 else if target_peers_reported_present key current_target_peers confirmed_by_key
                           (paid_prune_confirmations_needed (length current_target_peers))
                 then (keys_to_delete @ [key], cleared, pl)
                 else (keys_to_delete, cleared, pl))"

definition revalidated_paid_prune_keys ::
  "paid_prune_env \<Rightarrow> (xor_name \<times> peer_id list) list \<Rightarrow> (xor_name \<rightharpoonup> peer_id set) \<Rightarrow> paid_list \<Rightarrow>
     xor_name list \<times> nat \<times> paid_list" where
  "revalidated_paid_prune_keys env expired_candidates confirmed_by_key pl =
     fold (revalidate_paid_entry env confirmed_by_key) expired_candidates ([], 0, pl)"

definition delete_paid_entries :: "bool \<Rightarrow> xor_name list \<Rightarrow> paid_list \<Rightarrow> nat \<times> paid_list" where
  "delete_paid_entries write_ok keys_to_delete pl =
     (if keys_to_delete = [] then (0, pl)
      else case pl_remove_batch write_ok keys_to_delete pl of
        (None, pl') \<Rightarrow> (0, pl')
      | (Some n, pl') \<Rightarrow> (n, pl'))"

record paid_prune_stats =
  ps_marked :: nat
  ps_cleared :: nat
  ps_pruned :: nat

definition prune_paid_entries :: "paid_prune_env \<Rightarrow> paid_list \<Rightarrow> paid_prune_stats \<times> paid_list" where
  "prune_paid_entries env pl =
     (case pl_all_keys (pp_read_ok env) pl of
        None \<Rightarrow> (\<lparr>ps_marked = 0, ps_cleared = 0, ps_pruned = 0\<rparr>, pl)
      | Some paid_keys \<Rightarrow>
          let n = length paid_keys;
              sc = scan_paid_entries env paid_keys pl;
              pl1 = advance_paid_prune_cursor n (paid_prune_scan_start n pl) (sc_last sc) (sc_pl sc);
              confirmed_by_key = collect_paid_prune_confirmations env (sc_candidates sc);
              (keys_to_delete, revalidated_cleared, pl2) =
                revalidated_paid_prune_keys env (sc_candidates sc) confirmed_by_key pl1;
              (pruned, pl3) = delete_paid_entries (pp_write_ok env) keys_to_delete pl2
          in (\<lparr>ps_marked = sc_marked sc, ps_cleared = sc_cleared sc + revalidated_cleared, ps_pruned = pruned\<rparr>, pl3))"

section \<open>The whole pass\<close>

record prune_result =
  records_pruned :: nat
  records_marked_out_of_range :: nat
  records_cleared :: nat
  paid_entries_pruned :: nat
  paid_entries_marked :: nat
  paid_entries_cleared :: nat

definition run_prune_pass_with_context ::
  "prune_env \<Rightarrow> paid_prune_env \<Rightarrow> prune_state \<Rightarrow> prune_result \<times> trust_event list \<times> prune_state" where
  "run_prune_pass_with_context env penv st =
     (let (rs, events, st1) = prune_stored_records env st;
          (ps, pl) = prune_paid_entries penv (pr_paid_list st1)
      in (\<lparr>records_pruned = rs_pruned rs, records_marked_out_of_range = rs_marked rs,
           records_cleared = rs_cleared rs, paid_entries_pruned = ps_pruned ps,
           paid_entries_marked = ps_marked ps, paid_entries_cleared = ps_cleared ps\<rparr>,
          events, st1\<lparr>pr_paid_list := pl\<rparr>))"

text \<open>The wrapper for callers without repair proofs and commitments.\<close>

definition run_prune_pass :: "prune_env \<Rightarrow> paid_prune_env \<Rightarrow> prune_state \<Rightarrow> prune_result \<times> trust_event list \<times> prune_state" where
  "run_prune_pass env penv st =
     (let (r, events, st') = run_prune_pass_with_context
            (env\<lparr>pe_current_sync_epoch := 0, pe_commitment := None, pe_commitment_later := None\<rparr>) penv
            (st\<lparr>pr_proofs := repair_proofs_new\<rparr>)
      in (r, events, st'\<lparr>pr_proofs := pr_proofs st\<rparr>))"

section \<open>What the scan selects\<close>

definition paid_out_long_enough :: "paid_prune_env \<Rightarrow> paid_list \<Rightarrow> xor_name \<Rightarrow> bool" where
  "paid_out_long_enough env pl k \<longleftrightarrow> (\<exists>t. paid_out_of_range_since k pl = Some t \<and>
     prune_hysteresis_duration (pp_config env) \<le> pp_now env - t)"

definition paid_clocks_ok :: "paid_prune_env \<Rightarrow> paid_list \<Rightarrow> paid_list \<Rightarrow> bool" where
  "paid_clocks_ok env pl0 pl \<longleftrightarrow> pl_keys pl = pl_keys pl0 \<and>
     (\<forall>k. paid_out_of_range_since k pl \<in> {paid_out_of_range_since k pl0, None, Some (pp_mark_now env k)})"

definition paid_selected :: "paid_prune_env \<Rightarrow> paid_list \<Rightarrow> xor_name \<times> peer_id list \<Rightarrow> bool" where
  "paid_selected env pl = (\<lambda>(k, ps). pp_allow env \<and> paid_out_long_enough env pl k \<and>
     pp_self env \<notin> set (pp_closest env k (paid_list_close_group_size (pp_config env))) \<and>
     ps = remote_close_group_peers (pp_closest env k (paid_list_close_group_size (pp_config env))) (pp_self env))"

definition paid_scan_ok :: "paid_prune_env \<Rightarrow> paid_list \<Rightarrow> paid_scan \<Rightarrow> bool" where
  "paid_scan_ok env pl sc \<longleftrightarrow> paid_clocks_ok env pl (sc_pl sc) \<and> (\<forall>c\<in>set (sc_candidates sc). paid_selected env pl c) \<and>
     length (sc_candidates sc) \<le> 32 \<and> finite (sc_peers sc) \<and> card (sc_peers sc) \<le> 32 \<and>
     (\<Union>c\<in>set (sc_candidates sc). set (snd c)) \<subseteq> sc_peers sc"

lemma reserve_budget:
  assumes "reserve_paid_prune_peer_budget ps S = (b, S')" "finite S" "card S \<le> 32"
  shows "finite S' \<and> card S' \<le> 32 \<and> S \<subseteq> S' \<and> (b \<longrightarrow> set ps \<subseteq> S')"
proof -
  have "card (S \<union> set ps) \<le> card S + length (filter (\<lambda>p. p \<notin> S) ps)"
  proof -
    have "S \<union> set ps = S \<union> set (filter (\<lambda>p. p \<notin> S) ps)" by auto
    then have "card (S \<union> set ps) \<le> card S + card (set (filter (\<lambda>p. p \<notin> S) ps))" by (metis card_Un_le)
    also have "\<dots> \<le> card S + length (filter (\<lambda>p. p \<notin> S) ps)" using card_length by (rule add_left_mono)
    finally show ?thesis .
  qed
  with assms show ?thesis
    by (auto simp: reserve_paid_prune_peer_budget_def Let_def MAX_PAID_PRUNE_VERIFICATION_PEERS_PER_PASS_def split: if_splits)
qed

lemma select_cases:
  assumes "select_paid_prune_candidate closest self_id allow n S = (state, S')" "finite S" "card S \<le> 32"
  shows "finite S' \<and> card S' \<le> 32 \<and> S \<subseteq> S' \<and>
    (\<forall>ps. state = PaidCandidate ps \<longrightarrow> allow \<and> n < 32 \<and> ps = remote_close_group_peers closest self_id \<and> set ps \<subseteq> S')"
proof -
  let ?ps = "remote_close_group_peers closest self_id"
  obtain b S1 where r: "reserve_paid_prune_peer_budget ?ps S = (b, S1)"
    by (cases "reserve_paid_prune_peer_budget ?ps S")
  from assms reserve_budget [OF r assms(2,3)] show ?thesis
    by (auto simp: select_paid_prune_candidate_def Let_def r MAX_PAID_PRUNE_VERIFICATIONS_PER_PASS_def
        simp del: set_remote split: if_splits bool.splits)
qed

lemma scan_paid_entry_ok:
  assumes ok: "paid_scan_ok env pl sc"
    and clock: "0 < prune_hysteresis_duration (pp_config env)" "\<forall>k. pp_now env \<le> pp_mark_now env k"
  shows "paid_scan_ok env pl (scan_paid_entry env x sc)"
proof -
  obtain off key where x: "x = (off, key)" by (cases x)
  let ?G = "pp_closest env key (paid_list_close_group_size (pp_config env))"
  obtain state S where s: "select_paid_prune_candidate ?G (pp_self env) (pp_allow env) (length (sc_candidates sc))
      (sc_peers sc) = (state, S)"
    by (cases "select_paid_prune_candidate ?G (pp_self env) (pp_allow env) (length (sc_candidates sc)) (sc_peers sc)")
  have sel: "finite S \<and> card S \<le> 32 \<and> sc_peers sc \<subseteq> S \<and> (\<forall>ps. state = PaidCandidate ps \<longrightarrow> pp_allow env \<and>
      length (sc_candidates sc) < 32 \<and> ps = remote_close_group_peers ?G (pp_self env) \<and> set ps \<subseteq> S)"
    using select_cases [OF s] ok by (simp add: paid_scan_ok_def)
  let ?pl1 = "set_paid_out_of_range (pp_mark_now env key) key (sc_pl sc)"
  have c1: "paid_clocks_ok env pl ?pl1" "paid_clocks_ok env pl (clear_paid_out_of_range key (sc_pl sc))"
    using ok by (auto simp: paid_scan_ok_def paid_clocks_ok_def clock_defs or_insert_at_apply)
  have out: "paid_out_long_enough env pl key"
    if "paid_out_of_range_since key ?pl1 = Some t" "prune_hysteresis_duration (pp_config env) \<le> pp_now env - t" for t
  proof -
    have "t \<noteq> pp_mark_now env key" using that(2) clock by (metis diff_is_0_eq not_less)
    then have "paid_out_of_range_since key pl = Some t"
      using c1(1) that(1) by (auto simp: paid_clocks_ok_def dest!: spec [of _ key])
    with that(2) show ?thesis by (auto simp: paid_out_long_enough_def)
  qed
  from ok c1 out sel show ?thesis
    unfolding x scan_paid_entry_def Let_def prod.case
    by (auto simp: paid_scan_ok_def paid_selected_def s simp del: set_remote
        split: if_splits option.splits paid_prune_key_state.splits)
qed

lemma scan_paid_entries_ok:
  assumes "0 < prune_hysteresis_duration (pp_config env)" "\<forall>k. pp_now env \<le> pp_mark_now env k"
  shows "paid_scan_ok env pl (scan_paid_entries env ks pl)"
proof -
  have step: "paid_scan_ok env pl (fold (scan_paid_entry env) xs sc)" if "paid_scan_ok env pl sc" for xs sc
    using that scan_paid_entry_ok [OF _ assms] by (induction xs arbitrary: sc) auto
  show ?thesis unfolding scan_paid_entries_def by (rule step) (simp add: paid_scan_ok_def paid_clocks_ok_def)
qed

section \<open>What is removed\<close>

definition said_paid :: "paid_prune_env \<Rightarrow> xor_name \<Rightarrow> peer_id \<Rightarrow> bool" where
  "said_paid env k p \<longleftrightarrow> (\<exists>rs. (p, VerificationReply rs) \<in> set (pp_replies env) \<and>
     (\<exists>r\<in>set rs. vr_key r = k \<and> vr_paid r = Some True))"

lemma confirmations_said:
  assumes "collect_paid_prune_confirmations env cs k = Some P" "p \<in> P" shows "said_paid env k p"
proof -
  define ev where "ev = run_verification_round (map fst (filter (\<lambda>(_, ps). ps \<noteq> []) cs))
    (dedup_keys (fold add_paid_prune_target cs targets_empty)) (pp_replies env)"
  have round: "e p = Some Confirmed \<Longrightarrow> said_paid env k p" if "map_option paid_list_ev (ev k) = Some e" for e
    using that fold_collect_Confirmed [of "dedup_keys (fold add_paid_prune_target cs targets_empty)" "pp_replies env"
        "initial_evidence (map fst (filter (\<lambda>(_, ps). ps \<noteq> []) cs))" k p]
    by (auto simp: ev_def run_verification_round_def paid_of_def said_paid_def initial_evidence_def
        empty_evidence_def split: if_splits)
  have "\<exists>e. ev k = Some e \<and> paid_list_ev e p = Some Confirmed"
    if "fold (add_confirmations ev) xs m k = Some P" "p \<in> P"
      "\<forall>P. m k = Some P \<longrightarrow> p \<in> P \<longrightarrow> (\<exists>e. ev k = Some e \<and> paid_list_ev e p = Some Confirmed)" for xs m
    using that
  proof (induction xs arbitrary: m)
    case (Cons x xs)
    from Cons.prems(1) have "fold (add_confirmations ev) xs (add_confirmations ev x m) k = Some P" by simp
    then show ?case
    proof (rule Cons.IH [OF _ Cons.prems(2)])
      show "\<forall>P. add_confirmations ev x m k = Some P \<longrightarrow> p \<in> P \<longrightarrow> (\<exists>e. ev k = Some e \<and> paid_list_ev e p = Some Confirmed)"
        using Cons.prems(3) by (cases x) (auto simp: add_confirmations_def Let_def split: option.splits if_splits)
    qed
  qed simp
  from this [of cs Map.empty] assms round show ?thesis
    by (auto simp: collect_paid_prune_confirmations_def paid_confirmations_by_key_def ev_def [symmetric] Let_def
        split: if_splits)
qed

definition paid_still_prunable :: "paid_prune_env \<Rightarrow> (xor_name \<rightharpoonup> peer_id set) \<Rightarrow> xor_name \<Rightarrow> bool" where
  "paid_still_prunable env confirmed k \<longleftrightarrow>
     pp_self env \<notin> set (pp_closest_later env k (paid_list_close_group_size (pp_config env))) \<and>
     (let G = remote_close_group_peers (pp_closest_later env k (paid_list_close_group_size (pp_config env))) (pp_self env)
      in target_peers_reported_present k G confirmed (paid_prune_confirmations_needed (length G)))"

lemma revalidated_paid_keys:
  assumes "revalidated_paid_prune_keys env cs confirmed pl = (ks, n, pl')"
  shows "pl_keys pl' = pl_keys pl \<and> (\<forall>k\<in>set ks. k \<in> fst ` set cs \<and> paid_still_prunable env confirmed k)"
proof -
  have "pl_keys (snd (snd (fold (revalidate_paid_entry env confirmed) cs s))) = pl_keys (snd (snd s)) \<and>
    (\<forall>k\<in>set (fst (fold (revalidate_paid_entry env confirmed) cs s)). k \<in> set (fst s) \<or>
       k \<in> fst ` set cs \<and> paid_still_prunable env confirmed k)" for s
  proof (induction cs arbitrary: s)
    case (Cons c cs)
    have "pl_keys (snd (snd (revalidate_paid_entry env confirmed c s))) = pl_keys (snd (snd s))"
      "set (fst (revalidate_paid_entry env confirmed c s)) \<subseteq> set (fst s) \<union> {k. k = fst c \<and> paid_still_prunable env confirmed k}"
      by (cases s; cases c; auto simp: revalidate_paid_entry_def Let_def paid_still_prunable_def clock_defs
          split: option.splits if_splits)+
    with Cons [of "revalidate_paid_entry env confirmed c s"] show ?case by (auto simp: image_iff)
  qed simp
  from this [of "([], 0, pl)"] assms show ?thesis by (simp add: revalidated_paid_prune_keys_def)
qed

lemma removed_keys:
  "pl_keys (snd (delete_paid_entries w ks pl)) = (if w then pl_keys pl - set ks else pl_keys pl)"
proof -
  obtain removed db where "delete_each ks (pl_keys pl) = (removed, db)" by (cases "delete_each ks (pl_keys pl)")
  with delete_each_eq [OF this] show ?thesis
    by (auto simp: delete_paid_entries_def pl_remove_batch_def drop_clocks_keys split: option.splits)
qed

section \<open>Properties\<close>


definition example_paid_env :: paid_prune_env where
  "example_paid_env =
     \<lparr>pp_self = 9, pp_config = default_config 7, pp_closest = \<lambda>_ _. [2, 3, 4], pp_closest_later = \<lambda>_ _. [3, 2, 4],
      pp_allow = True, pp_now = from_secs (4 * 24 * 60 * 60), pp_mark_now = \<lambda>_. from_secs (4 * 24 * 60 * 60),
      pp_now_later = from_secs (4 * 24 * 60 * 60), pp_read_ok = True, pp_write_ok = True,
      pp_replies = map (\<lambda>p. (p, VerificationReply [\<lparr>vr_key = 1, vr_present = False, vr_paid = Some True\<rparr>])) [4, 2, 3]\<rparr>"

definition example_paid_list :: paid_list where
  "example_paid_list = \<lparr>pl_keys = {1, 5}, pl_paid_out_of_range = [1 \<mapsto> 0], pl_record_out_of_range = Map.empty,
     pl_paid_prune_cursor = 1\<rparr>"

lemma example_paid_scan:
  "sc_candidates (scan_paid_entries example_paid_env [1, 5] example_paid_list) = [(1, [2, 3, 4])] \<and>
   pl_keys (sc_pl (scan_paid_entries example_paid_env [1, 5] example_paid_list)) = {1, 5} \<and>
   paid_out_of_range_since 1 (sc_pl (scan_paid_entries example_paid_env [1, 5] example_paid_list)) = Some 0"
  by (simp add: scan_paid_entries_def scan_order_def paid_prune_scan_start_def example_paid_list_def example_paid_env_def
      scan_paid_entry_def clock_defs or_insert_at_def default_config_def from_secs_def select_paid_prune_candidate_def
      remote_close_group_peers_def MAX_PAID_PRUNE_VERIFICATIONS_PER_PASS_def reserve_paid_prune_peer_budget_def
      MAX_PAID_PRUNE_VERIFICATION_PEERS_PER_PASS_def Let_def)

lemma example_confirmations:
  "collect_paid_prune_confirmations example_paid_env [(1, [2, 3, 4])] 1 = Some {2, 3, 4}"
proof -
  have "Set.filter (\<lambda>p. p = 3 \<or> p = 2 \<or> p = 4) {2, 3, 4 :: peer_id} = {2, 3, 4}"
    "{a :: peer_id. a \<noteq> 4 \<longrightarrow> a \<noteq> 2 \<longrightarrow> a = 3} = {2, 3, 4}" by auto
  then show ?thesis
    by (simp add: collect_paid_prune_confirmations_def paid_confirmations_by_key_def add_confirmations_def
      add_paid_prune_target_def add_paid_peer_def dedup_keys_def targets_empty_def run_verification_round_def
      initial_evidence_def collect_reply_def process_verification_response_def apply_result_def fill_missing_def
      or_insert_def empty_evidence_def example_paid_env_def sat_mul64_def u64_max_def Let_def) blast
qed

lemma example_paid_hyps:
  "0 < prune_hysteresis_duration (pp_config example_paid_env)"
  "\<forall>k. pp_now example_paid_env \<le> pp_mark_now example_paid_env k"
  by (simp_all add: example_paid_env_def default_config_def from_secs_def)

lemma example_paid_removed: "1 \<notin> pl_keys (snd (prune_paid_entries example_paid_env example_paid_list))"
proof -
  have keys: "sorted_list_of_set (pl_keys example_paid_list) = [1, 5]" by (simp add: example_paid_list_def)
  have group: "{p \<in> {2, 3, 4 :: peer_id}. p \<in> set [3, 2, 4]} = {2, 3, 4}" by auto
  have rv: "fst (revalidated_paid_prune_keys example_paid_env [(1, [2, 3, 4])] confirmed pl) = [1]"
    if "confirmed 1 = Some {2, 3, 4}" "paid_out_of_range_since 1 pl = Some 0" for confirmed pl
    using that group
    by (simp add: revalidated_paid_prune_keys_def revalidate_paid_entry_def example_paid_env_def default_config_def
        from_secs_def remote_close_group_peers_def target_peers_reported_present_def paid_prune_confirmations_needed_def)
  have cur: "paid_out_of_range_since k (advance_paid_prune_cursor n s l pl) = paid_out_of_range_since k pl" for k n s l pl
    by (simp add: advance_paid_prune_cursor_def clock_defs)
  have ok: "pp_read_ok example_paid_env" "pp_write_ok example_paid_env" by (simp_all add: example_paid_env_def)
  show ?thesis
    using example_paid_scan rv [of "collect_paid_prune_confirmations example_paid_env [(1, [2, 3, 4])]"] example_confirmations ok
    by (simp add: prune_paid_entries_def pl_all_keys_def keys Let_def split_beta removed_keys cur)
qed


text \<open>
  A pass has a fixed network budget, whatever the number of records and entries it looks at: at most
  64 record challenges, at most 32 paid entries put to at most 32 distinct peers, and no peer is
  reported twice for the same fault.
\<close>

theorem prune_pass_bounded:
  assumes "run_prune_pass_with_context env penv st = (result, events, st')"
    and "proofs_inv (pr_proofs st)" and "\<forall>xs. set (pe_completion env xs) = set xs"
    and "0 < prune_hysteresis_duration (pe_config env)" and "\<forall>k. pe_now env \<le> pe_mark_now env k"
    and "0 < prune_hysteresis_duration (pp_config penv)" and "\<forall>k. pp_now penv \<le> pp_mark_now penv k"
  shows "distinct events \<and> length (build_peer_audit_challenges (sn_candidates (scan_records env st))) \<le> 64 \<and>
    (let candidates = sc_candidates (scan_paid_entries penv ks (pr_paid_list (snd (snd (prune_stored_records env st)))))
     in length candidates \<le> 32 \<and> card (\<Union>c\<in>set candidates. set (snd c)) \<le> 32)"
proof -
  obtain rs st1 where run: "prune_stored_records env st = (rs, events, st1)"
    using assms(1) by (auto simp: run_prune_pass_with_context_def Let_def split_beta) (metis prod.collapse)
  let ?sc = "scan_paid_entries penv ks (pr_paid_list (snd (snd (prune_stored_records env st))))"
  have sc: "finite (sc_peers ?sc)" "(\<Union>c\<in>set (sc_candidates ?sc). set (snd c)) \<subseteq> sc_peers ?sc"
    "card (sc_peers ?sc) \<le> 32" "length (sc_candidates ?sc) \<le> 32"
    using scan_paid_entries_ok [OF assms(6,7)] by (simp_all add: paid_scan_ok_def)
  with card_mono [OF sc(1,2)] record_prune_budget [OF run assms(2,4,5,3)] show ?thesis by (simp add: Let_def)
qed

theorem prune_pass_bounded_witness:
  "length (sc_candidates (scan_paid_entries example_paid_env [1, 5]
     (pr_paid_list (snd (snd (prune_stored_records example_prune_env example_prune_state)))))) \<le> 32"
proof -
  obtain result events st' where "run_prune_pass_with_context example_prune_env example_paid_env example_prune_state =
      (result, events, st')" by (metis prod_cases3)
  from prune_pass_bounded [OF this example_hyps(1,4,2,3) example_paid_hyps, of "[1, 5]"] show ?thesis by (simp add: Let_def)
qed

end
