(* ===== verification/Lmdb_Storage.thy ===== *)
theory Lmdb_Storage
  imports Prelude
begin

text \<open>
  The content-addressed chunk store (src/src/storage/lmdb.rs). The LMDB database is a map from
  addresses to bytes with the current ceiling of its memory map; what a transaction or a disk query
  reports is an argument of the operation that makes it. A call to \<open>put\<close> is split at the points where
  other calls can run, so that concurrent calls can be interleaved.
\<close>

section \<open>State\<close>

definition MIB :: nat where "MIB = 1024 * 1024"

definition GIB :: nat where "GIB = 1024 * MIB"

definition DEFAULT_DISK_RESERVE :: nat where "DEFAULT_DISK_RESERVE = 500 * MIB"

definition MIN_MAP_SIZE :: nat where "MIN_MAP_SIZE = 256 * 1024 * 1024"

definition DISK_CHECK_INTERVAL_SECS :: nat where "DISK_CHECK_INTERVAL_SECS = 5"

record storage_config =
  verify_on_read :: bool
  max_map_size :: nat
  disk_reserve :: nat

definition default_storage_config :: storage_config where
  "default_storage_config = \<lparr>verify_on_read = True, max_map_size = 0, disk_reserve = DEFAULT_DISK_RESERVE\<rparr>"

record storage_stats =
  chunks_stored :: nat
  chunks_retrieved :: nat
  bytes_stored :: nat
  bytes_retrieved :: nat
  duplicates :: nat
  verification_failures :: nat
  current_chunks_stat :: nat

definition empty_stats :: storage_stats where
  "empty_stats = \<lparr>chunks_stored = 0, chunks_retrieved = 0, bytes_stored = 0, bytes_retrieved = 0, duplicates = 0,
     verification_failures = 0, current_chunks_stat = 0\<rparr>"

record lmdb_storage =
  ls_db :: "xor_name \<rightharpoonup> bytes"
  ls_map_size :: nat
  ls_config :: storage_config
  ls_stats :: storage_stats
  ls_last_disk_ok :: "instant option"

datatype storage_error =
    ContentAddressMismatch
  | ReadTxnFailed
  | DiskQueryFailed
  | InsufficientDiskSpace
  | WriteTxnFailed
  | ResizeFailed
  | MapFullAfterResize
  | ChunkVerificationFailed

datatype put_outcome = PutNew | PutDuplicate | PutMapFull

text \<open>How a write transaction goes: it cannot be opened or read, the put or the commit fails, the map
  ceiling is reached, or it commits.\<close>

datatype txn = TxnBroken | TxnPutFails | TxnMapFull | TxnCommits

section \<open>Disk space\<close>

text \<open>Sizes are \<open>u64\<close>; the multiplication that aligns to pages is the wrapping one.\<close>

definition compute_map_size :: "nat option \<Rightarrow> nat \<Rightarrow> nat \<Rightarrow> nat \<Rightarrow> storage_error + nat" where
  "compute_map_size available_space current_db_bytes page reserve =
     (case available_space of
        None \<Rightarrow> Inl DiskQueryFailed
      | Some available \<Rightarrow>
          let growth_room = available - reserve;
              target = sat_add64 current_db_bytes growth_room;
              aligned = (((target + page - 1) div page) * page) mod 2 ^ 64
          in Inr (max aligned MIN_MAP_SIZE))"

definition check_disk_space :: "nat option \<Rightarrow> nat \<Rightarrow> storage_error + unit" where
  "check_disk_space available_space reserve =
     (case available_space of
        None \<Rightarrow> Inl DiskQueryFailed
      | Some available \<Rightarrow> if available < reserve then Inl InsufficientDiskSpace else Inr ())"

definition check_disk_space_cached :: "instant \<Rightarrow> nat option \<Rightarrow> lmdb_storage \<Rightarrow> (storage_error + unit) \<times> lmdb_storage" where
  "check_disk_space_cached now available_space st =
     (if is_some_and (ls_last_disk_ok st) (\<lambda>t. (now - t) div 10 ^ 9 < DISK_CHECK_INTERVAL_SECS)
      then (Inr (), st)
      else case check_disk_space available_space (disk_reserve (ls_config st)) of
        Inl e \<Rightarrow> (Inl e, st)
      | Inr _ \<Rightarrow> (Inr (), st\<lparr>ls_last_disk_ok := Some now\<rparr>))"

definition check_capacity :: "instant \<Rightarrow> nat option \<Rightarrow> lmdb_storage \<Rightarrow> (storage_error + unit) \<times> lmdb_storage" where
  "check_capacity now available_space st = check_disk_space_cached now available_space st"

text \<open>What a resize sees: the free space, the size of the database file, the page size, and whether the
  remapping works.\<close>

record resize_env =
  rz_available :: "nat option"
  rz_db_bytes :: nat
  rz_page :: nat
  rz_ok :: bool

definition try_resize :: "resize_env \<Rightarrow> lmdb_storage \<Rightarrow> (storage_error + unit) \<times> lmdb_storage" where
  "try_resize rz st =
     (case compute_map_size (rz_available rz) (rz_db_bytes rz) (rz_page rz) (disk_reserve (ls_config st)) of
        Inl e \<Rightarrow> (Inl e, st)
      | Inr from_disk \<Rightarrow>
          let current_map = ls_map_size st; new_size = max from_disk current_map
          in if new_size \<le> current_map then (Inr (), st)
             else if rz_ok rz then (Inr (), st\<lparr>ls_map_size := new_size\<rparr>)
             else (Inl ResizeFailed, st))"

definition storage_new :: "storage_config \<Rightarrow> resize_env \<Rightarrow> (xor_name \<rightharpoonup> bytes) \<Rightarrow> storage_error + lmdb_storage" where
  "storage_new config rz db =
     (case (if max_map_size config > 0 then Inr (max_map_size config)
            else compute_map_size (rz_available rz) (rz_db_bytes rz) (rz_page rz) (disk_reserve config)) of
        Inl e \<Rightarrow> Inl e
      | Inr map_size \<Rightarrow>
          if \<not> rz_ok rz then Inl WriteTxnFailed
          else Inr \<lparr>ls_db = db, ls_map_size = map_size, ls_config = config, ls_stats = empty_stats,
                 ls_last_disk_ok = None\<rparr>)"

section \<open>Reading\<close>

definition lmdb_exists :: "bool \<Rightarrow> xor_name \<Rightarrow> lmdb_storage \<Rightarrow> storage_error + bool" where
  "lmdb_exists read_ok address st = (if read_ok then Inr (ls_db st address \<noteq> None) else Inl ReadTxnFailed)"

definition lmdb_get ::
  "(bytes \<Rightarrow> hash32) \<Rightarrow> bool \<Rightarrow> xor_name \<Rightarrow> lmdb_storage \<Rightarrow> (storage_error + bytes option) \<times> lmdb_storage" where
  "lmdb_get b3 read_ok address st =
     (if \<not> read_ok then (Inl ReadTxnFailed, st)
      else case ls_db st address of
        None \<Rightarrow> (Inr None, st)
      | Some content \<Rightarrow>
          if verify_on_read (ls_config st) \<and> b3 content \<noteq> address
          then (Inl ChunkVerificationFailed,
                st\<lparr>ls_stats := (ls_stats st)\<lparr>verification_failures := verification_failures (ls_stats st) + 1\<rparr>\<rparr>)
          else (Inr (Some content),
                st\<lparr>ls_stats := (ls_stats st)\<lparr>chunks_retrieved := chunks_retrieved (ls_stats st) + 1,
                  bytes_retrieved := bytes_retrieved (ls_stats st) + length content\<rparr>\<rparr>))"

definition get_raw :: "bool \<Rightarrow> xor_name \<Rightarrow> lmdb_storage \<Rightarrow> storage_error + bytes option" where
  "get_raw read_ok address st = (if read_ok then Inr (ls_db st address) else Inl ReadTxnFailed)"

definition current_chunks :: "bool \<Rightarrow> lmdb_storage \<Rightarrow> storage_error + nat" where
  "current_chunks read_ok st = (if read_ok then Inr (card (dom (ls_db st))) else Inl ReadTxnFailed)"

definition all_keys :: "bool \<Rightarrow> lmdb_storage \<Rightarrow> storage_error + xor_name list" where
  "all_keys read_ok st = (if read_ok then Inr (sorted_list_of_set (dom (ls_db st))) else Inl ReadTxnFailed)"

definition stats :: "bool \<Rightarrow> lmdb_storage \<Rightarrow> storage_stats" where
  "stats read_ok st = (ls_stats st)\<lparr>current_chunks_stat :=
     (case current_chunks read_ok st of Inr n \<Rightarrow> n | Inl _ \<Rightarrow> 0)\<rparr>"

section \<open>Writing\<close>

definition try_put :: "txn \<Rightarrow> xor_name \<Rightarrow> bytes \<Rightarrow> lmdb_storage \<Rightarrow> (storage_error + put_outcome) \<times> lmdb_storage" where
  "try_put w address content st =
     (if w = TxnBroken then (Inl WriteTxnFailed, st)
      else if ls_db st address \<noteq> None then (Inr PutDuplicate, st)
      else case w of
        TxnPutFails \<Rightarrow> (Inl WriteTxnFailed, st)
      | TxnMapFull \<Rightarrow> (Inr PutMapFull, st)
      | _ \<Rightarrow> (Inr PutNew, st\<lparr>ls_db := (ls_db st)(address \<mapsto> content)\<rparr>))"

definition count_duplicate :: "lmdb_storage \<Rightarrow> lmdb_storage" where
  "count_duplicate st = st\<lparr>ls_stats := (ls_stats st)\<lparr>duplicates := duplicates (ls_stats st) + 1\<rparr>\<rparr>"

definition count_stored :: "bytes \<Rightarrow> lmdb_storage \<Rightarrow> lmdb_storage" where
  "count_stored content st = st\<lparr>ls_stats := (ls_stats st)\<lparr>chunks_stored := chunks_stored (ls_stats st) + 1,
     bytes_stored := bytes_stored (ls_stats st) + length content\<rparr>\<rparr>"

text \<open>The stages of \<open>put\<close>: the checks before the first transaction, an attempt, the resize. A stage
  returns the next one, or the result.\<close>

datatype put_stage = PutChecks | PutFirst | PutResize | PutRetry | PutDone "storage_error + bool"

definition put_checks ::
  "(bytes \<Rightarrow> hash32) \<Rightarrow> bool \<Rightarrow> instant \<Rightarrow> nat option \<Rightarrow> xor_name \<Rightarrow> bytes \<Rightarrow> lmdb_storage \<Rightarrow> put_stage \<times> lmdb_storage" where
  "put_checks b3 read_ok now available_space address content st =
     (if b3 content \<noteq> address then (PutDone (Inl ContentAddressMismatch), st)
      else case lmdb_exists read_ok address st of
        Inl e \<Rightarrow> (PutDone (Inl e), st)
      | Inr True \<Rightarrow> (PutDone (Inr False), count_duplicate st)
      | Inr False \<Rightarrow>
          (case check_disk_space_cached now available_space st of
             (Inl e, st1) \<Rightarrow> (PutDone (Inl e), st1)
           | (Inr _, st1) \<Rightarrow> (PutFirst, st1)))"

definition put_attempt :: "bool \<Rightarrow> txn \<Rightarrow> xor_name \<Rightarrow> bytes \<Rightarrow> lmdb_storage \<Rightarrow> put_stage \<times> lmdb_storage" where
  "put_attempt retry w address content st =
     (case try_put w address content st of
        (Inl e, st1) \<Rightarrow> (PutDone (Inl e), st1)
      | (Inr PutNew, st1) \<Rightarrow> (PutDone (Inr True), count_stored content st1)
      | (Inr PutDuplicate, st1) \<Rightarrow> (PutDone (Inr False), count_duplicate st1)
      | (Inr PutMapFull, st1) \<Rightarrow> (if retry then PutDone (Inl MapFullAfterResize) else PutResize, st1))"

definition put_resize :: "resize_env \<Rightarrow> lmdb_storage \<Rightarrow> put_stage \<times> lmdb_storage" where
  "put_resize rz st =
     (case try_resize rz st of
        (Inl e, st1) \<Rightarrow> (PutDone (Inl e), st1)
      | (Inr _, st1) \<Rightarrow> (PutRetry, st1))"

record put_env =
  pu_read_ok :: bool
  pu_now :: instant
  pu_available :: "nat option"
  pu_first :: txn
  pu_resize :: resize_env
  pu_retry :: txn

fun put_next ::
  "(bytes \<Rightarrow> hash32) \<Rightarrow> put_env \<Rightarrow> xor_name \<Rightarrow> bytes \<Rightarrow> put_stage \<Rightarrow> lmdb_storage \<Rightarrow> put_stage \<times> lmdb_storage" where
  "put_next b3 env address content PutChecks st =
     put_checks b3 (pu_read_ok env) (pu_now env) (pu_available env) address content st"
| "put_next b3 env address content PutFirst st = put_attempt False (pu_first env) address content st"
| "put_next b3 env address content PutResize st = put_resize (pu_resize env) st"
| "put_next b3 env address content PutRetry st = put_attempt True (pu_retry env) address content st"
| "put_next b3 env address content (PutDone r) st = (PutDone r, st)"

text \<open>A call that runs alone: four stages always reach the end (\<open>lmdb_put_cases\<close>).\<close>

definition lmdb_put ::
  "(bytes \<Rightarrow> hash32) \<Rightarrow> put_env \<Rightarrow> xor_name \<Rightarrow> bytes \<Rightarrow> lmdb_storage \<Rightarrow> (storage_error + bool) \<times> lmdb_storage" where
  "lmdb_put b3 env address content st =
     (case ((\<lambda>(stage, st). put_next b3 env address content stage st) ^^ 4) (PutChecks, st) of
        (PutDone r, st') \<Rightarrow> (r, st')
      | (_, st') \<Rightarrow> (Inl MapFullAfterResize, st'))"

definition lmdb_delete :: "bool \<Rightarrow> xor_name \<Rightarrow> lmdb_storage \<Rightarrow> (storage_error + bool) \<times> lmdb_storage" where
  "lmdb_delete write_ok address st =
     (if write_ok then (Inr (ls_db st address \<noteq> None), st\<lparr>ls_db := (ls_db st)(address := None)\<rparr>)
      else (Inl WriteTxnFailed, st))"

section \<open>Concurrent calls\<close>

text \<open>Any number of calls to \<open>put\<close>, each at a stage, with deletions and reads in between. \<open>sy_deleted\<close>
  records the addresses of the deletions that found a chunk.\<close>

record put_call =
  pc_address :: xor_name
  pc_content :: bytes
  pc_stage :: put_stage

record store_system =
  sy_storage :: lmdb_storage
  sy_calls :: "put_call list"
  sy_deleted :: "xor_name list"

inductive store_step :: "(bytes \<Rightarrow> hash32) \<Rightarrow> store_system \<Rightarrow> store_system \<Rightarrow> bool" for b3 where
  StartPut: "store_step b3 s (s\<lparr>sy_calls := sy_calls s @ [\<lparr>pc_address = a, pc_content = c, pc_stage = PutChecks\<rparr>]\<rparr>)"
| AdvancePut: "store_step b3 s (s\<lparr>sy_storage := st, sy_calls := (sy_calls s)[i := call\<lparr>pc_stage := stage\<rparr>]\<rparr>)"
    if "i < length (sy_calls s)" "call = sy_calls s ! i" "\<forall>r. pc_stage call \<noteq> PutDone r"
      "put_next b3 env (pc_address call) (pc_content call) (pc_stage call) (sy_storage s) = (stage, st)"
| Delete: "store_step b3 s (s\<lparr>sy_storage := st, sy_deleted := (if r = Inr True then [a] else []) @ sy_deleted s\<rparr>)"
    if "lmdb_delete write_ok a (sy_storage s) = (r, st)"
| Read: "store_step b3 s (s\<lparr>sy_storage := snd (lmdb_get b3 read_ok a (sy_storage s))\<rparr>)"

section \<open>Lemmas\<close>

definition content_addressed :: "(bytes \<Rightarrow> hash32) \<Rightarrow> (xor_name \<rightharpoonup> bytes) \<Rightarrow> bool" where
  "content_addressed b3 db \<longleftrightarrow> (\<forall>a c. db a = Some c \<longrightarrow> b3 c = a)"

lemma db_counts [simp]:
  "ls_db (count_duplicate st) = ls_db st" "ls_db (count_stored c st) = ls_db st"
  by (simp_all add: count_duplicate_def count_stored_def)

lemma db_check_disk [simp]: "ls_db (snd (check_disk_space_cached now avail st)) = ls_db st"
  by (auto simp: check_disk_space_cached_def split: sum.splits)

lemma db_resize [simp]: "ls_db (snd (try_resize rz st)) = ls_db st"
  by (auto simp: try_resize_def Let_def split: sum.splits)

lemma db_get [simp]: "ls_db (snd (lmdb_get b3 ok a st)) = ls_db st"
  by (auto simp: lmdb_get_def split: option.splits)

lemma put_checks_cases:
  assumes "put_checks b3 ok now avail a c st = (stage, st')"
  shows "ls_db st' = ls_db st \<and>
    ((\<exists>e. stage = PutDone (Inl e)) \<or> stage = PutDone (Inr False) \<and> ls_db st a \<noteq> None \<or> stage = PutFirst) \<and>
    (stage \<in> {PutFirst, PutDone (Inr False)} \<longrightarrow> b3 c = a)"
proof (cases "check_disk_space_cached now avail st")
  case (Pair r st1)
  with db_check_disk [of now avail st] have "ls_db st1 = ls_db st" by simp
  with assms Pair show ?thesis
    by (auto simp: put_checks_def lmdb_exists_def split: if_splits sum.splits bool.splits)
qed

lemma put_attempt_cases:
  assumes "put_attempt retry w a c st = (stage, st')"
  shows "(\<exists>e. stage = PutDone (Inl e)) \<and> ls_db st' = ls_db st \<or>
    stage = PutDone (Inr True) \<and> ls_db st a = None \<and> ls_db st' = (ls_db st)(a \<mapsto> c) \<or>
    stage = PutDone (Inr False) \<and> ls_db st a \<noteq> None \<and> ls_db st' = ls_db st \<or>
    \<not> retry \<and> stage = PutResize \<and> ls_db st' = ls_db st"
  using assms by (cases w) (auto simp: put_attempt_def try_put_def split: if_splits)

lemma put_resize_cases:
  assumes "put_resize rz st = (stage, st')"
  shows "ls_db st' = ls_db st \<and> ((\<exists>e. stage = PutDone (Inl e)) \<or> stage = PutRetry)"
  using assms db_resize [of rz st] by (cases "try_resize rz st") (auto simp: put_resize_def split: sum.splits)

text \<open>One stage: the database stays as it is, except when a call ends as having stored its chunk.\<close>

lemma put_next_cases:
  assumes "put_next b3 env a c stage st = (stage', st')" "\<forall>r. stage \<noteq> PutDone r"
  shows "ls_db st' = (if stage' = PutDone (Inr True) then (ls_db st)(a \<mapsto> c) else ls_db st) \<and>
    (stage' = PutDone (Inr True) \<longrightarrow> ls_db st a = None) \<and>
    (stage' = PutDone (Inr False) \<longrightarrow> ls_db st a \<noteq> None) \<and>
    (stage = PutChecks \<longrightarrow> (stage' = PutFirst \<longrightarrow> b3 c = a) \<and> stage' \<notin> {PutDone (Inr True), PutResize, PutRetry})"
  using assms put_checks_cases [of b3 "pu_read_ok env" "pu_now env" "pu_available env" a c st stage' st']
    put_attempt_cases [of False "pu_first env" a c st stage' st'] put_attempt_cases [of True "pu_retry env" a c st stage' st']
    put_resize_cases [of "pu_resize env" st stage' st']
  by (cases stage) auto

definition stored_new :: "xor_name \<Rightarrow> put_call \<Rightarrow> bool" where
  "stored_new a call \<longleftrightarrow> pc_address call = a \<and> pc_stage call = PutDone (Inr True)"

definition new_results :: "store_system \<Rightarrow> xor_name \<Rightarrow> nat" where
  "new_results s a = length (filter (stored_new a) (sy_calls s))"

definition deletions :: "store_system \<Rightarrow> xor_name \<Rightarrow> nat" where
  "deletions s a = length (filter (\<lambda>x. x = a) (sy_deleted s))"

definition system_ok :: "(bytes \<Rightarrow> hash32) \<Rightarrow> store_system \<Rightarrow> store_system \<Rightarrow> bool" where
  "system_ok b3 s0 s \<longleftrightarrow> content_addressed b3 (ls_db (sy_storage s)) \<and>
     (\<forall>call\<in>set (sy_calls s). pc_stage call \<in> {PutFirst, PutResize, PutRetry} \<longrightarrow>
        b3 (pc_content call) = pc_address call) \<and>
     (\<forall>a. new_results s a + of_bool (ls_db (sy_storage s0) a \<noteq> None) =
        deletions s a + of_bool (ls_db (sy_storage s) a \<noteq> None))"

lemma new_results_update:
  assumes "i < length cs" "\<not> P (cs ! i)"
  shows "length (filter P (cs[i := c])) = length (filter P cs) + of_bool (P c)"
proof -
  have cs: "cs = take i cs @ cs ! i # drop (Suc i) cs" using assms(1) by (simp add: id_take_nth_drop)
  have "cs[i := c] = take i cs @ c # drop (Suc i) cs" using assms(1) by (simp add: upd_conv_take_nth_drop)
  then have "length (filter P (cs[i := c])) = length (filter P (take i cs)) + of_bool (P c) + length (filter P (drop (Suc i) cs))"
    by simp
  moreover have "length (filter P cs) = length (filter P (take i cs)) + length (filter P (drop (Suc i) cs))"
    by (subst cs) (simp add: assms(2))
  ultimately show ?thesis by simp
qed

lemma advance_ok:
  assumes ok: "system_ok b3 s0 s" and i: "i < length (sy_calls s)" and call: "call = sy_calls s ! i"
    and nd: "\<forall>r. pc_stage call \<noteq> PutDone r"
    and nx: "put_next b3 env (pc_address call) (pc_content call) (pc_stage call) (sy_storage s) = (stage, st)"
  shows "system_ok b3 s0 (s\<lparr>sy_storage := st, sy_calls := (sy_calls s)[i := call\<lparr>pc_stage := stage\<rparr>]\<rparr>)"
proof -
  note c = put_next_cases [OF nx nd]
  let ?a = "pc_address call"
  have mem: "call \<in> set (sy_calls s)" using i call by simp
  have bound: "b3 (pc_content call) = ?a" if "stage \<in> {PutFirst, PutResize, PutRetry} \<or> stage = PutDone (Inr True)"
    using that c nd ok mem put_resize_cases [of "pu_resize env" "sy_storage s" stage st] nx
    by (cases "pc_stage call") (auto simp: system_ok_def)
  have count: "new_results (s\<lparr>sy_storage := st, sy_calls := (sy_calls s)[i := call\<lparr>pc_stage := stage\<rparr>]\<rparr>) a =
      new_results s a + of_bool (a = ?a \<and> stage = PutDone (Inr True))" for a
    using new_results_update [OF i, of "stored_new a" "call\<lparr>pc_stage := stage\<rparr>"] call nd
    by (auto simp: new_results_def stored_new_def)
  have "\<forall>x\<in>set ((sy_calls s)[i := call\<lparr>pc_stage := stage\<rparr>]). pc_stage x \<in> {PutFirst, PutResize, PutRetry} \<longrightarrow>
      b3 (pc_content x) = pc_address x"
    using ok bound set_update_subset_insert [of "sy_calls s" i "call\<lparr>pc_stage := stage\<rparr>"]
    by (fastforce simp: system_ok_def)
  moreover have "content_addressed b3 (ls_db st)"
    using ok c bound by (auto simp: system_ok_def content_addressed_def split: if_splits)
  moreover have "new_results s a + of_bool (a = ?a \<and> stage = PutDone (Inr True)) + of_bool (ls_db (sy_storage s0) a \<noteq> None) =
      deletions s a + of_bool (ls_db st a \<noteq> None)" for a
  proof -
    have "new_results s a + of_bool (ls_db (sy_storage s0) a \<noteq> None) =
        deletions s a + of_bool (ls_db (sy_storage s) a \<noteq> None)" using ok by (simp add: system_ok_def)
    with c show ?thesis by auto
  qed
  ultimately show ?thesis by (simp add: system_ok_def count deletions_def)
qed

lemma store_step_ok:
  assumes "store_step b3 s s'" "system_ok b3 s0 s" shows "system_ok b3 s0 s'"
  using assms
proof cases
  case (StartPut a c)
  with assms(2) show ?thesis by (auto simp: system_ok_def new_results_def deletions_def stored_new_def)
next
  case (AdvancePut i call env stage st)
  from advance_ok [OF assms(2) AdvancePut(2,3,4,5)] show ?thesis by (simp add: AdvancePut(1))
next
  case (Delete write_ok a r st)
  show ?thesis
  proof (cases write_ok)
    case True
    with Delete(2) have r: "r = Inr (ls_db (sy_storage s) a \<noteq> None)" and "ls_db st = (ls_db (sy_storage s))(a := None)"
      by (auto simp: lmdb_delete_def)
    then have db: "ls_db st x = (if x = a then None else ls_db (sy_storage s) x)" for x by simp
    have "content_addressed b3 (ls_db st)" using assms(2) db by (auto simp: system_ok_def content_addressed_def split: if_splits)
    moreover have "new_results s' x + of_bool (ls_db (sy_storage s0) x \<noteq> None) = deletions s' x + of_bool (ls_db st x \<noteq> None)" for x
    proof -
      have "new_results s x + of_bool (ls_db (sy_storage s0) x \<noteq> None) =
          deletions s x + of_bool (ls_db (sy_storage s) x \<noteq> None)" using assms(2) by (simp add: system_ok_def)
      moreover have "new_results s' x = new_results s x" by (simp add: Delete(1) new_results_def)
      moreover have "deletions s' x = deletions s x + of_bool (x = a \<and> ls_db (sy_storage s) a \<noteq> None)"
        by (simp add: Delete(1) deletions_def r)
      ultimately show ?thesis by (cases "x = a") (simp_all add: db)
    qed
    ultimately show ?thesis using assms(2) by (simp add: system_ok_def Delete(1))
  next
    case False
    with Delete assms(2) show ?thesis
      by (auto simp: lmdb_delete_def system_ok_def new_results_def deletions_def)
  qed
next
  case (Read read_ok a)
  with assms(2) show ?thesis by (simp add: system_ok_def new_results_def deletions_def)
qed

lemma system_reachable_ok: "(store_step b3)\<^sup>*\<^sup>* s0 s \<Longrightarrow> system_ok b3 s0 s0 \<Longrightarrow> system_ok b3 s0 s"
  by (induction rule: rtranclp_induct) (auto intro: store_step_ok)

text \<open>A call that runs alone: what each stage means for the database it started on, and how many stages
  are left.\<close>

definition put_progress :: "(bytes \<Rightarrow> hash32) \<Rightarrow> xor_name \<Rightarrow> bytes \<Rightarrow> lmdb_storage \<Rightarrow> put_stage \<times> lmdb_storage \<Rightarrow> bool" where
  "put_progress b3 a c st = (\<lambda>(stage, st').
     ls_db st' = (if stage = PutDone (Inr True) then (ls_db st)(a \<mapsto> c) else ls_db st) \<and>
     (stage = PutDone (Inr True) \<longrightarrow> ls_db st a = None) \<and> (stage = PutDone (Inr False) \<longrightarrow> ls_db st a \<noteq> None) \<and>
     (stage = PutChecks \<or> (\<exists>e. stage = PutDone (Inl e)) \<or> b3 c = a))"

fun put_rank :: "put_stage \<Rightarrow> nat" where
  "put_rank PutChecks = 4" | "put_rank PutFirst = 3" | "put_rank PutResize = 2" | "put_rank PutRetry = 1" |
  "put_rank (PutDone r) = 0"

lemma put_next_progress:
  assumes "put_progress b3 a c st (stage, s1)"
  shows "put_progress b3 a c st (put_next b3 env a c stage s1) \<and>
    put_rank (fst (put_next b3 env a c stage s1)) \<le> put_rank stage - 1"
proof -
  obtain stage' s2 where n: "put_next b3 env a c stage s1 = (stage', s2)" by fastforce
  show ?thesis
  proof (cases stage)
    case PutChecks
    with put_checks_cases [of b3 "pu_read_ok env" "pu_now env" "pu_available env" a c s1 stage' s2] assms n
    show ?thesis by (auto simp: put_progress_def)
  next
    case PutFirst
    with put_attempt_cases [of False "pu_first env" a c s1 stage' s2] assms n show ?thesis by (auto simp: put_progress_def)
  next
    case PutResize
    with put_resize_cases [of "pu_resize env" s1 stage' s2] assms n show ?thesis by (auto simp: put_progress_def)
  next
    case PutRetry
    with put_attempt_cases [of True "pu_retry env" a c s1 stage' s2] assms n show ?thesis by (auto simp: put_progress_def)
  next
    case PutDone
    with assms n show ?thesis by auto
  qed
qed

lemma lmdb_put_cases:
  assumes "lmdb_put b3 env a c st = (r, st')"
  shows "put_progress b3 a c st (PutDone r, st')"
proof -
  define run where "run = (\<lambda>(stage, st). put_next b3 env a c stage st)"
  have steps: "put_progress b3 a c st ((run ^^ n) (PutChecks, st)) \<and> put_rank (fst ((run ^^ n) (PutChecks, st))) \<le> 4 - n" for n
  proof (induction n)
    case 0
    show ?case by (simp add: put_progress_def)
  next
    case (Suc n)
    obtain stage s1 where "(run ^^ n) (PutChecks, st) = (stage, s1)" by fastforce
    with Suc put_next_progress [of b3 a c st stage s1 env] show ?case by (simp add: run_def) linarith
  qed
  obtain stage s4 where s4: "(run ^^ 4) (PutChecks, st) = (stage, s4)" by fastforce
  with steps [of 4] obtain q where "stage = PutDone q" by (cases stage) auto
  with s4 steps [of 4] assms show ?thesis by (simp add: lmdb_put_def run_def [symmetric])
qed

section \<open>Properties\<close>

text \<open>
  C6. The chunk store under any interleaving of \<open>put\<close> calls, deletions and reads: every stored value
  hashes to its address, and a chunk is reported as newly stored exactly once for each time it enters
  the store. For every address the calls that returned \<open>true\<close> are as many as the deletions that found
  it, plus one when it is there now (less one when it was there at the start), although each call
  checks for duplicates in an earlier transaction than the one that writes.
\<close>

theorem store_content_addressed:
  assumes "(store_step b3)\<^sup>*\<^sup>* s0 s" and "content_addressed b3 (ls_db (sy_storage s0))"
    and "sy_calls s0 = []" and "sy_deleted s0 = []"
  shows "content_addressed b3 (ls_db (sy_storage s)) \<and>
    new_results s a + of_bool (ls_db (sy_storage s0) a \<noteq> None) =
      deletions s a + of_bool (ls_db (sy_storage s) a \<noteq> None)"
proof -
  have "system_ok b3 s0 s0" using assms(2-) by (simp add: system_ok_def new_results_def deletions_def)
  then have "system_ok b3 s0 s" by (rule system_reachable_ok [OF assms(1)])
  then show ?thesis unfolding system_ok_def by blast
qed

definition example_put_env :: put_env where
  "example_put_env = \<lparr>pu_read_ok = True, pu_now = 0, pu_available = Some (600 * MIB), pu_first = TxnMapFull,
     pu_resize = \<lparr>rz_available = Some GIB, rz_db_bytes = 0, rz_page = 4096, rz_ok = True\<rparr>, pu_retry = TxnCommits\<rparr>"

definition example_storage :: lmdb_storage where
  "example_storage = \<lparr>ls_db = Map.empty, ls_map_size = MIN_MAP_SIZE, ls_config = default_storage_config,
     ls_stats = empty_stats, ls_last_disk_ok = None\<rparr>"

definition chunk_hash :: "bytes \<Rightarrow> hash32" where
  "chunk_hash c = foldr (\<lambda>b h. 257 * h + ucast b + 1) c 0"

text \<open>Two calls for the same chunk, both past the duplicate check before either writes.\<close>

definition two_calls :: "put_stage \<Rightarrow> put_stage \<Rightarrow> put_call list" where
  "two_calls g1 g2 = [\<lparr>pc_address = 8, pc_content = [7], pc_stage = g1\<rparr>, \<lparr>pc_address = 8, pc_content = [7], pc_stage = g2\<rparr>]"

definition example_system :: store_system where
  "example_system = \<lparr>sy_storage = example_storage, sy_calls = [], sy_deleted = []\<rparr>"

lemma advance_first:
  assumes "put_next b3 env 8 [7] g1 (sy_storage s) = (g1', st)" "\<forall>r. g1 \<noteq> PutDone r" "sy_calls s = two_calls g1 g2"
  shows "store_step b3 s (s\<lparr>sy_storage := st, sy_calls := two_calls g1' g2\<rparr>)"
  using store_step.AdvancePut [of 0 s "sy_calls s ! 0" b3 env g1' st] assms by (simp add: two_calls_def)

lemma advance_second:
  assumes "put_next b3 env 8 [7] g2 (sy_storage s) = (g2', st)" "\<forall>r. g2 \<noteq> PutDone r" "sy_calls s = two_calls g1 g2"
  shows "store_step b3 s (s\<lparr>sy_storage := st, sy_calls := two_calls g1 g2'\<rparr>)"
  using store_step.AdvancePut [of 1 s "sy_calls s ! 1" b3 env g2' st] assms by (simp add: two_calls_def)

definition checked_storage :: lmdb_storage where
  "checked_storage = example_storage\<lparr>ls_last_disk_ok := Some 0\<rparr>"

definition race_end :: store_system where
  "race_end = \<lparr>sy_storage = count_duplicate (count_stored [7] (checked_storage\<lparr>ls_db := [8 \<mapsto> [7]]\<rparr>)),
     sy_calls = two_calls (PutDone (Inr False)) (PutDone (Inr True)), sy_deleted = []\<rparr>"

lemma example_race: "(store_step chunk_hash)\<^sup>*\<^sup>* example_system race_end"
proof -
  let ?env = "example_put_env\<lparr>pu_first := TxnCommits\<rparr>"
  let ?s = "\<lambda>st g1 g2. \<lparr>sy_storage = st, sy_calls = two_calls g1 g2, sy_deleted = []\<rparr>"
  have hash: "chunk_hash [7] = 8" by (simp add: chunk_hash_def)
  have disk: "\<not> 600 * MIB < DEFAULT_DISK_RESERVE" by (simp add: DEFAULT_DISK_RESERVE_def MIB_def)
  have start: "(store_step chunk_hash)\<^sup>*\<^sup>* example_system (?s example_storage PutChecks PutChecks)"
    using store_step.StartPut [of chunk_hash example_system 8 "[7]"]
      store_step.StartPut [of chunk_hash "example_system\<lparr>sy_calls := [\<lparr>pc_address = 8, pc_content = [7], pc_stage = PutChecks\<rparr>]\<rparr>" 8 "[7]"]
    by (simp add: example_system_def two_calls_def converse_rtranclp_into_rtranclp)
  have 1: "store_step chunk_hash (?s example_storage PutChecks PutChecks) (?s checked_storage PutFirst PutChecks)"
    using advance_first [of chunk_hash ?env PutChecks "?s example_storage PutChecks PutChecks" PutFirst checked_storage PutChecks]
    by (simp add: put_checks_def hash lmdb_exists_def check_disk_space_cached_def check_disk_space_def example_storage_def
        checked_storage_def example_put_env_def default_storage_config_def disk)
  have 2: "store_step chunk_hash (?s checked_storage PutFirst PutChecks) (?s checked_storage PutFirst PutFirst)"
    using advance_second [of chunk_hash ?env PutChecks "?s checked_storage PutFirst PutChecks" PutFirst checked_storage PutFirst]
    by (simp add: put_checks_def hash lmdb_exists_def check_disk_space_cached_def example_storage_def
        checked_storage_def example_put_env_def DISK_CHECK_INTERVAL_SECS_def)
  let ?st = "count_stored [7] (checked_storage\<lparr>ls_db := [8 \<mapsto> [7]]\<rparr>)"
  have 3: "store_step chunk_hash (?s checked_storage PutFirst PutFirst) (?s ?st PutFirst (PutDone (Inr True)))"
    using advance_second [of chunk_hash ?env PutFirst "?s checked_storage PutFirst PutFirst" "PutDone (Inr True)" ?st PutFirst]
    by (simp add: put_attempt_def try_put_def checked_storage_def example_storage_def)
  have 4: "store_step chunk_hash (?s ?st PutFirst (PutDone (Inr True))) race_end"
    using advance_first [of chunk_hash ?env PutFirst "?s ?st PutFirst (PutDone (Inr True))" "PutDone (Inr False)"
        "count_duplicate ?st" "PutDone (Inr True)"]
    by (simp add: put_attempt_def try_put_def race_end_def)
  from start 1 2 3 4 show ?thesis by (meson rtranclp.rtrancl_into_rtrancl)
qed

theorem store_content_addressed_witness: "new_results race_end 8 = 1 \<and> content_addressed chunk_hash (ls_db (sy_storage race_end))"
  using store_content_addressed [OF example_race, of 8]
  by (simp add: example_system_def example_storage_def content_addressed_def race_end_def deletions_def)

text \<open>
  C8. Writing and reading back. A \<open>put\<close> that succeeds leaves a chunk at the address that \<open>get\<close> returns,
  verified on read or not: the bytes written when it was new, and bytes with the same hash when it was
  there before; it succeeds only for content that hashes to the address. A \<open>put\<close> that fails changes
  no chunk, and no \<open>put\<close> changes a chunk that is stored already.
\<close>

theorem put_get_roundtrip:
  assumes "lmdb_put b3 env a c st = (r, st')" and "content_addressed b3 (ls_db st)"
  shows "case r of
      Inl e \<Rightarrow> ls_db st' = ls_db st
    | Inr new \<Rightarrow> b3 c = a \<and> new = (ls_db st a = None) \<and> (\<forall>a' c'. ls_db st a' = Some c' \<longrightarrow> ls_db st' a' = Some c') \<and>
        (\<exists>c'. fst (lmdb_get b3 True a st') = Inr (Some c') \<and> b3 c' = a \<and> (new \<longrightarrow> c' = c))"
proof -
  have p: "put_progress b3 a c st (PutDone r, st')" using assms(1) by (rule lmdb_put_cases)
  show ?thesis
  proof (cases r)
    case (Inl e)
    with p show ?thesis by (simp add: put_progress_def)
  next
    case (Inr new)
    have g: "fst (lmdb_get b3 True a st') = Inr (Some c')" if "ls_db st' a = Some c'" "b3 c' = a" for c'
      using that by (simp add: lmdb_get_def)
    show ?thesis
      using p assms(2) g Inr by (cases new) (auto simp: put_progress_def content_addressed_def)
  qed
qed

theorem put_get_roundtrip_witness:
  "fst (lmdb_put chunk_hash example_put_env 8 [7] example_storage) = Inr True \<and>
   fst (lmdb_get chunk_hash True 8 (snd (lmdb_put chunk_hash example_put_env 8 [7] example_storage))) = Inr (Some [7])"
proof -
  have four: "(f ^^ 4) x = f (f (f (f x)))" for f :: "'a \<Rightarrow> 'a" and x by (simp add: numeral_eq_Suc)
  have size: "\<not> 600 * MIB < DEFAULT_DISK_RESERVE" "compute_map_size (Some GIB) 0 4096 DEFAULT_DISK_RESERVE = Inr 549453824"
    "(549453824 :: nat) \<noteq> MIN_MAP_SIZE" "max 549453824 MIN_MAP_SIZE = 549453824" "\<not> 549453824 \<le> MIN_MAP_SIZE"
    by (simp_all add: DEFAULT_DISK_RESERVE_def GIB_def MIB_def MIN_MAP_SIZE_def compute_map_size_def sat_add64_def u64_max_def)
  have run: "fst (lmdb_put chunk_hash example_put_env 8 [7] example_storage) = Inr True"
    unfolding lmdb_put_def four
    by (simp add: put_checks_def put_attempt_def put_resize_def try_resize_def try_put_def
        chunk_hash_def lmdb_exists_def check_disk_space_cached_def check_disk_space_def
        example_put_env_def example_storage_def default_storage_config_def size)
  obtain st' where st': "lmdb_put chunk_hash example_put_env 8 [7] example_storage = (Inr True, st')"
    using run by (metis prod.collapse)
  have empty: "ls_db example_storage = Map.empty" by (simp add: example_storage_def)
  from put_get_roundtrip [OF st'] show ?thesis by (simp add: st' content_addressed_def empty)
qed

end
