(* ===== verification/Verified_Cache.thy ===== *)
theory Verified_Cache
  imports Prelude
begin

text \<open>
  The cache of verified addresses (src/src/payment/cache.rs). The LRU container of the \<open>lru\<close> crate is
  a parameter: its operations, and \<open>lru_ok\<close> for what its documentation promises of them (a lookup
  returns the entry and changes none, a write is visible and can only evict other entries, iteration
  goes over the entries).
\<close>

section \<open>The container\<close>

record ('k, 'v, 'c) lru_ops =
  lru_new :: "nat \<Rightarrow> 'c"
  lru_peek :: "'c \<Rightarrow> 'k \<Rightarrow> 'v option"
  lru_get :: "'k \<Rightarrow> 'c \<Rightarrow> 'v option \<times> 'c"
  lru_set :: "'k \<Rightarrow> 'v \<Rightarrow> 'c \<Rightarrow> 'c"
  lru_put :: "'k \<Rightarrow> 'v \<Rightarrow> 'c \<Rightarrow> 'c"
  lru_len :: "'c \<Rightarrow> nat"
  lru_clear :: "'c \<Rightarrow> 'c"
  lru_iter :: "'c \<Rightarrow> ('k \<times> 'v) list"

definition lru_ok :: "('k, 'v, 'c) lru_ops \<Rightarrow> bool" where
  "lru_ok ops \<longleftrightarrow>
     (\<forall>cap k. lru_peek ops (lru_new ops cap) k = None) \<and>
     (\<forall>k c. fst (lru_get ops k c) = lru_peek ops c k \<and> lru_peek ops (snd (lru_get ops k c)) = lru_peek ops c) \<and>
     (\<forall>k v c. lru_peek ops c k \<noteq> None \<longrightarrow> lru_peek ops (lru_set ops k v c) = (lru_peek ops c)(k \<mapsto> v)) \<and>
     (\<forall>k v c. lru_peek ops (lru_put ops k v c) k = Some v) \<and>
     (\<forall>k v c j. j \<noteq> k \<longrightarrow> lru_peek ops (lru_put ops k v c) j \<in> {lru_peek ops c j, None}) \<and>
     (\<forall>c k. lru_peek ops (lru_clear ops c) k = None) \<and>
     (\<forall>c. distinct (map fst (lru_iter ops c)) \<and> map_of (lru_iter ops c) = lru_peek ops c)"

section \<open>The cache\<close>

definition DEFAULT_CACHE_CAPACITY :: nat where "DEFAULT_CACHE_CAPACITY = 100000"

datatype verification_level = PaidListLevel | ClientPutLevel

fun satisfies :: "verification_level \<Rightarrow> verification_level \<Rightarrow> bool" where
  "satisfies PaidListLevel PaidListLevel = True"
| "satisfies ClientPutLevel _ = True"
| "satisfies PaidListLevel ClientPutLevel = False"

type_synonym 'c level_lru = "(xor_name, verification_level, 'c) lru_ops"

record 'c verified_cache =
  vc_inner :: 'c
  vc_hits :: nat
  vc_misses :: nat
  vc_additions :: nat

record cache_stats =
  cst_hits :: nat
  cst_misses :: nat
  cst_additions :: nat

definition vc_with_capacity :: "'c level_lru \<Rightarrow> nat \<Rightarrow> 'c verified_cache" where
  "vc_with_capacity lru capacity =
     \<lparr>vc_inner = lru_new lru (max capacity 1), vc_hits = 0, vc_misses = 0, vc_additions = 0\<rparr>"

definition vc_new :: "'c level_lru \<Rightarrow> 'c verified_cache" where
  "vc_new lru = vc_with_capacity lru DEFAULT_CACHE_CAPACITY"

definition count_lookup :: "bool \<Rightarrow> 'c verified_cache \<Rightarrow> 'c verified_cache" where
  "count_lookup found vc = (if found then vc\<lparr>vc_hits := vc_hits vc + 1\<rparr> else vc\<lparr>vc_misses := vc_misses vc + 1\<rparr>)"

definition vc_contains :: "'c level_lru \<Rightarrow> xor_name \<Rightarrow> 'c verified_cache \<Rightarrow> bool \<times> 'c verified_cache" where
  "vc_contains lru xorname vc =
     (let (entry, inner) = lru_get lru xorname (vc_inner vc); found = (entry \<noteq> None)
      in (found, count_lookup found (vc\<lparr>vc_inner := inner\<rparr>)))"

definition contains_paid_list_verified :: "'c level_lru \<Rightarrow> xor_name \<Rightarrow> 'c verified_cache \<Rightarrow> bool \<times> 'c verified_cache" where
  "contains_paid_list_verified lru xorname vc =
     (let (entry, inner) = lru_get lru xorname (vc_inner vc);
          found = is_some_and entry (\<lambda>level. satisfies level PaidListLevel)
      in (found, count_lookup found (vc\<lparr>vc_inner := inner\<rparr>)))"

definition contains_client_put_verified :: "'c level_lru \<Rightarrow> xor_name \<Rightarrow> 'c verified_cache \<Rightarrow> bool \<times> 'c verified_cache" where
  "contains_client_put_verified lru xorname vc =
     (let (entry, inner) = lru_get lru xorname (vc_inner vc);
          found = is_some_and entry (\<lambda>level. satisfies level ClientPutLevel)
      in (found, count_lookup found (vc\<lparr>vc_inner := inner\<rparr>)))"

definition insert_with_level ::
  "'c level_lru \<Rightarrow> xor_name \<Rightarrow> verification_level \<Rightarrow> 'c verified_cache \<Rightarrow> 'c verified_cache" where
  "insert_with_level lru xorname level vc =
     (case lru_get lru xorname (vc_inner vc) of
        (Some existing, inner) \<Rightarrow>
          vc\<lparr>vc_inner := (if satisfies existing level then snd (lru_get lru xorname inner)
                          else lru_set lru xorname level inner)\<rparr>
      | (None, inner) \<Rightarrow>
          vc\<lparr>vc_inner := lru_put lru xorname level inner, vc_additions := vc_additions vc + 1\<rparr>)"

definition vc_insert :: "'c level_lru \<Rightarrow> xor_name \<Rightarrow> 'c verified_cache \<Rightarrow> 'c verified_cache" where
  "vc_insert lru xorname = insert_with_level lru xorname ClientPutLevel"

definition insert_paid_list_verified :: "'c level_lru \<Rightarrow> xor_name \<Rightarrow> 'c verified_cache \<Rightarrow> 'c verified_cache" where
  "insert_paid_list_verified lru xorname = insert_with_level lru xorname PaidListLevel"

definition cache_stats_of :: "'c verified_cache \<Rightarrow> cache_stats" where
  "cache_stats_of vc = \<lparr>cst_hits = vc_hits vc, cst_misses = vc_misses vc, cst_additions = vc_additions vc\<rparr>"

definition vc_len :: "'c level_lru \<Rightarrow> 'c verified_cache \<Rightarrow> nat" where
  "vc_len lru vc = lru_len lru (vc_inner vc)"

definition vc_is_empty :: "'c level_lru \<Rightarrow> 'c verified_cache \<Rightarrow> bool" where
  "vc_is_empty lru vc \<longleftrightarrow> lru_len lru (vc_inner vc) = 0"

definition vc_clear :: "'c level_lru \<Rightarrow> 'c verified_cache \<Rightarrow> 'c verified_cache" where
  "vc_clear lru vc = vc\<lparr>vc_inner := lru_clear lru (vc_inner vc)\<rparr>"

section \<open>What the cache knows\<close>

abbreviation level_of :: "'c level_lru \<Rightarrow> 'c verified_cache \<Rightarrow> xor_name \<Rightarrow> verification_level option" where
  "level_of lru vc \<equiv> lru_peek lru (vc_inner vc)"

lemma lru_okD:
  assumes "lru_ok ops"
  shows "fst (lru_get ops k c) = lru_peek ops c k" "lru_peek ops (snd (lru_get ops k c)) = lru_peek ops c"
    "lru_peek ops c k \<noteq> None \<Longrightarrow> lru_peek ops (lru_set ops k v c) = (lru_peek ops c)(k \<mapsto> v)"
    "lru_peek ops (lru_put ops k v c) k = Some v" "lru_peek ops (lru_new ops cap) k = None"
    "lru_peek ops (lru_clear ops c) k = None"
    "lru_peek ops (lru_put ops k v c) j = Some u \<Longrightarrow> j \<noteq> k \<Longrightarrow> lru_peek ops c j = Some u"
proof -
  show "lru_peek ops (lru_put ops k v c) j = Some u \<Longrightarrow> j \<noteq> k \<Longrightarrow> lru_peek ops c j = Some u"
    using assms unfolding lru_ok_def by (metis empty_iff insert_iff option.distinct(1))
qed (use assms in \<open>auto simp: lru_ok_def\<close>)

lemma count_lookup_inner [simp]: "vc_inner (count_lookup b vc) = vc_inner vc"
  by (simp add: count_lookup_def)

lemma lookup_keeps_levels:
  assumes "lru_ok lru"
  shows "level_of lru (snd (contains_client_put_verified lru x vc)) = level_of lru vc"
    "level_of lru (snd (contains_paid_list_verified lru x vc)) = level_of lru vc"
    "level_of lru (snd (vc_contains lru x vc)) = level_of lru vc"
  using lru_okD(2) [OF assms]
  by (simp_all add: contains_client_put_verified_def contains_paid_list_verified_def vc_contains_def split_beta Let_def)

lemma lookup_result:
  assumes "lru_ok lru"
  shows "fst (contains_client_put_verified lru x vc) \<longleftrightarrow> level_of lru vc x = Some ClientPutLevel"
    "fst (contains_paid_list_verified lru x vc) \<longleftrightarrow> level_of lru vc x \<noteq> None"
proof -
  have "is_some_and e (\<lambda>l. satisfies l ClientPutLevel) \<longleftrightarrow> e = Some ClientPutLevel"
    "is_some_and e (\<lambda>l. satisfies l PaidListLevel) \<longleftrightarrow> e \<noteq> None" for e
    by (cases e rule: option.exhaust; simp; metis satisfies.simps verification_level.exhaust)+
  then show "fst (contains_client_put_verified lru x vc) \<longleftrightarrow> level_of lru vc x = Some ClientPutLevel"
    "fst (contains_paid_list_verified lru x vc) \<longleftrightarrow> level_of lru vc x \<noteq> None"
    using lru_okD(1) [OF assms]
    by (simp_all add: contains_client_put_verified_def contains_paid_list_verified_def split_beta Let_def)
qed

lemma insert_existing:
  assumes "lru_ok lru" "level_of lru vc x = Some e"
  shows "level_of lru (insert_with_level lru x level vc) =
    (if satisfies e level then level_of lru vc else (level_of lru vc)(x \<mapsto> level))"
proof -
  obtain inner where g: "lru_get lru x (vc_inner vc) = (Some e, inner)" "lru_peek lru inner = level_of lru vc"
    using lru_okD(1,2) [OF assms(1), of x "vc_inner vc"] assms(2) by (metis prod.collapse)
  have "lru_peek lru (lru_set lru x level inner) = (level_of lru vc)(x \<mapsto> level)"
    using lru_okD(3) [OF assms(1), of inner x level] assms(2) by (simp add: g(2))
  then show ?thesis using lru_okD(2) [OF assms(1)] by (simp add: insert_with_level_def g)
qed

lemma insert_fresh:
  assumes "lru_ok lru" "level_of lru vc x = None"
  shows "level_of lru (insert_with_level lru x level vc) x = Some level"
    "level_of lru (insert_with_level lru x level vc) y = Some l \<Longrightarrow> y \<noteq> x \<Longrightarrow> level_of lru vc y = Some l"
proof -
  obtain inner where g: "lru_get lru x (vc_inner vc) = (None, inner)" "lru_peek lru inner = level_of lru vc"
    using lru_okD(1,2) [OF assms(1), of x "vc_inner vc"] assms(2) by (metis prod.collapse)
  have e: "vc_inner (insert_with_level lru x level vc) = lru_put lru x level inner"
    by (simp add: insert_with_level_def g(1))
  show "level_of lru (insert_with_level lru x level vc) x = Some level"
    unfolding e by (rule lru_okD(4) [OF assms(1)])
  show "level_of lru (insert_with_level lru x level vc) y = Some l \<Longrightarrow> y \<noteq> x \<Longrightarrow> level_of lru vc y = Some l"
    unfolding e g(2) [symmetric] by (rule lru_okD(7) [OF assms(1)])
qed

text \<open>An insertion raises the entry of its own key and adds nothing else.\<close>

lemma insert_levels:
  assumes "lru_ok lru" "level_of lru (insert_with_level lru x level vc) y = Some l"
  shows "level_of lru vc y = Some l \<or> y = x \<and> l = level"
proof (cases "level_of lru vc x")
  case None
  show ?thesis
  proof (cases "y = x")
    case True
    with assms(2) insert_fresh(1) [OF assms(1) None] show ?thesis by simp
  next
    case False
    with insert_fresh(2) [OF assms(1) None assms(2)] show ?thesis by simp
  qed
next
  case (Some e)
  with assms(2) insert_existing [OF assms(1) Some, of level] show ?thesis by (auto split: if_splits)
qed

lemma insert_present:
  assumes "lru_ok lru"
  shows "\<exists>l. level_of lru (insert_with_level lru x level vc) x = Some l \<and> satisfies l level"
proof (cases "level_of lru vc x")
  case None
  have "satisfies level level" by (cases level) auto
  with insert_fresh(1) [OF assms None] show ?thesis by blast
next
  case (Some e)
  have "satisfies level level" by (cases level) auto
  with insert_existing [OF assms Some, of level] Some show ?thesis by simp
qed

section \<open>An LRU list\<close>

text \<open>The documented behaviour on a list, most recently used first, with the capacity beside it.\<close>

definition list_lru :: "('k, 'v, nat \<times> ('k \<times> 'v) list) lru_ops" where
  "list_lru = \<lparr>lru_new = \<lambda>cap. (cap, []), lru_peek = \<lambda>(cap, es). map_of es,
     lru_get = \<lambda>k (cap, es). (case map_of es k of None \<Rightarrow> (None, (cap, es))
       | Some v \<Rightarrow> (Some v, (cap, (k, v) # filter (\<lambda>(j, _). j \<noteq> k) es))),
     lru_set = \<lambda>k v (cap, es). (cap, (k, v) # filter (\<lambda>(j, _). j \<noteq> k) es),
     lru_put = \<lambda>k v (cap, es). (cap, (k, v) # take (cap - 1) (filter (\<lambda>(j, _). j \<noteq> k) (AList.clearjunk es))),
     lru_len = \<lambda>(cap, es). length es, lru_clear = \<lambda>(cap, es). (cap, []),
     lru_iter = \<lambda>(cap, es). AList.clearjunk es\<rparr>"

lemma map_of_filter_key: "map_of (filter (\<lambda>(j, _). j \<noteq> k) es) = (map_of es)(k := None)"
  by (induction es) auto

lemma map_of_take: "map_of (take n es) j \<in> {map_of es j, None}"
proof -
  have "map_of es = map_of (take n es @ drop n es)" by simp
  then show ?thesis by (cases "map_of (take n es) j") (auto simp: map_add_def simp flip: append_take_drop_id split: option.splits)
qed

lemma list_lru_ok: "lru_ok (list_lru :: ('k, 'v, nat \<times> ('k \<times> 'v) list) lru_ops)"
proof -
  have *: "map_of (take n (filter (\<lambda>(j, _). j \<noteq> k) (AList.clearjunk es))) j = Some v \<Longrightarrow> map_of es j = Some v"
    for n k j v and es :: "('k \<times> 'v) list"
    using map_of_take [of n "filter (\<lambda>(j, _). j \<noteq> k) (AList.clearjunk es)" j]
    by (auto simp: map_of_filter_key map_of_clearjunk split: if_splits)
  show ?thesis
    by (auto simp: lru_ok_def list_lru_def map_of_filter_key fun_eq_iff map_of_clearjunk distinct_clearjunk
        split: option.splits dest: * [THEN sym])
qed

end
