(* ===== verification/Payment_Verifier.thy ===== *)
theory Payment_Verifier
  imports Verified_Cache Commitment_State Config
begin

text \<open>
  Payment verification (src/src/payment/verifier.rs), in the production configuration. The chain, the
  DHT, the decoding and the signature checks of other crates are the fields of \<open>pay_env\<close>, given for
  each call; amounts are 256-bit words whose multiplication wraps, as the amount type of the payment
  crate documents. Of the concurrent closeness checks a call sees only what the leader of the same
  pool publishes. What a call sends on channels, reports and spawns is appended to lists in the state.
\<close>

section \<open>Data\<close>

type_synonym amount = "256 word"

definition MIN_PAYMENT_PROOF_SIZE_BYTES :: nat where "MIN_PAYMENT_PROOF_SIZE_BYTES = 32"

definition MAX_PAYMENT_PROOF_SIZE_BYTES :: nat where "MAX_PAYMENT_PROOF_SIZE_BYTES = 524288"

definition PAID_QUOTE_PAYMENT_MULTIPLIER :: amount where "PAID_QUOTE_PAYMENT_MULTIPLIER = 3"

definition PAID_QUOTE_ISSUER_CLOSENESS_WIDTH :: nat where "PAID_QUOTE_ISSUER_CLOSENESS_WIDTH = K_BUCKET_SIZE"

definition QUOTE_ARITHMETIC_RECHECK_ENABLED :: bool where "QUOTE_ARITHMETIC_RECHECK_ENABLED = False"

definition QUOTE_COMMITMENT_MISMATCH_TRUST_ENABLED :: bool where "QUOTE_COMMITMENT_MISMATCH_TRUST_ENABLED = False"

definition MAX_PIN_FETCHES_PER_BUNDLE :: nat where "MAX_PIN_FETCHES_PER_BUNDLE = 3"

definition CANDIDATE_CLOSENESS_REQUIRED :: nat where "CANDIDATE_CLOSENESS_REQUIRED = 9"

definition MAX_LEADER_RETRIES :: nat where "MAX_LEADER_RETRIES = 1"

datatype verification_context = ClientPut | PaidListAdmission

datatype payment_status = CachedAsVerified | PaymentRequired | PaymentVerified

definition can_store :: "payment_status \<Rightarrow> bool" where
  "can_store status \<longleftrightarrow> status = CachedAsVerified \<or> status = PaymentVerified"

definition is_cached :: "payment_status \<Rightarrow> bool" where
  "is_cached status \<longleftrightarrow> status = CachedAsVerified"

datatype cross_check = CrossMatch | CrossMismatch nat nat | PinDoesNotResolve

text \<open>The types of the payment crates, as far as the verifier reads them; Merkle proofs are opaque bytes.\<close>

record payment_quote =
  pq_content :: xor_name
  pq_timestamp :: nat
  pq_price :: amount
  pq_rewards_address :: nat
  pq_committed_key_count :: nat
  pq_commitment_pin :: "hash32 option"
  pq_pub_key :: bytes
  pq_signature :: bytes

type_synonym proof_of_payment = "(peer_id \<times> payment_quote) list"

record single_node_proof =
  sp_proof_of_payment :: proof_of_payment
  sp_tx_hashes :: "hash32 list"
  sp_commitment_sidecars :: "bytes list"

record merkle_candidate =
  mc_pub_key :: bytes
  mc_price :: amount
  mc_reward_address :: nat
  mc_payment_timestamp :: nat
  mc_committed_key_count :: nat
  mc_commitment_pin :: "hash32 option"
  mc_signature :: bytes

record merkle_pool =
  mp_candidate_nodes :: "merkle_candidate list"
  mp_midpoint_proof :: bytes

record merkle_payment_proof =
  mk_address :: xor_name
  mk_data_proof :: bytes
  mk_winner_pool :: merkle_pool
  mk_commitment_sidecars :: "bytes list"

record on_chain_info =
  oc_depth :: nat
  oc_timestamp :: nat
  oc_paid_nodes :: "(nat \<times> nat \<times> amount) list"

datatype proof_type = SingleNodeType | MerkleType | FutureType

datatype lookup_result = LookupPeers "peer_id list" | LookupFailed | LookupTimeout


record monetized_pin_event =
  me_peer :: peer_id
  me_pin :: hash32
  me_key_count :: nat
  me_quote_ts :: nat

type_synonym unresolved_pin = "peer_id \<times> hash32 \<times> nat \<times> bytes"

datatype payment_error =
    ProofTooSmall | ProofTooLarge | ProofUndecodable | UnknownProofType | UnsupportedProofType | PaymentMissing
  | NoQuotes | TooManyQuotes | DuplicatePeer | OffCurveQuote | MissingMedian | AmountOverflow | ZeroPrice
  | ContentMismatch | InvalidPublicKey | PeerBindingMismatch | NotWiredToP2P | IssuerNotClosest
  | InvalidSignature | ChainLookupFailed | NotPaidEnough | NoMedianCandidateVerified
  | AddressMismatch | DuplicateCandidate | NetworkLookupFailed | NetworkLookupTimeout | SparseNetwork
  | CandidatesNotClosest | LeaderFailed | TimestampMismatch | MerkleProofInvalid | WrongPaidNodeCount
  | DepthTooLarge | PaidIndexOutOfBounds | RewardAddressMismatch | Underpayment | UnexpectedStatus

text \<open>Another task that is checking the same pool: none, one that published its result, or one that
  disappeared without publishing.\<close>

datatype leader = NoLeader | LeaderPublished "payment_error + unit" | LeaderVanished

record pay_env =
  ev_detect_proof_type :: "bytes \<Rightarrow> proof_type option"
  ev_deserialize_single_node :: "bytes \<Rightarrow> single_node_proof option"
  ev_deserialize_merkle :: "bytes \<Rightarrow> merkle_payment_proof option"
  ev_verify_quote_content :: "payment_quote \<Rightarrow> xor_name \<Rightarrow> bool"
  ev_verify_quote_signature :: "payment_quote \<Rightarrow> bool"
  ev_verify_candidate_signature :: "merkle_candidate \<Rightarrow> bool"
  ev_peer_id_of_key :: "bytes \<Rightarrow> peer_id option"
  ev_quote_hash :: "payment_quote \<Rightarrow> hash32"
  ev_completed_payments :: "hash32 \<Rightarrow> amount option"
  ev_calculate_price :: "nat \<Rightarrow> amount"
  ev_derive_records :: "amount \<Rightarrow> nat"
  ev_close_group_size :: nat
  ev_candidates_per_pool :: nat
  ev_max_key_count :: nat
  ev_max_sidecar_bytes :: nat
  ev_closest_by_distance :: "(xor_name \<Rightarrow> nat \<Rightarrow> peer_id list) option"
  ev_find_closest_network :: "xor_name \<Rightarrow> nat \<Rightarrow> lookup_result"
  ev_leader :: "hash32 \<Rightarrow> nat \<Rightarrow> leader"
  ev_pool_hash :: "merkle_payment_proof \<Rightarrow> hash32"
  ev_midpoint_address :: "bytes \<Rightarrow> xor_name"
  ev_midpoint_root :: "bytes \<Rightarrow> hash32"
  ev_verify_merkle_proof :: "xor_name \<Rightarrow> bytes \<Rightarrow> bytes \<Rightarrow> nat \<Rightarrow> hash32 \<Rightarrow> nat \<Rightarrow> bool"
  ev_merkle_payment :: "hash32 \<Rightarrow> on_chain_info option"
  ev_b3 :: "bytes \<Rightarrow> hash32"
  ev_commitment_hash :: "storage_commitment \<Rightarrow> hash32 option"
  ev_verify_commitment_signature :: "storage_commitment \<Rightarrow> bool"
  ev_parse_commitment :: "bytes \<Rightarrow> storage_commitment option"
  ev_quote_bytes :: "payment_quote \<Rightarrow> bytes"
  ev_candidate_bytes :: "merkle_candidate \<Rightarrow> bytes"
  ev_commitment_cache :: "(peer_id \<rightharpoonup> peer_commitment_record) option"
  ev_monetized_attached :: bool
  ev_now :: instant

record ('a, 'b, 'c) verifier_lrus =
  lr_cache :: "'a level_lru"
  lr_pool :: "(hash32, on_chain_info, 'b) lru_ops"
  lr_pass :: "(hash32, unit, 'c) lru_ops"

record ('a, 'b, 'c) verifier =
  pv_cache :: "'a verified_cache"
  pv_pool_cache :: 'b
  pv_closeness_pass :: 'c
  pv_monetized_pins :: "monetized_pin_event list"
  pv_trust_reports :: "peer_id list"
  pv_pin_fetches :: "unresolved_pin list list"

definition DEFAULT_POOL_CACHE_CAPACITY :: nat where "DEFAULT_POOL_CACHE_CAPACITY = 1000"

definition verifier_new :: "('a, 'b, 'c) verifier_lrus \<Rightarrow> nat \<Rightarrow> ('a, 'b, 'c) verifier" where
  "verifier_new lr cache_capacity =
     \<lparr>pv_cache = vc_with_capacity (lr_cache lr) cache_capacity,
      pv_pool_cache = lru_new (lr_pool lr) DEFAULT_POOL_CACHE_CAPACITY,
      pv_closeness_pass = lru_new (lr_pass lr) DEFAULT_POOL_CACHE_CAPACITY,
      pv_monetized_pins = [], pv_trust_reports = [], pv_pin_fetches = []\<rparr>"

section \<open>The price rule\<close>

definition usize_max :: nat where "usize_max = 2 ^ 64 - 1"

definition candidate_count_to_usize :: "nat \<Rightarrow> nat" where
  "candidate_count_to_usize n = (if n \<le> usize_max then n else usize_max)"

text \<open>Whether the binding of a count, a pin and a price breaks the rule; the diagnostic text is left out.\<close>

definition binding_violation :: "pay_env \<Rightarrow> nat \<Rightarrow> hash32 option \<Rightarrow> amount \<Rightarrow> bool" where
  "binding_violation env committed_key_count commitment_pin price =
     (if committed_key_count \<noteq> 0 \<and> commitment_pin = None then True
      else if committed_key_count = 0 \<and> commitment_pin \<noteq> None then True
      else if committed_key_count > ev_max_key_count env then True
      else ev_calculate_price env (candidate_count_to_usize committed_key_count) \<noteq> price)"

definition quote_arithmetic_violation :: "pay_env \<Rightarrow> payment_quote \<Rightarrow> bool" where
  "quote_arithmetic_violation env q =
     binding_violation env (pq_committed_key_count q) (pq_commitment_pin q) (pq_price q)"

definition validate_quote_arithmetic :: "pay_env \<Rightarrow> proof_of_payment \<Rightarrow> payment_error + unit" where
  "validate_quote_arithmetic env payment =
     (if \<not> QUOTE_ARITHMETIC_RECHECK_ENABLED then Inr ()
      else if (\<exists>(p, q)\<in>set payment. quote_arithmetic_violation env q) then Inl OffCurveQuote
      else Inr ())"

definition validate_merkle_candidate_arithmetic :: "pay_env \<Rightarrow> merkle_pool \<Rightarrow> payment_error + unit" where
  "validate_merkle_candidate_arithmetic env pool =
     (if \<not> QUOTE_ARITHMETIC_RECHECK_ENABLED then Inr ()
      else if (\<exists>c\<in>set (mp_candidate_nodes pool).
                 binding_violation env (mc_committed_key_count c) (mc_commitment_pin c) (mc_price c))
      then Inl OffCurveQuote
      else Inr ())"

definition price_off_curve_diagnostics :: "pay_env \<Rightarrow> amount \<Rightarrow> (nat \<times> amount) option" where
  "price_off_curve_diagnostics env price =
     (let candidate_count = ev_derive_records env price;
          recomputed = ev_calculate_price env (candidate_count_to_usize candidate_count)
      in if recomputed = price then None else Some (candidate_count, recomputed))"

definition quote_price_is_on_curve :: "pay_env \<Rightarrow> amount \<Rightarrow> bool" where
  "quote_price_is_on_curve env price = (price_off_curve_diagnostics env price = None)"

section \<open>Single-node payments\<close>

fun duplicate_peer :: "proof_of_payment \<Rightarrow> peer_id list \<Rightarrow> bool" where
  "duplicate_peer [] seen = False"
| "duplicate_peer ((p, _) # quotes) seen = (if p \<in> set seen then True else duplicate_peer quotes (seen @ [p]))"

definition validate_quote_structure :: "pay_env \<Rightarrow> proof_of_payment \<Rightarrow> payment_error + unit" where
  "validate_quote_structure env payment =
     (if payment = [] then Inl NoQuotes
      else if length payment > ev_close_group_size env then Inl TooManyQuotes
      else if duplicate_peer payment [] then Inl DuplicatePeer
      else Inr ())"

definition median_quote_index :: "nat \<Rightarrow> nat" where
  "median_quote_index quote_count = quote_count div 2"

definition checked_mul256 :: "amount \<Rightarrow> amount \<Rightarrow> amount option" where
  "checked_mul256 a b = (if unat a * unat b < 2 ^ 256 then Some (a * b) else None)"

definition legacy_median_candidates ::
  "proof_of_payment \<Rightarrow> payment_error + (peer_id \<times> payment_quote \<times> amount) list" where
  "legacy_median_candidates payment =
     (let sorted_quotes = sort_key (\<lambda>(_, q). pq_price q) payment;
          median_index = median_quote_index (length sorted_quotes)
      in if median_index \<ge> length sorted_quotes then Inl MissingMedian
         else let median_price = pq_price (snd (sorted_quotes ! median_index))
              in case checked_mul256 median_price PAID_QUOTE_PAYMENT_MULTIPLIER of
                   None \<Rightarrow> Inl AmountOverflow
                 | Some expected_amount \<Rightarrow>
                     if expected_amount = 0 \<or> median_price = 0 then Inl ZeroPrice
                     else Inr (map (\<lambda>(p, q). (p, q, expected_amount))
                       (filter (\<lambda>(_, q). pq_price q = median_price) sorted_quotes)))"

definition validate_paid_quote_peer_binding :: "pay_env \<Rightarrow> peer_id \<Rightarrow> payment_quote \<Rightarrow> payment_error + peer_id" where
  "validate_paid_quote_peer_binding env encoded_peer_id q =
     (case ev_peer_id_of_key env (pq_pub_key q) of
        None \<Rightarrow> Inl InvalidPublicKey
      | Some expected_peer_id \<Rightarrow>
          if expected_peer_id \<noteq> encoded_peer_id then Inl PeerBindingMismatch else Inr expected_peer_id)"

definition validate_paid_quote_issuer_k_closest :: "pay_env \<Rightarrow> xor_name \<Rightarrow> peer_id \<Rightarrow> payment_error + unit" where
  "validate_paid_quote_issuer_k_closest env xorname issuer =
     (case ev_closest_by_distance env of
        None \<Rightarrow> Inl NotWiredToP2P
      | Some closest \<Rightarrow>
          if issuer \<in> set (closest xorname PAID_QUOTE_ISSUER_CLOSENESS_WIDTH) then Inr () else Inl IssuerNotClosest)"

definition verify_legacy_median_candidate ::
  "pay_env \<Rightarrow> xor_name \<Rightarrow> peer_id \<times> payment_quote \<times> amount \<Rightarrow> payment_error + unit" where
  "verify_legacy_median_candidate env xorname = (\<lambda>(encoded_peer_id, q, expected_amount).
     if \<not> ev_verify_quote_content env q xorname then Inl ContentMismatch
     else case validate_paid_quote_peer_binding env encoded_peer_id q of
       Inl e \<Rightarrow> Inl e
     | Inr issuer \<Rightarrow>
         (case validate_paid_quote_issuer_k_closest env xorname issuer of
            Inl e \<Rightarrow> Inl e
          | Inr _ \<Rightarrow>
              if \<not> ev_verify_quote_signature env q then Inl InvalidSignature
              else case ev_completed_payments env (ev_quote_hash env q) of
                None \<Rightarrow> Inl ChainLookupFailed
              | Some on_chain_amount \<Rightarrow>
                  if on_chain_amount \<ge> expected_amount then Inr () else Inl NotPaidEnough))"

section \<open>The cross-check of quotes against commitments\<close>

definition cross_check_binding :: "pay_env \<Rightarrow> nat \<Rightarrow> hash32 \<Rightarrow> storage_commitment \<Rightarrow> cross_check" where
  "cross_check_binding env quoted_key_count quoted_pin commitment =
     (if ev_commitment_hash env commitment = Some quoted_pin
      then if sc_key_count commitment = quoted_key_count then CrossMatch
           else CrossMismatch quoted_key_count (sc_key_count commitment)
      else PinDoesNotResolve)"

definition fresh_cached_commitment ::
  "peer_commitment_record \<Rightarrow> hash32 \<Rightarrow> instant \<Rightarrow> duration \<Rightarrow> storage_commitment option" where
  "fresh_cached_commitment rec pin now ttl =
     (if now - pc_received_at rec \<ge> ttl then None
      else if pc_cached_hash rec \<noteq> Some pin then None
      else pc_last_commitment rec)"

definition cache_resolve :: "pay_env \<Rightarrow> peer_id \<Rightarrow> hash32 \<Rightarrow> storage_commitment option" where
  "cache_resolve env peer pin =
     (case ev_commitment_cache env of
        None \<Rightarrow> None
      | Some cache \<Rightarrow>
          (case cache peer of
             None \<Rightarrow> None
           | Some rec \<Rightarrow> fresh_cached_commitment rec pin (ev_now env) GOSSIP_ANSWERABILITY_TTL))"

definition fetched_commitment_is_valid :: "pay_env \<Rightarrow> storage_commitment \<Rightarrow> peer_id \<Rightarrow> hash32 \<Rightarrow> bool" where
  "fetched_commitment_is_valid env commitment peer pin \<longleftrightarrow>
     sc_sender_peer_id commitment = peer \<and>
     ev_b3 env (sc_sender_public_key commitment) = sc_sender_peer_id commitment \<and>
     ev_verify_commitment_signature env commitment \<and>
     ev_commitment_hash env commitment = Some pin"

definition add_sidecar ::
  "pay_env \<Rightarrow> bytes \<Rightarrow> (peer_id \<times> hash32 \<rightharpoonup> storage_commitment) \<Rightarrow> (peer_id \<times> hash32 \<rightharpoonup> storage_commitment)" where
  "add_sidecar env blob m =
     (if length blob > ev_max_sidecar_bytes env then m
      else case ev_parse_commitment env blob of
        None \<Rightarrow> m
      | Some commitment \<Rightarrow>
          (case ev_commitment_hash env commitment of
             None \<Rightarrow> m
           | Some pin \<Rightarrow>
               if fetched_commitment_is_valid env commitment (sc_sender_peer_id commitment) pin
               then m((sc_sender_peer_id commitment, pin) \<mapsto> commitment) else m))"

definition index_valid_sidecars :: "pay_env \<Rightarrow> bytes list \<Rightarrow> (peer_id \<times> hash32 \<rightharpoonup> storage_commitment)" where
  "index_valid_sidecars env sidecars = fold (add_sidecar env) (take (ev_candidates_per_pool env) sidecars) Map.empty"

definition emit_mismatch_evidence :: "bool \<Rightarrow> peer_id \<Rightarrow> peer_id list \<Rightarrow> peer_id list" where
  "emit_mismatch_evidence p2p_attached peer trust =
     (if QUOTE_COMMITMENT_MISMATCH_TRUST_ENABLED then if p2p_attached then trust @ [peer] else trust else trust)"

definition handle_cross_check ::
  "pay_env \<Rightarrow> bool \<Rightarrow> peer_id \<Rightarrow> hash32 \<Rightarrow> nat \<Rightarrow> bytes \<Rightarrow> storage_commitment \<Rightarrow> peer_id list \<Rightarrow> peer_id list" where
  "handle_cross_check env p2p_attached peer pin quoted_key_count artifact commitment trust =
     (case cross_check_binding env quoted_key_count pin commitment of
        CrossMismatch _ _ \<Rightarrow> if artifact = [] then trust else emit_mismatch_evidence p2p_attached peer trust
      | _ \<Rightarrow> trust)"

text \<open>One quote or candidate that pins a commitment: the event, the inline resolution, or the fetch.\<close>

definition cross_check_item ::
  "pay_env \<Rightarrow> (peer_id \<times> hash32 \<rightharpoonup> storage_commitment) \<Rightarrow> peer_id \<Rightarrow> hash32 option \<Rightarrow> nat \<Rightarrow> nat \<Rightarrow> bytes \<Rightarrow>
     ('a, 'b, 'c) verifier \<times> unresolved_pin list \<Rightarrow> ('a, 'b, 'c) verifier \<times> unresolved_pin list" where
  "cross_check_item env sidecar_map peer commitment_pin quoted_count quote_ts artifact = (\<lambda>(st, unresolved).
     case commitment_pin of
       None \<Rightarrow> (st, unresolved)
     | Some pin \<Rightarrow>
         let st1 = (if ev_monetized_attached env
               then st\<lparr>pv_monetized_pins := pv_monetized_pins st @
                      [\<lparr>me_peer = peer, me_pin = pin, me_key_count = quoted_count, me_quote_ts = quote_ts\<rparr>]\<rparr>
               else st);
             resolved = (case sidecar_map (peer, pin) of Some c \<Rightarrow> Some c | None \<Rightarrow> cache_resolve env peer pin)
         in case resolved of
              Some commitment \<Rightarrow>
                (st1\<lparr>pv_trust_reports := handle_cross_check env (ev_closest_by_distance env \<noteq> None) peer pin quoted_count
                       artifact commitment (pv_trust_reports st1)\<rparr>, unresolved)
            | None \<Rightarrow> (st1, unresolved @ [(peer, pin, quoted_count, artifact)]))"

definition spawn_pin_fetches ::
  "pay_env \<Rightarrow> ('a, 'b, 'c) verifier \<times> unresolved_pin list \<Rightarrow> ('a, 'b, 'c) verifier" where
  "spawn_pin_fetches env = (\<lambda>(st, unresolved).
     if unresolved = [] then st
     else if ev_closest_by_distance env = None then st
     else st\<lparr>pv_pin_fetches := pv_pin_fetches st @ [unresolved]\<rparr>)"

definition cross_check_quotes ::
  "pay_env \<Rightarrow> proof_of_payment \<Rightarrow> bytes list \<Rightarrow> ('a, 'b, 'c) verifier \<Rightarrow> ('a, 'b, 'c) verifier" where
  "cross_check_quotes env payment sidecars st =
     (let sidecar_map = index_valid_sidecars env sidecars
      in spawn_pin_fetches env (fold (\<lambda>(peer, q). cross_check_item env sidecar_map peer (pq_commitment_pin q)
           (pq_committed_key_count q) (pq_timestamp q) (ev_quote_bytes env q)) payment (st, [])))"

text \<open>A system time of so many seconds after the epoch, which is the epoch itself out of range.\<close>

definition epoch_plus_secs :: "nat \<Rightarrow> nat" where
  "epoch_plus_secs secs = (if secs < 2 ^ 63 then from_secs secs else 0)"

definition cross_check_merkle_candidates ::
  "pay_env \<Rightarrow> merkle_pool \<Rightarrow> bytes list \<Rightarrow> ('a, 'b, 'c) verifier \<Rightarrow> ('a, 'b, 'c) verifier" where
  "cross_check_merkle_candidates env pool sidecars st =
     (let sidecar_map = index_valid_sidecars env sidecars
      in spawn_pin_fetches env (fold (\<lambda>c. cross_check_item env sidecar_map (ev_b3 env (mc_pub_key c)) (mc_commitment_pin c)
           (mc_committed_key_count c) (epoch_plus_secs (mc_payment_timestamp c)) (ev_candidate_bytes env c))
           (mp_candidate_nodes pool) (st, [])))"

text \<open>The detached task: \<open>fetch\<close> is what a peer answers to a request for a pin. It returns the negative
  cache, the reports and how many requests were made.\<close>

definition fetch_commitment_by_pin ::
  "pay_env \<Rightarrow> (peer_id \<Rightarrow> hash32 \<Rightarrow> storage_commitment option) \<Rightarrow> peer_id \<Rightarrow> hash32 \<Rightarrow> storage_commitment option" where
  "fetch_commitment_by_pin env fetch peer pin =
     (case fetch peer pin of
        None \<Rightarrow> None
      | Some commitment \<Rightarrow> if fetched_commitment_is_valid env commitment peer pin then Some commitment else None)"

fun drain_unresolved_pin_fetches ::
  "pay_env \<Rightarrow> (peer_id \<times> hash32, unit, 'n) lru_ops \<Rightarrow> (peer_id \<Rightarrow> hash32 \<Rightarrow> storage_commitment option) \<Rightarrow>
     unresolved_pin list \<Rightarrow> nat \<Rightarrow> 'n \<times> peer_id list \<Rightarrow> nat \<times> 'n \<times> peer_id list" where
  "drain_unresolved_pin_fetches env neg fetch [] fetched s = (fetched, s)"
| "drain_unresolved_pin_fetches env neg fetch ((peer, pin, quoted_count, artifact) # rest) fetched (nc, trust) =
     (if fetched \<ge> MAX_PIN_FETCHES_PER_BUNDLE then (fetched, nc, trust)
      else
        let (hit, nc1) = lru_get neg (peer, pin) nc
        in if hit \<noteq> None then drain_unresolved_pin_fetches env neg fetch rest fetched (nc1, trust)
           else drain_unresolved_pin_fetches env neg fetch rest (fetched + 1)
             (case fetch_commitment_by_pin env fetch peer pin of
                Some commitment \<Rightarrow> (nc1, handle_cross_check env True peer pin quoted_count artifact commitment trust)
              | None \<Rightarrow> (lru_put neg (peer, pin) () nc1, trust)))"

fun first_verified :: "pay_env \<Rightarrow> xor_name \<Rightarrow> (peer_id \<times> payment_quote \<times> amount) list \<Rightarrow> bool" where
  "first_verified env xorname [] = False"
| "first_verified env xorname (c # cs) =
     (case verify_legacy_median_candidate env xorname c of Inr _ \<Rightarrow> True | Inl _ \<Rightarrow> first_verified env xorname cs)"

definition verify_evm_payment ::
  "pay_env \<Rightarrow> xor_name \<Rightarrow> proof_of_payment \<Rightarrow> bytes list \<Rightarrow> verification_context \<Rightarrow> ('a, 'b, 'c) verifier \<Rightarrow>
     (payment_error + unit) \<times> ('a, 'b, 'c) verifier" where
  "verify_evm_payment env xorname payment sidecars context st =
     (case validate_quote_structure env payment of
        Inl e \<Rightarrow> (Inl e, st)
      | Inr _ \<Rightarrow>
          (case validate_quote_arithmetic env payment of
             Inl e \<Rightarrow> (Inl e, st)
           | Inr _ \<Rightarrow>
               (case legacy_median_candidates payment of
                  Inl e \<Rightarrow> (Inl e, st)
                | Inr candidates \<Rightarrow>
                    if \<not> first_verified env xorname candidates then (Inl NoMedianCandidateVerified, st)
                    else (Inr (), if context = ClientPut then cross_check_quotes env payment sidecars st else st))))"

section \<open>Merkle batch payments\<close>

fun derive_distinct_candidate_peer_ids ::
  "pay_env \<Rightarrow> merkle_candidate list \<Rightarrow> peer_id list \<Rightarrow> payment_error + peer_id list" where
  "derive_distinct_candidate_peer_ids env [] seen = Inr seen"
| "derive_distinct_candidate_peer_ids env (c # cs) seen =
     (case ev_peer_id_of_key env (mc_pub_key c) of
        None \<Rightarrow> Inl InvalidPublicKey
      | Some pid \<Rightarrow>
          if pid \<in> set seen then Inl DuplicateCandidate
          else derive_distinct_candidate_peer_ids env cs (seen @ [pid]))"

definition CLOSENESS_LOOKUP_WIDTH :: "pay_env \<Rightarrow> nat" where
  "CLOSENESS_LOOKUP_WIDTH env = 2 * ev_candidates_per_pool env"

definition closeness_lookup_count :: "pay_env \<Rightarrow> nat \<Rightarrow> nat" where
  "closeness_lookup_count env pool_len =
     (if CLOSENESS_LOOKUP_WIDTH env > pool_len then CLOSENESS_LOOKUP_WIDTH env else pool_len)"

definition check_closeness_match :: "peer_id list \<Rightarrow> peer_id list \<Rightarrow> payment_error + unit" where
  "check_closeness_match candidate_peer_ids network_peer_ids =
     (if length network_peer_ids < CANDIDATE_CLOSENESS_REQUIRED then Inl SparseNetwork
      else if length (filter (\<lambda>pid. pid \<in> set network_peer_ids) candidate_peer_ids) < CANDIDATE_CLOSENESS_REQUIRED
      then Inl CandidatesNotClosest
      else Inr ())"

definition verify_merkle_candidate_closeness_inner :: "pay_env \<Rightarrow> merkle_pool \<Rightarrow> payment_error + unit" where
  "verify_merkle_candidate_closeness_inner env pool =
     (case derive_distinct_candidate_peer_ids env (mp_candidate_nodes pool) [] of
        Inl e \<Rightarrow> Inl e
      | Inr candidate_peer_ids \<Rightarrow>
          if ev_closest_by_distance env = None then Inl NotWiredToP2P
          else case ev_find_closest_network env (ev_midpoint_address env (mp_midpoint_proof pool))
                 (closeness_lookup_count env (length (mp_candidate_nodes pool))) of
            LookupFailed \<Rightarrow> Inl NetworkLookupFailed
          | LookupTimeout \<Rightarrow> Inl NetworkLookupTimeout
          | LookupPeers network_peer_ids \<Rightarrow> check_closeness_match candidate_peer_ids network_peer_ids)"

text \<open>The attempts after the fast path; \<open>left\<close> counts the attempts that remain.\<close>

fun closeness_attempts ::
  "pay_env \<Rightarrow> ('a, 'b, 'c) verifier_lrus \<Rightarrow> merkle_pool \<Rightarrow> hash32 \<Rightarrow> nat \<Rightarrow> ('a, 'b, 'c) verifier \<Rightarrow>
     (payment_error + unit) \<times> ('a, 'b, 'c) verifier" where
  "closeness_attempts env lr pool pool_hash left st =
     (case ev_leader env pool_hash (MAX_LEADER_RETRIES - left) of
        LeaderPublished result \<Rightarrow> (result, st)
      | LeaderVanished \<Rightarrow>
          (case left of 0 \<Rightarrow> (Inl LeaderFailed, st) | Suc n \<Rightarrow> closeness_attempts env lr pool pool_hash n st)
      | NoLeader \<Rightarrow>
          (case verify_merkle_candidate_closeness_inner env pool of
             Inl e \<Rightarrow> (Inl e, st)
           | Inr _ \<Rightarrow> (Inr (), st\<lparr>pv_closeness_pass := lru_put (lr_pass lr) pool_hash () (pv_closeness_pass st)\<rparr>)))"

declare closeness_attempts.simps [simp del]

definition verify_merkle_candidate_closeness ::
  "pay_env \<Rightarrow> ('a, 'b, 'c) verifier_lrus \<Rightarrow> merkle_pool \<Rightarrow> hash32 \<Rightarrow> ('a, 'b, 'c) verifier \<Rightarrow>
     (payment_error + unit) \<times> ('a, 'b, 'c) verifier" where
  "verify_merkle_candidate_closeness env lr pool pool_hash st =
     (let (hit, pass) = lru_get (lr_pass lr) pool_hash (pv_closeness_pass st);
          st1 = st\<lparr>pv_closeness_pass := pass\<rparr>
      in if hit \<noteq> None then (Inr (), st1)
         else closeness_attempts env lr pool pool_hash MAX_LEADER_RETRIES st1)"

definition pool_payment_info ::
  "pay_env \<Rightarrow> ('a, 'b, 'c) verifier_lrus \<Rightarrow> hash32 \<Rightarrow> ('a, 'b, 'c) verifier \<Rightarrow>
     (payment_error + on_chain_info) \<times> ('a, 'b, 'c) verifier" where
  "pool_payment_info env lr pool_hash st =
     (let (hit, pool_cache) = lru_get (lr_pool lr) pool_hash (pv_pool_cache st);
          st1 = st\<lparr>pv_pool_cache := pool_cache\<rparr>
      in case hit of
           Some info \<Rightarrow> (Inr info, st1)
         | None \<Rightarrow>
             (case ev_merkle_payment env pool_hash of
                None \<Rightarrow> (Inl ChainLookupFailed, st1)
              | Some info \<Rightarrow> (Inr info, st1\<lparr>pv_pool_cache := lru_put (lr_pool lr) pool_hash info (pv_pool_cache st1)\<rparr>)))"

text \<open>The amount per paid node; the product of the median price and the number of leaves wraps.\<close>

definition expected_per_node :: "merkle_candidate list \<Rightarrow> nat \<Rightarrow> payment_error + amount" where
  "expected_per_node candidates depth =
     (if depth > 0
      then let prices = sort (map mc_price candidates)
           in if length prices div 2 \<ge> length prices then Inl MissingMedian
              else if depth \<ge> 64 then Inl DepthTooLarge
              else Inr ((prices ! (length prices div 2) * word_of_nat (2 ^ depth)) div word_of_nat depth)
      else Inr 0)"

fun check_paid_nodes :: "merkle_candidate list \<Rightarrow> amount \<Rightarrow> (nat \<times> nat \<times> amount) list \<Rightarrow> payment_error + unit" where
  "check_paid_nodes candidates per_node [] = Inr ()"
| "check_paid_nodes candidates per_node ((addr, idx, paid_amount) # rest) =
     (if idx \<ge> length candidates then Inl PaidIndexOutOfBounds
      else if mc_reward_address (candidates ! idx) \<noteq> addr then Inl RewardAddressMismatch
      else if paid_amount < per_node then Inl Underpayment
      else check_paid_nodes candidates per_node rest)"

definition check_on_chain :: "pay_env \<Rightarrow> merkle_payment_proof \<Rightarrow> on_chain_info \<Rightarrow> payment_error + unit" where
  "check_on_chain env proof info =
     (let pool = mk_winner_pool proof; candidates = mp_candidate_nodes pool
      in if (\<exists>c\<in>set candidates. mc_payment_timestamp c \<noteq> oc_timestamp info) then Inl TimestampMismatch
         else if \<not> ev_verify_merkle_proof env (mk_address proof) (mk_data_proof proof) (mp_midpoint_proof pool)
                     (oc_depth info) (ev_midpoint_root env (mp_midpoint_proof pool)) (oc_timestamp info)
         then Inl MerkleProofInvalid
         else if length (oc_paid_nodes info) \<noteq> oc_depth info then Inl WrongPaidNodeCount
         else case expected_per_node candidates (oc_depth info) of
           Inl e \<Rightarrow> Inl e
         | Inr per_node \<Rightarrow> check_paid_nodes candidates per_node (oc_paid_nodes info))"

definition verify_merkle_payment ::
  "pay_env \<Rightarrow> ('a, 'b, 'c) verifier_lrus \<Rightarrow> xor_name \<Rightarrow> bytes \<Rightarrow> verification_context \<Rightarrow> ('a, 'b, 'c) verifier \<Rightarrow>
     (payment_error + unit) \<times> ('a, 'b, 'c) verifier" where
  "verify_merkle_payment env lr xorname proof_bytes context st =
     (case ev_deserialize_merkle env proof_bytes of
        None \<Rightarrow> (Inl ProofUndecodable, st)
      | Some proof \<Rightarrow>
          let pool = mk_winner_pool proof; pool_hash = ev_pool_hash env proof
          in if mk_address proof \<noteq> xorname then (Inl AddressMismatch, st)
             else if (\<exists>c\<in>set (mp_candidate_nodes pool). \<not> ev_verify_candidate_signature env c)
             then (Inl InvalidSignature, st)
             else case validate_merkle_candidate_arithmetic env pool of
               Inl e \<Rightarrow> (Inl e, st)
             | Inr _ \<Rightarrow>
                 (case verify_merkle_candidate_closeness env lr pool pool_hash st of
                    (Inl e, st1) \<Rightarrow> (Inl e, st1)
                  | (Inr _, st1) \<Rightarrow>
                      (case pool_payment_info env lr pool_hash st1 of
                         (Inl e, st2) \<Rightarrow> (Inl e, st2)
                       | (Inr info, st2) \<Rightarrow>
                           (case check_on_chain env proof info of
                              Inl e \<Rightarrow> (Inl e, st2)
                            | Inr _ \<Rightarrow>
                                (Inr (), if context = ClientPut
                                   then cross_check_merkle_candidates env pool (mk_commitment_sidecars proof) st2
                                   else st2)))))"

section \<open>The entry point\<close>

definition check_payment_required ::
  "('a, 'b, 'c) verifier_lrus \<Rightarrow> xor_name \<Rightarrow> verification_context \<Rightarrow> ('a, 'b, 'c) verifier \<Rightarrow>
     payment_status \<times> ('a, 'b, 'c) verifier" where
  "check_payment_required lr xorname context st =
     (let (cached, vc) = (case context of
            ClientPut \<Rightarrow> contains_client_put_verified (lr_cache lr) xorname (pv_cache st)
          | PaidListAdmission \<Rightarrow> contains_paid_list_verified (lr_cache lr) xorname (pv_cache st))
      in (if cached then CachedAsVerified else PaymentRequired, st\<lparr>pv_cache := vc\<rparr>))"

definition verify_proof ::
  "pay_env \<Rightarrow> ('a, 'b, 'c) verifier_lrus \<Rightarrow> xor_name \<Rightarrow> bytes \<Rightarrow> verification_context \<Rightarrow> ('a, 'b, 'c) verifier \<Rightarrow>
     (payment_error + unit) \<times> ('a, 'b, 'c) verifier" where
  "verify_proof env lr xorname proof context st =
     (if length proof < MIN_PAYMENT_PROOF_SIZE_BYTES then (Inl ProofTooSmall, st)
      else if length proof > MAX_PAYMENT_PROOF_SIZE_BYTES then (Inl ProofTooLarge, st)
      else case ev_detect_proof_type env proof of
        Some MerkleType \<Rightarrow> verify_merkle_payment env lr xorname proof context st
      | Some SingleNodeType \<Rightarrow>
          (case ev_deserialize_single_node env proof of
             None \<Rightarrow> (Inl ProofUndecodable, st)
           | Some parsed \<Rightarrow>
               verify_evm_payment env xorname (sp_proof_of_payment parsed) (sp_commitment_sidecars parsed) context st)
      | None \<Rightarrow> (Inl UnknownProofType, st)
      | Some FutureType \<Rightarrow> (Inl UnsupportedProofType, st))"

definition verify_payment_inner ::
  "pay_env \<Rightarrow> ('a, 'b, 'c) verifier_lrus \<Rightarrow> xor_name \<Rightarrow> bytes option \<Rightarrow> verification_context \<Rightarrow> ('a, 'b, 'c) verifier \<Rightarrow>
     (payment_error + payment_status) \<times> ('a, 'b, 'c) verifier" where
  "verify_payment_inner env lr xorname payment_proof context st =
     (case check_payment_required lr xorname context st of
        (PaymentRequired, st1) \<Rightarrow>
          (case payment_proof of
             None \<Rightarrow> (Inl PaymentMissing, st1)
           | Some proof \<Rightarrow>
               (case verify_proof env lr xorname proof context st1 of
                  (Inl e, st2) \<Rightarrow> (Inl e, st2)
                | (Inr _, st2) \<Rightarrow>
                    (Inr PaymentVerified,
                     st2\<lparr>pv_cache := (case context of
                       ClientPut \<Rightarrow> vc_insert (lr_cache lr) xorname (pv_cache st2)
                     | PaidListAdmission \<Rightarrow> insert_paid_list_verified (lr_cache lr) xorname (pv_cache st2))\<rparr>)))
      | (CachedAsVerified, st1) \<Rightarrow> (Inr CachedAsVerified, st1)
      | (PaymentVerified, st1) \<Rightarrow> (Inl UnexpectedStatus, st1))"

text \<open>The outer function only measures and logs.\<close>

definition verify_payment ::
  "pay_env \<Rightarrow> ('a, 'b, 'c) verifier_lrus \<Rightarrow> xor_name \<Rightarrow> bytes option \<Rightarrow> verification_context \<Rightarrow> ('a, 'b, 'c) verifier \<Rightarrow>
     (payment_error + payment_status) \<times> ('a, 'b, 'c) verifier" where
  "verify_payment env lr xorname payment_proof context st =
     verify_payment_inner env lr xorname payment_proof context st"

section \<open>The median\<close>

definition upper_median :: "amount \<Rightarrow> amount list \<Rightarrow> bool" where
  "upper_median m ps \<longleftrightarrow> m \<in> set ps \<and> length (filter (\<lambda>p. p < m) ps) \<le> length ps div 2 \<and>
     length ps div 2 < length (filter (\<lambda>p. p \<le> m) ps)"

lemma sorted_nth_counts:
  assumes "sorted xs" "i < length xs"
  shows "length (filter (\<lambda>x. x < xs ! i) xs) \<le> i" "i < length (filter (\<lambda>x. x \<le> xs ! i) xs)"
proof -
  have "filter (\<lambda>x. x < xs ! i) (drop i xs) = []"
    using assms sorted_nth_mono by (fastforce simp: filter_empty_conv in_set_conv_nth not_less)
  moreover have "filter (\<lambda>x. x < xs ! i) xs = filter (\<lambda>x. x < xs ! i) (take i xs) @ filter (\<lambda>x. x < xs ! i) (drop i xs)"
    by (metis append_take_drop_id filter_append)
  ultimately show "length (filter (\<lambda>x. x < xs ! i) xs) \<le> i"
    by (metis append_Nil2 length_filter_le length_take min.cobounded2 order_trans)
  have "filter (\<lambda>x. x \<le> xs ! i) (take (Suc i) xs) = take (Suc i) xs"
    using assms sorted_nth_mono [OF assms(1)] by (fastforce simp: filter_id_conv in_set_conv_nth)
  moreover have "filter (\<lambda>x. x \<le> xs ! i) xs = filter (\<lambda>x. x \<le> xs ! i) (take (Suc i) xs) @ filter (\<lambda>x. x \<le> xs ! i) (drop (Suc i) xs)"
    by (metis append_take_drop_id filter_append)
  ultimately show "i < length (filter (\<lambda>x. x \<le> xs ! i) xs)" using assms(2) by simp
qed

lemma mset_filter_length: "mset xs = mset ys \<Longrightarrow> length (filter P xs) = length (filter P ys)"
  by (metis mset_filter size_mset)

lemma upper_median_sort:
  assumes "ps \<noteq> []" shows "upper_median (sort ps ! (length ps div 2)) ps"
proof -
  have i: "length ps div 2 < length (sort ps)" using assms by simp
  have "length (filter P (sort ps)) = length (filter P ps)" for P by (rule mset_filter_length) simp
  with sorted_nth_counts [OF sorted_sort i] nth_mem [OF i] show ?thesis by (simp add: upper_median_def)
qed

lemma median_candidates:
  assumes "legacy_median_candidates payment = Inr cs" "(p, q, amt) \<in> set cs"
  shows "(p, q) \<in> set payment \<and> upper_median (pq_price q) (map (pq_price \<circ> snd) payment) \<and> pq_price q \<noteq> 0 \<and>
    unat amt = 3 * unat (pq_price q)"
proof -
  let ?s = "sort_key (\<lambda>(_, q). pq_price q) payment" and ?ps = "map (pq_price \<circ> snd) payment"
  have key: "(\<lambda>(_ :: peer_id, q). pq_price q) = pq_price \<circ> snd" by auto
  from assms(1) have ne: "payment \<noteq> []"
    by (auto simp: legacy_median_candidates_def Let_def median_quote_index_def)
  then have i: "length payment div 2 < length payment" by simp
  have "sort ?ps = map (pq_price \<circ> snd) ?s"
    unfolding key by (rule properties_for_sort) (simp_all only: mset_map mset_sort sorted_sort_key)
  then have m: "pq_price (snd (?s ! (length payment div 2))) = sort ?ps ! (length ?ps div 2)"
    using i by simp
  have "\<exists>e. checked_mul256 (sort ?ps ! (length ?ps div 2)) PAID_QUOTE_PAYMENT_MULTIPLIER = Some e \<and>
      sort ?ps ! (length ?ps div 2) \<noteq> 0 \<and> amt = e \<and> (p, q) \<in> set payment \<and> pq_price q = sort ?ps ! (length ?ps div 2)"
    using assms i m by (auto simp: legacy_median_candidates_def Let_def median_quote_index_def split: option.splits if_splits)
  then obtain e where e: "checked_mul256 (pq_price q) PAID_QUOTE_PAYMENT_MULTIPLIER = Some e" "amt = e" "pq_price q \<noteq> 0"
    "(p, q) \<in> set payment" "pq_price q = sort ?ps ! (length ?ps div 2)" by auto
  have "unat (pq_price q) * unat (3 :: amount) < 2 ^ 256" "e = pq_price q * 3"
    using e(1) by (auto simp: checked_mul256_def PAID_QUOTE_PAYMENT_MULTIPLIER_def split: if_splits)
  then have "unat amt = 3 * unat (pq_price q)" using e(2) by (simp add: unat_word_ariths)
  with e upper_median_sort [of ?ps] ne show ?thesis by simp
qed

section \<open>What the cross-check changes\<close>

text \<open>Appends to the channel and to the spawned tasks, and nothing else.\<close>

definition only_appends :: "('a, 'b, 'c) verifier \<Rightarrow> ('a, 'b, 'c) verifier \<Rightarrow> bool" where
  "only_appends st st' \<longleftrightarrow> (\<exists>evs fs. st' = st\<lparr>pv_monetized_pins := pv_monetized_pins st @ evs,
     pv_pin_fetches := pv_pin_fetches st @ fs\<rparr>)"

lemma only_appends_refl [simp]: "only_appends st st"
  unfolding only_appends_def by (rule exI [of _ "[]"], rule exI [of _ "[]"]) simp

lemma only_appends_trans: "only_appends a b \<Longrightarrow> only_appends b c \<Longrightarrow> only_appends a c"
  unfolding only_appends_def by (elim exE, hypsubst) (rule exI, rule exI, simp)

lemma no_mismatch_report [simp]: "handle_cross_check env b peer pin n artifact c trust = trust"
  by (simp add: handle_cross_check_def emit_mismatch_evidence_def QUOTE_COMMITMENT_MISMATCH_TRUST_ENABLED_def
      split: cross_check.splits)

lemma item_appends: "only_appends st (fst (cross_check_item env m peer pin n ts artifact (st, us)))"
proof -
  have "only_appends st (st\<lparr>pv_monetized_pins := pv_monetized_pins st @ [e]\<rparr>)" for e
    unfolding only_appends_def by (rule exI [of _ "[e]"], rule exI [of _ "[]"]) simp
  then show ?thesis by (auto simp: cross_check_item_def Let_def split: option.splits)
qed

lemma fold_items_append:
  assumes "\<And>x s. only_appends (fst s) (fst (f x s))"
  shows "only_appends (fst s) (fst (fold f xs s))"
proof (induction xs arbitrary: s)
  case (Cons x xs)
  show ?case using only_appends_trans [OF assms Cons] by simp
qed simp

lemma cross_check_appends:
  "only_appends st (cross_check_quotes env payment sidecars st)"
  "only_appends st (cross_check_merkle_candidates env pool sidecars st)"
proof -
  have spawn: "only_appends (fst s) (spawn_pin_fetches env s)" for s :: "('a, 'b, 'c) verifier \<times> unresolved_pin list"
  proof -
    obtain v us where s: "s = (v, us)" by (cases s)
    have "only_appends v (v\<lparr>pv_pin_fetches := pv_pin_fetches v @ [us]\<rparr>)"
      unfolding only_appends_def by (rule exI [of _ "[]"], rule exI [of _ "[us]"]) simp
    then show ?thesis by (simp add: s spawn_pin_fetches_def)
  qed
  have item: "only_appends (fst s) (fst (cross_check_item env m peer pin n ts artifact s))"
    for m peer pin n ts artifact and s :: "('a, 'b, 'c) verifier \<times> unresolved_pin list"
    using item_appends by (metis prod.collapse)
  show "only_appends st (cross_check_quotes env payment sidecars st)"
    unfolding cross_check_quotes_def Let_def
    by (rule only_appends_trans [OF _ spawn], rule fold_items_append [where s = "(st, [])", simplified])
      (simp add: split_beta item)
  show "only_appends st (cross_check_merkle_candidates env pool sidecars st)"
    unfolding cross_check_merkle_candidates_def Let_def
    by (rule only_appends_trans [OF _ spawn], rule fold_items_append [where s = "(st, [])", simplified]) (rule item)
qed

lemma only_appends_caches:
  assumes "only_appends st st'"
  shows "pv_cache st' = pv_cache st" "pv_pool_cache st' = pv_pool_cache st"
    "pv_closeness_pass st' = pv_closeness_pass st" "pv_trust_reports st' = pv_trust_reports st"
  using assms by (auto simp: only_appends_def)

section \<open>What a verified proof shows\<close>

definition single_node_backed :: "pay_env \<Rightarrow> xor_name \<Rightarrow> proof_of_payment \<Rightarrow> bool" where
  "single_node_backed env x payment \<longleftrightarrow> (\<exists>(p, q)\<in>set payment.
     ev_verify_quote_content env q x \<and> ev_peer_id_of_key env (pq_pub_key q) = Some p \<and>
     (\<exists>closest. ev_closest_by_distance env = Some closest \<and> p \<in> set (closest x K_BUCKET_SIZE)) \<and>
     ev_verify_quote_signature env q \<and>
     upper_median (pq_price q) (map (pq_price \<circ> snd) payment) \<and> pq_price q \<noteq> 0 \<and>
     (\<exists>amt. ev_completed_payments env (ev_quote_hash env q) = Some amt \<and> 3 * unat (pq_price q) \<le> unat amt))"

definition merkle_backed :: "pay_env \<Rightarrow> xor_name \<Rightarrow> merkle_payment_proof \<Rightarrow> on_chain_info \<Rightarrow> bool" where
  "merkle_backed env x proof info \<longleftrightarrow>
     (let pool = mk_winner_pool proof; candidates = mp_candidate_nodes pool; prices = map mc_price candidates
      in mk_address proof = x \<and>
         (\<forall>c\<in>set candidates. ev_verify_candidate_signature env c \<and> mc_payment_timestamp c = oc_timestamp info) \<and>
         ev_verify_merkle_proof env x (mk_data_proof proof) (mp_midpoint_proof pool) (oc_depth info)
           (ev_midpoint_root env (mp_midpoint_proof pool)) (oc_timestamp info) \<and>
         length (oc_paid_nodes info) = oc_depth info \<and>
         (\<forall>(addr, idx, amt)\<in>set (oc_paid_nodes info). idx < length candidates \<and> mc_reward_address (candidates ! idx) = addr \<and>
            oc_depth info < 64 \<and>
            (\<exists>m. upper_median m prices \<and> (m * word_of_nat (2 ^ oc_depth info)) div word_of_nat (oc_depth info) \<le> amt)))"

definition close_pool :: "pay_env \<Rightarrow> merkle_pool \<Rightarrow> bool" where
  "close_pool env pool \<longleftrightarrow> (\<exists>peers.
     ev_find_closest_network env (ev_midpoint_address env (mp_midpoint_proof pool))
       (closeness_lookup_count env (length (mp_candidate_nodes pool))) = LookupPeers peers \<and>
     CANDIDATE_CLOSENESS_REQUIRED \<le>
       card {p \<in> set peers. \<exists>c\<in>set (mp_candidate_nodes pool). ev_peer_id_of_key env (mc_pub_key c) = Some p})"

lemma first_verified_ex:
  "first_verified env x cs \<Longrightarrow> \<exists>c\<in>set cs. verify_legacy_median_candidate env x c = Inr ()"
  by (induction cs) (auto split: sum.splits)

lemma verify_evm_backed:
  assumes "verify_evm_payment env x payment sidecars context st = (Inr (), st')"
  shows "single_node_backed env x payment"
proof -
  from assms obtain cs where cs: "legacy_median_candidates payment = Inr cs" and "first_verified env x cs"
    by (auto simp: verify_evm_payment_def split: sum.splits if_splits)
  then obtain p q amt where c: "(p, q, amt) \<in> set cs" "verify_legacy_median_candidate env x (p, q, amt) = Inr ()"
    using first_verified_ex by (metis prod_cases3)
  note m = median_candidates [OF cs c(1)]
  have "\<exists>paid. ev_completed_payments env (ev_quote_hash env q) = Some paid \<and> amt \<le> paid"
    using c(2) by (auto simp: verify_legacy_median_candidate_def split: sum.splits option.splits if_splits)
  then obtain paid where "ev_completed_payments env (ev_quote_hash env q) = Some paid" "3 * unat (pq_price q) \<le> unat paid"
    using m by (metis word_le_nat_alt)
  with m c(2) show ?thesis
    by (auto simp: single_node_backed_def verify_legacy_median_candidate_def validate_paid_quote_peer_binding_def
        validate_paid_quote_issuer_k_closest_def PAID_QUOTE_ISSUER_CLOSENESS_WIDTH_def
        split: sum.splits option.splits if_splits intro!: bexI [of _ "(p, q)"])
qed

lemma derived_ids:
  assumes "derive_distinct_candidate_peer_ids env cs seen = Inr ids" "distinct seen"
  shows "distinct ids \<and> set ids = set seen \<union> {p. \<exists>c\<in>set cs. ev_peer_id_of_key env (mc_pub_key c) = Some p}"
  using assms
proof (induction cs arbitrary: seen)
  case (Cons c cs)
  then obtain pid where pid: "ev_peer_id_of_key env (mc_pub_key c) = Some pid" "pid \<notin> set seen"
    "derive_distinct_candidate_peer_ids env cs (seen @ [pid]) = Inr ids"
    by (auto split: option.splits if_splits)
  with Cons.IH [OF pid(3)] Cons.prems(2) show ?case by auto
qed auto

lemma inner_close:
  assumes "verify_merkle_candidate_closeness_inner env pool = Inr ()" shows "close_pool env pool"
proof -
  from assms obtain ids peers where ids: "derive_distinct_candidate_peer_ids env (mp_candidate_nodes pool) [] = Inr ids"
    and peers: "ev_find_closest_network env (ev_midpoint_address env (mp_midpoint_proof pool))
       (closeness_lookup_count env (length (mp_candidate_nodes pool))) = LookupPeers peers"
    and m: "CANDIDATE_CLOSENESS_REQUIRED \<le> length (filter (\<lambda>p. p \<in> set peers) ids)"
    by (auto simp: verify_merkle_candidate_closeness_inner_def check_closeness_match_def
        split: sum.splits if_splits lookup_result.splits)
  have d: "distinct ids" and s: "set ids = {p. \<exists>c\<in>set (mp_candidate_nodes pool). ev_peer_id_of_key env (mc_pub_key c) = Some p}"
    using derived_ids [OF ids] by simp_all
  have "length (filter (\<lambda>p. p \<in> set peers) ids) = card (set (filter (\<lambda>p. p \<in> set peers) ids))"
    by (rule distinct_card [OF distinct_filter [OF d], symmetric])
  also have "set (filter (\<lambda>p. p \<in> set peers) ids) =
      {p \<in> set peers. \<exists>c\<in>set (mp_candidate_nodes pool). ev_peer_id_of_key env (mc_pub_key c) = Some p}"
    using s by auto
  finally show ?thesis using m peers by (auto simp: close_pool_def)
qed

lemma check_paid_nodes_ok:
  "check_paid_nodes cs per paid = Inr () \<Longrightarrow>
     \<forall>(addr, idx, amt)\<in>set paid. idx < length cs \<and> mc_reward_address (cs ! idx) = addr \<and> per \<le> amt"
  by (induction cs per paid rule: check_paid_nodes.induct) (auto split: if_splits)

lemma check_on_chain_backed:
  assumes "check_on_chain env proof info = Inr ()" "mk_address proof = x"
    "\<forall>c\<in>set (mp_candidate_nodes (mk_winner_pool proof)). ev_verify_candidate_signature env c"
  shows "merkle_backed env x proof info"
proof -
  let ?cs = "mp_candidate_nodes (mk_winner_pool proof)"
  from assms(1) obtain per where per: "expected_per_node ?cs (oc_depth info) = Inr per"
    and paid: "check_paid_nodes ?cs per (oc_paid_nodes info) = Inr ()"
    and len: "length (oc_paid_nodes info) = oc_depth info"
    by (auto simp: check_on_chain_def Let_def split: if_splits sum.splits)
  have med: "oc_depth info < 64 \<and> (\<exists>m. upper_median m (map mc_price ?cs) \<and>
      (m * word_of_nat (2 ^ oc_depth info)) div word_of_nat (oc_depth info) = per)" if "oc_paid_nodes info \<noteq> []"
  proof -
    have d: "oc_depth info > 0" using that len by (metis length_greater_0_conv)
    with per have ne: "?cs \<noteq> []" and "oc_depth info < 64"
      and "(sort (map mc_price ?cs) ! (length (map mc_price ?cs) div 2) * word_of_nat (2 ^ oc_depth info)) div
        word_of_nat (oc_depth info) = per"
      by (auto simp: expected_per_node_def Let_def split: if_splits)
    with upper_median_sort [of "map mc_price ?cs"] show ?thesis by auto
  qed
  have base: "\<forall>c\<in>set ?cs. mc_payment_timestamp c = oc_timestamp info"
    "ev_verify_merkle_proof env (mk_address proof) (mk_data_proof proof) (mp_midpoint_proof (mk_winner_pool proof))
       (oc_depth info) (ev_midpoint_root env (mp_midpoint_proof (mk_winner_pool proof))) (oc_timestamp info)"
    using assms(1) by (auto simp: check_on_chain_def Let_def split: if_splits)
  have nodes: "idx < length ?cs \<and> mc_reward_address (?cs ! idx) = addr \<and> oc_depth info < 64 \<and>
      (\<exists>m. upper_median m (map mc_price ?cs) \<and> (m * word_of_nat (2 ^ oc_depth info)) div word_of_nat (oc_depth info) \<le> amt)"
    if "(addr, idx, amt) \<in> set (oc_paid_nodes info)" for addr idx amt
  proof -
    have "idx < length ?cs \<and> mc_reward_address (?cs ! idx) = addr \<and> per \<le> amt"
      using check_paid_nodes_ok [OF paid] that by auto
    moreover from that have "oc_paid_nodes info \<noteq> []" by auto
    ultimately show ?thesis using med by auto
  qed
  show ?thesis
    unfolding merkle_backed_def Let_def using base nodes assms(2,3) len by blast
qed

section \<open>Histories\<close>

type_synonym call = "pay_env \<times> xor_name \<times> bytes option \<times> verification_context"

fun run_calls :: "('a, 'b, 'c) verifier_lrus \<Rightarrow> call list \<Rightarrow> ('a, 'b, 'c) verifier \<Rightarrow> ('a, 'b, 'c) verifier" where
  "run_calls lr [] st = st"
| "run_calls lr ((env, x, proof, context) # calls) st =
     run_calls lr calls (snd (verify_payment env lr x proof context st))"

text \<open>
  \<open>E\<close> stands for the environments in which the calls of this node run. A result that another task
  publishes comes from the same check in one of them.
\<close>

definition pool_checked :: "pay_env set \<Rightarrow> hash32 \<Rightarrow> bool" where
  "pool_checked E h \<longleftrightarrow> (\<exists>env\<in>E. \<exists>proof. ev_pool_hash env proof = h \<and> close_pool env (mk_winner_pool proof))"

definition leaders_sound :: "pay_env set \<Rightarrow> bool" where
  "leaders_sound E \<longleftrightarrow> (\<forall>env\<in>E. \<forall>h n. ev_leader env h n = LeaderPublished (Inr ()) \<longrightarrow> pool_checked E h)"

definition on_chain :: "pay_env set \<Rightarrow> hash32 \<Rightarrow> on_chain_info \<Rightarrow> bool" where
  "on_chain E h info \<longleftrightarrow> (\<exists>env\<in>E. ev_merkle_payment env h = Some info)"

definition proof_backed :: "pay_env set \<Rightarrow> pay_env \<Rightarrow> xor_name \<Rightarrow> bytes \<Rightarrow> bool" where
  "proof_backed E env x proof \<longleftrightarrow>
     (\<exists>parsed. ev_deserialize_single_node env proof = Some parsed \<and> single_node_backed env x (sp_proof_of_payment parsed)) \<or>
     (\<exists>mp info. ev_deserialize_merkle env proof = Some mp \<and> merkle_backed env x mp info \<and>
        on_chain E (ev_pool_hash env mp) info \<and> pool_checked E (ev_pool_hash env mp))"

definition admitted_by :: "pay_env set \<Rightarrow> verification_level \<Rightarrow> xor_name \<Rightarrow> call \<Rightarrow> bool" where
  "admitted_by E level x = (\<lambda>(env, x', proof, context). x' = x \<and>
     (level = ClientPutLevel \<longrightarrow> context = ClientPut) \<and> (\<exists>p. proof = Some p \<and> proof_backed E env x p))"

definition caches_ok :: "('a, 'b, 'c) verifier_lrus \<Rightarrow> pay_env set \<Rightarrow> ('a, 'b, 'c) verifier \<Rightarrow> bool" where
  "caches_ok lr E st \<longleftrightarrow>
     (\<forall>h info. lru_peek (lr_pool lr) (pv_pool_cache st) h = Some info \<longrightarrow> on_chain E h info) \<and>
     (\<forall>h u. lru_peek (lr_pass lr) (pv_closeness_pass st) h = Some u \<longrightarrow> pool_checked E h)"

definition lrus_ok :: "('a, 'b, 'c) verifier_lrus \<Rightarrow> bool" where
  "lrus_ok lr \<longleftrightarrow> lru_ok (lr_cache lr) \<and> lru_ok (lr_pool lr) \<and> lru_ok (lr_pass lr)"

lemma caches_ok_appends: "only_appends st st' \<Longrightarrow> caches_ok lr E st \<Longrightarrow> caches_ok lr E st'"
  by (simp add: caches_ok_def only_appends_caches)

lemma put_keeps:
  assumes "lru_ok ops" "\<forall>h v. lru_peek ops c h = Some v \<longrightarrow> P h v" "P k u"
  shows "\<forall>h v. lru_peek ops (lru_put ops k u c) h = Some v \<longrightarrow> P h v"
proof (intro allI impI)
  fix h v assume "lru_peek ops (lru_put ops k u c) h = Some v"
  then have "h = k \<and> v = u \<or> lru_peek ops c h = Some v"
    using lru_okD(4) [OF assms(1), of k u c] lru_okD(7) [OF assms(1), of k u c h v] by (cases "h = k") simp_all
  with assms(2,3) show "P h v" by blast
qed

lemma lead_ok:
  assumes "lrus_ok lr" "env \<in> E" "caches_ok lr E st" "close_pool env (mk_winner_pool proof)"
  shows "caches_ok lr E (st\<lparr>pv_closeness_pass := lru_put (lr_pass lr) (ev_pool_hash env proof) () (pv_closeness_pass st)\<rparr>) \<and>
    pool_checked E (ev_pool_hash env proof)"
proof -
  have "pool_checked E (ev_pool_hash env proof)" using assms(2,4) by (auto simp: pool_checked_def)
  with put_keeps [of "lr_pass lr" "pv_closeness_pass st" "\<lambda>h _. pool_checked E h" "ev_pool_hash env proof" "()"] assms(1,3)
  show ?thesis by (simp add: caches_ok_def lrus_ok_def)
qed

lemma attempt_ok:
  assumes "lrus_ok lr" "env \<in> E" "leaders_sound E" "caches_ok lr E st"
    "closeness_attempts env lr (mk_winner_pool proof) (ev_pool_hash env proof) left st = (r, st')"
    "ev_leader env (ev_pool_hash env proof) (MAX_LEADER_RETRIES - left) = LeaderVanished \<Longrightarrow> left = 0"
  shows "caches_ok lr E st' \<and> (\<exists>c. st' = st\<lparr>pv_closeness_pass := c\<rparr>) \<and> (r = Inr () \<longrightarrow> pool_checked E (ev_pool_hash env proof))"
proof -
  have same: "\<exists>c. st = st\<lparr>pv_closeness_pass := c\<rparr>" by (rule exI [of _ "pv_closeness_pass st"]) simp
  note run = assms(5) [unfolded closeness_attempts.simps [of _ _ _ _ left]]
  show ?thesis
  proof (cases "ev_leader env (ev_pool_hash env proof) (MAX_LEADER_RETRIES - left)")
    case NoLeader
    show ?thesis
    proof (cases "verify_merkle_candidate_closeness_inner env (mk_winner_pool proof)")
      case (Inl e)
      with run NoLeader assms(4) same show ?thesis by auto
    next
      case (Inr u)
      then have "close_pool env (mk_winner_pool proof)" by (simp add: inner_close)
      with run NoLeader Inr lead_ok [OF assms(1,2,4)] show ?thesis by auto
    qed
  next
    case (LeaderPublished q)
    with run assms(2,3,4) same show ?thesis by (auto simp: leaders_sound_def)
  next
    case LeaderVanished
    with run assms(4,6) same show ?thesis by auto
  qed
qed

lemma attempts_ok:
  assumes "lrus_ok lr" "env \<in> E" "leaders_sound E" "caches_ok lr E st"
    "closeness_attempts env lr (mk_winner_pool proof) (ev_pool_hash env proof) left st = (r, st')"
  shows "caches_ok lr E st' \<and> (\<exists>c. st' = st\<lparr>pv_closeness_pass := c\<rparr>) \<and> (r = Inr () \<longrightarrow> pool_checked E (ev_pool_hash env proof))"
  using assms(5)
proof (induction left)
  case 0
  then show ?case by (rule attempt_ok [OF assms(1-4)]) simp
next
  case (Suc n)
  show ?case
  proof (cases "ev_leader env (ev_pool_hash env proof) (MAX_LEADER_RETRIES - Suc n) = LeaderVanished")
    case True
    with Suc.prems have "closeness_attempts env lr (mk_winner_pool proof) (ev_pool_hash env proof) n st = (r, st')"
      by (simp add: closeness_attempts.simps [of _ _ _ _ "Suc n"])
    then show ?thesis by (rule Suc.IH)
  next
    case False
    with Suc.prems show ?thesis by (intro attempt_ok [OF assms(1-4), of "proof" "Suc n"]) simp_all
  qed
qed

lemma get_keeps:
  assumes "lru_ok ops" "lru_get ops k c = (hit, c')"
  shows "lru_peek ops c' = lru_peek ops c" "hit = lru_peek ops c k"
  using lru_okD(1,2) [OF assms(1), of k c] assms(2) by simp_all

lemma closeness_ok:
  assumes "lrus_ok lr" "env \<in> E" "leaders_sound E" "caches_ok lr E st"
    "verify_merkle_candidate_closeness env lr (mk_winner_pool proof) (ev_pool_hash env proof) st = (r, st')"
  shows "caches_ok lr E st' \<and> (\<exists>c. st' = st\<lparr>pv_closeness_pass := c\<rparr>) \<and> (r = Inr () \<longrightarrow> pool_checked E (ev_pool_hash env proof))"
proof -
  obtain hit pass where g: "lru_get (lr_pass lr) (ev_pool_hash env proof) (pv_closeness_pass st) = (hit, pass)" by fastforce
  have ok: "lru_ok (lr_pass lr)" using assms(1) by (simp add: lrus_ok_def)
  note k = get_keeps [OF ok g]
  have c1: "caches_ok lr E (st\<lparr>pv_closeness_pass := pass\<rparr>)" using assms(4) k by (simp add: caches_ok_def)
  show ?thesis
  proof (cases hit)
    case None
    with assms(5) g attempts_ok [OF assms(1-3) c1, of "proof" MAX_LEADER_RETRIES r st'] show ?thesis
      by (auto simp: verify_merkle_candidate_closeness_def)
  next
    case (Some u)
    with assms(4) k have "pool_checked E (ev_pool_hash env proof)" by (auto simp: caches_ok_def)
    with assms(5) g c1 Some show ?thesis by (auto simp: verify_merkle_candidate_closeness_def)
  qed
qed

lemma pool_info_ok:
  assumes "lrus_ok lr" "env \<in> E" "caches_ok lr E st" "pool_payment_info env lr h st = (r, st')"
  shows "caches_ok lr E st' \<and> (\<exists>b. st' = st\<lparr>pv_pool_cache := b\<rparr>) \<and> (\<forall>info. r = Inr info \<longrightarrow> on_chain E h info)"
proof -
  obtain hit b where g: "lru_get (lr_pool lr) h (pv_pool_cache st) = (hit, b)" by fastforce
  have ok: "lru_ok (lr_pool lr)" using assms(1) by (simp add: lrus_ok_def)
  note k = get_keeps [OF ok g]
  have c1: "caches_ok lr E (st\<lparr>pv_pool_cache := b\<rparr>)" using assms(3) k by (simp add: caches_ok_def)
  show ?thesis
  proof (cases "hit = None \<and> ev_merkle_payment env h \<noteq> None")
    case True
    then obtain info where i: "ev_merkle_payment env h = Some info" by auto
    then have oc: "on_chain E h info" using assms(2) by (auto simp: on_chain_def)
    have "caches_ok lr E (st\<lparr>pv_pool_cache := lru_put (lr_pool lr) h info b\<rparr>)"
      using put_keeps [of "lr_pool lr" b "on_chain E" h info] ok oc c1 by (simp add: caches_ok_def)
    with assms(4) g True i oc show ?thesis by (auto simp: pool_payment_info_def)
  next
    case False
    then consider info where "hit = Some info" | "hit = None" "ev_merkle_payment env h = None" by fastforce
    then show ?thesis
    proof cases
      case 1
      with assms(3) k have "on_chain E h info" by (auto simp: caches_ok_def)
      with 1 assms(4) g c1 show ?thesis by (auto simp: pool_payment_info_def)
    next
      case 2
      with assms(4) g c1 show ?thesis by (auto simp: pool_payment_info_def)
    qed
  qed
qed

text \<open>A call to \<open>verify_proof\<close>: the tables stay sound, the address cache is left alone, nothing is
  reported, and success means that the proof is backed.\<close>

lemma verify_merkle_ok:
  assumes "lrus_ok lr" "env \<in> E" "leaders_sound E" "caches_ok lr E st"
    "verify_merkle_payment env lr x bytes context st = (r, st')" "ev_deserialize_merkle env bytes = Some mp"
  shows "caches_ok lr E st' \<and> pv_cache st' = pv_cache st \<and> pv_trust_reports st' = pv_trust_reports st \<and>
    (r = Inr () \<longrightarrow> (\<exists>info. merkle_backed env x mp info \<and> on_chain E (ev_pool_hash env mp) info \<and>
       pool_checked E (ev_pool_hash env mp)))"
proof -
  let ?h = "ev_pool_hash env mp" and ?cs = "mp_candidate_nodes (mk_winner_pool mp)"
  obtain r1 st1 where cl: "verify_merkle_candidate_closeness env lr (mk_winner_pool mp) ?h st = (r1, st1)" by fastforce
  note c1 = closeness_ok [OF assms(1-4) cl]
  obtain r2 st2 where pi: "pool_payment_info env lr ?h st1 = (r2, st2)" by fastforce
  have "caches_ok lr E st1" using c1 by simp
  note c2 = pool_info_ok [OF assms(1,2) this pi]
  have fr: "pv_cache st1 = pv_cache st" "pv_trust_reports st1 = pv_trust_reports st"
    "pv_cache st2 = pv_cache st" "pv_trust_reports st2 = pv_trust_reports st" using c1 c2 by auto
  consider "st' = st" "r \<noteq> Inr ()" | "st' = st1" "r \<noteq> Inr ()" | "st' = st2" "r \<noteq> Inr ()"
    | info where "r1 = Inr ()" "r2 = Inr info" "check_on_chain env mp info = Inr ()" "only_appends st2 st'"
      "mk_address mp = x" "\<forall>c\<in>set ?cs. ev_verify_candidate_signature env c"
  proof -
    have "(st' = st \<and> r \<noteq> Inr ()) \<or> (st' = st1 \<and> r \<noteq> Inr ()) \<or> (st' = st2 \<and> r \<noteq> Inr ()) \<or>
      (\<exists>info. r1 = Inr () \<and> r2 = Inr info \<and> check_on_chain env mp info = Inr () \<and> only_appends st2 st' \<and>
        mk_address mp = x \<and> (\<forall>c\<in>set ?cs. ev_verify_candidate_signature env c))"
      using assms(5) cross_check_appends(2)
      by (cases r1; cases r2) (auto simp: verify_merkle_payment_def Let_def assms(6) cl pi split: if_splits sum.splits)
    then show thesis using that by blast
  qed
  then show ?thesis
  proof cases
    case 4
    have ap: "caches_ok lr E st'" using caches_ok_appends [OF 4(4)] c2 by simp
    have "merkle_backed env x mp info" by (rule check_on_chain_backed [OF 4(3,5,6)])
    with ap c1 c2 4 fr show ?thesis by (auto simp: only_appends_caches [OF 4(4)])
  qed (use assms(4) c1 c2 fr in auto)
qed

lemma verify_proof_ok:
  assumes "lrus_ok lr" "env \<in> E" "leaders_sound E" "caches_ok lr E st"
    "verify_proof env lr x bytes context st = (r, st')"
  shows "caches_ok lr E st' \<and> pv_cache st' = pv_cache st \<and> pv_trust_reports st' = pv_trust_reports st \<and>
    (r = Inr () \<longrightarrow> proof_backed E env x bytes)"
proof -
  consider "st' = st" "r \<noteq> Inr ()"
    | parsed where "ev_deserialize_single_node env bytes = Some parsed"
      "verify_evm_payment env x (sp_proof_of_payment parsed) (sp_commitment_sidecars parsed) context st = (r, st')"
    | "verify_merkle_payment env lr x bytes context st = (r, st')"
    using assms(5) by (auto simp: verify_proof_def split: if_splits option.splits proof_type.splits)
  then show ?thesis
  proof cases
    case 1
    with assms(4) show ?thesis by simp
  next
    case 2
    have "only_appends st st'"
      using 2(2) cross_check_appends(1) by (auto simp: verify_evm_payment_def split: sum.splits if_splits)
    moreover have "r = Inr () \<longrightarrow> proof_backed E env x bytes"
      using verify_evm_backed 2 by (auto simp: proof_backed_def)
    ultimately show ?thesis using assms(4) caches_ok_appends by (simp add: only_appends_caches) blast
  next
    case 3
    show ?thesis
    proof (cases "ev_deserialize_merkle env bytes")
      case None
      with 3 assms(4) show ?thesis by (auto simp: verify_merkle_payment_def)
    next
      case (Some mp)
      from verify_merkle_ok [OF assms(1-4) 3 Some] Some show ?thesis by (auto simp: proof_backed_def)
    qed
  qed
qed

definition context_level :: "verification_context \<Rightarrow> verification_level" where
  "context_level context = (case context of ClientPut \<Rightarrow> ClientPutLevel | PaidListAdmission \<Rightarrow> PaidListLevel)"

definition history_ok :: "('a, 'b, 'c) verifier_lrus \<Rightarrow> pay_env set \<Rightarrow> call set \<Rightarrow> ('a, 'b, 'c) verifier \<Rightarrow> bool" where
  "history_ok lr E H st \<longleftrightarrow> caches_ok lr E st \<and>
     (\<forall>x l. level_of (lr_cache lr) (pv_cache st) x = Some l \<longrightarrow> (\<exists>c\<in>H. admitted_by E l x c))"

lemma check_required:
  assumes "lrus_ok lr" "check_payment_required lr x context st = (status, st1)"
  shows "\<exists>vc. st1 = st\<lparr>pv_cache := vc\<rparr> \<and> level_of (lr_cache lr) vc = level_of (lr_cache lr) (pv_cache st) \<and>
    status \<noteq> PaymentVerified \<and>
    (status = CachedAsVerified \<longrightarrow> (\<exists>l. level_of (lr_cache lr) (pv_cache st) x = Some l \<and> satisfies l (context_level context)))"
proof -
  have lru: "lru_ok (lr_cache lr)" using assms(1) by (simp add: lrus_ok_def)
  have lv: "satisfies l PaidListLevel" for l by (cases l) auto
  show ?thesis
    using assms(2) lookup_keeps_levels [OF lru, of x "pv_cache st"] lookup_result [OF lru, of x "pv_cache st"] lv
    by (cases "context") (auto simp: check_payment_required_def context_level_def split_beta Let_def)
qed

lemma verify_payment_step:
  assumes "lrus_ok lr" "env \<in> E" "leaders_sound E" "history_ok lr E H st"
    "verify_payment env lr x p context st = (r, st')"
  shows "history_ok lr E (insert (env, x, p, context) H) st' \<and> pv_trust_reports st' = pv_trust_reports st \<and>
    (\<forall>status. r = Inr status \<longrightarrow> can_store status \<and>
       (\<exists>c\<in>insert (env, x, p, context) H. admitted_by E (context_level context) x c))"
proof -
  have lru: "lru_ok (lr_cache lr)" using assms(1) by (simp add: lrus_ok_def)
  obtain status st1 where cr: "check_payment_required lr x context st = (status, st1)" by fastforce
  from check_required [OF assms(1) this] obtain vc where
    vc: "st1 = st\<lparr>pv_cache := vc\<rparr>" "level_of (lr_cache lr) vc = level_of (lr_cache lr) (pv_cache st)"
      "status \<noteq> PaymentVerified"
      "status = CachedAsVerified \<longrightarrow> (\<exists>l. level_of (lr_cache lr) (pv_cache st) x = Some l \<and> satisfies l (context_level context))"
    by blast
  have h1: "history_ok lr E (insert c H) st1" for c
    using assms(4) vc(2) by (auto simp: history_ok_def vc(1) caches_ok_def)
  consider "status = CachedAsVerified" | "status = PaymentRequired" using vc(3) by (cases status) auto
  then show ?thesis
  proof cases
    case 1
    with vc(4) obtain l where l: "level_of (lr_cache lr) (pv_cache st) x = Some l" "satisfies l (context_level context)" by blast
    then obtain c where "c \<in> H" "admitted_by E l x c" using assms(4) unfolding history_ok_def by blast
    moreover have "admitted_by E (context_level context) x c"
      using calculation(2) l(2) by (cases l; cases "context") (auto simp: admitted_by_def context_level_def)
    moreover have "r = Inr CachedAsVerified" "st' = st1"
      using assms(5) 1 cr by (simp_all add: verify_payment_def verify_payment_inner_def)
    ultimately show ?thesis using h1 by (auto simp: can_store_def vc(1))
  next
    case 2
    show ?thesis
    proof (cases p)
      case None
      with assms(5) 2 cr h1 show ?thesis by (auto simp: verify_payment_def verify_payment_inner_def vc(1))
    next
      case (Some bytes)
      obtain r2 st2 where vp: "verify_proof env lr x bytes context st1 = (r2, st2)" by fastforce
      have "caches_ok lr E st1" using h1 by (simp add: history_ok_def)
      note ok = verify_proof_ok [OF assms(1-3) this vp]
      show ?thesis
      proof (cases r2)
        case (Inl e)
        with assms(5) 2 cr Some vp ok h1 show ?thesis
          by (auto simp: verify_payment_def verify_payment_inner_def history_ok_def vc(1))
      next
        case (Inr u)
        then have backed: "proof_backed E env x bytes" using ok by simp
        have st': "r = Inr PaymentVerified" "st' = st2\<lparr>pv_cache := insert_with_level (lr_cache lr) x (context_level context) (pv_cache st2)\<rparr>"
          using assms(5) 2 cr Some vp Inr
          by (auto simp: verify_payment_def verify_payment_inner_def context_level_def vc_insert_def
              insert_paid_list_verified_def split: verification_context.splits)
        have here: "admitted_by E (context_level context) x (env, x, p, context)"
          using backed Some by (cases "context") (auto simp: admitted_by_def context_level_def)
        have "\<exists>c\<in>insert (env, x, p, context) H. admitted_by E l y c"
          if "level_of (lr_cache lr) (insert_with_level (lr_cache lr) x (context_level context) (pv_cache st2)) y = Some l" for y l
        proof -
          have "level_of (lr_cache lr) (pv_cache st1) y = Some l \<or> y = x \<and> l = context_level context"
            using insert_levels [OF lru that] ok by simp
          then show ?thesis using here h1 [of "(env, x, p, context)"] unfolding history_ok_def by blast
        qed
        with ok here st' show ?thesis by (auto simp: history_ok_def caches_ok_def can_store_def vc(1))
      qed
    qed
  qed
qed

lemma run_calls_ok:
  assumes "lrus_ok lr" "leaders_sound E" "\<forall>(env, _)\<in>set calls. env \<in> E" "history_ok lr E H st"
  shows "history_ok lr E (H \<union> set calls) (run_calls lr calls st)"
  using assms(3,4)
proof (induction calls arbitrary: H st)
  case (Cons c calls)
  obtain env x p "context" where c: "c = (env, x, p, context)" by (cases c) auto
  obtain r st1 where v: "verify_payment env lr x p context st = (r, st1)" by fastforce
  have "env \<in> E" using Cons.prems(1) c by auto
  from verify_payment_step [OF assms(1) this assms(2) Cons.prems(2) v]
  have "history_ok lr E (insert c H) st1" by (simp add: c)
  with Cons.IH [of "insert c H" st1] Cons.prems(1) show ?case by (auto simp: c v Un_insert_left)
qed simp

lemma new_verifier_ok: "lrus_ok lr \<Longrightarrow> history_ok lr E {} (verifier_new lr cap)"
  by (auto simp: history_ok_def caches_ok_def verifier_new_def vc_with_capacity_def lrus_ok_def lru_ok_def)

section \<open>Properties\<close>

lemma admission_backed:
  assumes "lrus_ok lr" and "leaders_sound E" and "\<forall>(env', _)\<in>set calls. env' \<in> E" and "env \<in> E"
    and "verify_payment env lr x p context (run_calls lr calls (verifier_new lr cap)) = (Inr status, st')"
  shows "can_store status \<and>
    (\<exists>(env', x', p', context')\<in>set calls \<union> {(env, x, p, context)}. x' = x \<and>
       (context = ClientPut \<longrightarrow> context' = ClientPut) \<and> (\<exists>bytes. p' = Some bytes \<and> proof_backed E env' x bytes))"
proof -
  have "history_ok lr E (set calls) (run_calls lr calls (verifier_new lr cap))"
    using run_calls_ok [OF assms(1,2,3) new_verifier_ok [OF assms(1)]] by simp
  from verify_payment_step [OF assms(1,4,2) this assms(5)]
  obtain c where "can_store status" "c \<in> insert (env, x, p, context) (set calls)" "admitted_by E (context_level context) x c"
    by blast
  then show ?thesis
    by (intro conjI bexI [of _ c]) (auto simp: admitted_by_def context_level_def split: verification_context.splits)
qed

text \<open>
  C3. No admission without payment. Whatever calls came before, when verification lets data in, some call
  for that same address, this one or an earlier one, carried a proof that was paid: either a signed
  quote for the address, bound to its issuer's key, from one of the twenty closest peers, at the
  non-zero upper-median price of the bundle, with at least three times that price settled on chain; or
  a batch proof for the address whose candidates all signed, whose tree proof verifies, whose paid
  nodes on chain match candidates of the pool and got their share of the median price, and whose pool
  has nine candidates among the peers the network lists as closest. A store is admitted only by a
  proof verified for a store: paid-list admission never authorises one.
\<close>

theorem payment_admission_backed:
  assumes "lrus_ok lr" and "leaders_sound E" and "\<forall>(env', _)\<in>set calls. env' \<in> E" and "env \<in> E"
    and "verify_payment env lr x p context (run_calls lr calls (verifier_new lr cap)) = (Inr status, st')"
  shows "can_store status \<and>
    (\<exists>(env', x', p', context')\<in>set calls \<union> {(env, x, p, context)}. x' = x \<and>
       (context = ClientPut \<longrightarrow> context' = ClientPut) \<and> (\<exists>bytes. p' = Some bytes \<and> proof_backed E env' x bytes))"
  using assms by (rule admission_backed)

definition example_quote :: payment_quote where
  "example_quote = \<lparr>pq_content = 1, pq_timestamp = 0, pq_price = 10, pq_rewards_address = 0, pq_committed_key_count = 0,
     pq_commitment_pin = None, pq_pub_key = [5], pq_signature = []\<rparr>"

definition example_pay_env :: pay_env where
  "example_pay_env =
     \<lparr>ev_detect_proof_type = \<lambda>_. Some SingleNodeType,
      ev_deserialize_single_node = \<lambda>_. Some \<lparr>sp_proof_of_payment = [(5, example_quote)], sp_tx_hashes = [], sp_commitment_sidecars = []\<rparr>,
      ev_deserialize_merkle = \<lambda>_. None, ev_verify_quote_content = \<lambda>q x. pq_content q = x,
      ev_verify_quote_signature = \<lambda>_. True, ev_verify_candidate_signature = \<lambda>_. False,
      ev_peer_id_of_key = \<lambda>_. Some 5, ev_quote_hash = \<lambda>_. 77, ev_completed_payments = [77 \<mapsto> 30],
      ev_calculate_price = \<lambda>_. 10, ev_derive_records = \<lambda>_. 0, ev_close_group_size = 7, ev_candidates_per_pool = 16,
      ev_max_key_count = 1000000, ev_max_sidecar_bytes = 16384, ev_closest_by_distance = Some (\<lambda>_ _. [4, 5]),
      ev_find_closest_network = \<lambda>_ _. LookupFailed, ev_leader = \<lambda>_ _. NoLeader, ev_pool_hash = \<lambda>_. 0,
      ev_midpoint_address = \<lambda>_. 0, ev_midpoint_root = \<lambda>_. 0, ev_verify_merkle_proof = \<lambda>_ _ _ _ _ _. False,
      ev_merkle_payment = \<lambda>_. None, ev_b3 = \<lambda>_. 0, ev_commitment_hash = \<lambda>_. None,
      ev_verify_commitment_signature = \<lambda>_. False, ev_parse_commitment = \<lambda>_. None, ev_quote_bytes = \<lambda>_. [],
      ev_candidate_bytes = \<lambda>_. [], ev_commitment_cache = None, ev_monetized_attached = True, ev_now = 0\<rparr>"

type_synonym 'v list_cache = "nat \<times> (256 word \<times> 'v) list"

definition example_lrus :: "(verification_level list_cache, on_chain_info list_cache, unit list_cache) verifier_lrus" where
  "example_lrus = \<lparr>lr_cache = list_lru, lr_pool = list_lru, lr_pass = list_lru\<rparr>"

definition paid_proof :: bytes where "paid_proof = replicate 32 1"

lemma example_lrus_ok: "lrus_ok example_lrus"
  by (simp add: lrus_ok_def example_lrus_def list_lru_ok)

lemma example_leaders: "leaders_sound {example_pay_env}"
  by (simp add: leaders_sound_def example_pay_env_def)

lemma example_evm_verified: "fst (verify_evm_payment example_pay_env 1 [(5, example_quote)] [] ClientPut st) = Inr ()"
proof -
  have "legacy_median_candidates [(5, example_quote)] = Inr [(5, example_quote, 30)]"
    by (simp add: legacy_median_candidates_def median_quote_index_def checked_mul256_def PAID_QUOTE_PAYMENT_MULTIPLIER_def
        example_quote_def)
  moreover have "verify_legacy_median_candidate example_pay_env 1 (5, example_quote, 30) = Inr ()"
    by (simp add: verify_legacy_median_candidate_def validate_paid_quote_peer_binding_def
        validate_paid_quote_issuer_k_closest_def example_pay_env_def example_quote_def)
  moreover have "ev_close_group_size example_pay_env = 7" by (simp add: example_pay_env_def)
  ultimately show ?thesis
    by (simp add: verify_evm_payment_def validate_quote_structure_def validate_quote_arithmetic_def
        QUOTE_ARITHMETIC_RECHECK_ENABLED_def)
qed

lemma example_proof_verified: "fst (verify_proof example_pay_env lr 1 paid_proof ClientPut st) = Inr ()"
proof -
  have "ev_detect_proof_type example_pay_env paid_proof = Some SingleNodeType" "ev_deserialize_single_node example_pay_env paid_proof =
      Some \<lparr>sp_proof_of_payment = [(5, example_quote)], sp_tx_hashes = [], sp_commitment_sidecars = []\<rparr>" "length paid_proof = 32"
    by (simp_all add: example_pay_env_def paid_proof_def)
  with example_evm_verified [of st] show ?thesis
    by (simp add: verify_proof_def MIN_PAYMENT_PROOF_SIZE_BYTES_def MAX_PAYMENT_PROOF_SIZE_BYTES_def)
qed

lemma example_verified:
  "fst (verify_payment example_pay_env example_lrus 1 (Some paid_proof) ClientPut (verifier_new example_lrus 10)) =
     Inr PaymentVerified"
proof -
  obtain st1 where "check_payment_required example_lrus 1 ClientPut (verifier_new example_lrus 10) = (PaymentRequired, st1)"
    by (simp add: check_payment_required_def contains_client_put_verified_def example_lrus_def list_lru_def verifier_new_def
        vc_with_capacity_def)
  moreover obtain st2 where "verify_proof example_pay_env example_lrus 1 paid_proof ClientPut st1 = (Inr (), st2)"
    using example_proof_verified by (metis prod.collapse)
  ultimately show ?thesis by (simp add: verify_payment_def verify_payment_inner_def)
qed

theorem payment_admission_backed_witness: "proof_backed {example_pay_env} example_pay_env 1 paid_proof"
proof -
  obtain st' where run: "verify_payment example_pay_env example_lrus 1 (Some paid_proof) ClientPut
      (run_calls example_lrus [] (verifier_new example_lrus 10)) = (Inr PaymentVerified, st')"
    using example_verified by (metis prod.collapse run_calls.simps(1))
  from payment_admission_backed [OF example_lrus_ok example_leaders _ _ run] show ?thesis by simp
qed

lemma attempts_frame: "\<exists>c. snd (closeness_attempts env lr pool h left st) = st\<lparr>pv_closeness_pass := c\<rparr>"
proof (induction left)
  case 0
  show ?case
    by (auto simp: closeness_attempts.simps [of _ _ _ _ 0] split: leader.splits sum.splits intro: exI [of _ "pv_closeness_pass st"])
next
  case (Suc n)
  then show ?case
    by (auto simp: closeness_attempts.simps [of _ _ _ _ "Suc n"] split: leader.splits sum.splits
        intro: exI [of _ "pv_closeness_pass st"])
qed

definition quiet :: "('a, 'b, 'c) verifier \<Rightarrow> ('a, 'b, 'c) verifier \<Rightarrow> bool" where
  "quiet st st' \<longleftrightarrow> pv_monetized_pins st' = pv_monetized_pins st \<and> pv_pin_fetches st' = pv_pin_fetches st \<and>
     pv_trust_reports st' = pv_trust_reports st"

lemma closeness_quiet: "quiet st (snd (verify_merkle_candidate_closeness env lr pool h st))"
proof -
  obtain hit pass where g: "lru_get (lr_pass lr) h (pv_closeness_pass st) = (hit, pass)" by fastforce
  obtain c where "snd (closeness_attempts env lr pool h MAX_LEADER_RETRIES (st\<lparr>pv_closeness_pass := pass\<rparr>)) =
      st\<lparr>pv_closeness_pass := c\<rparr>"
    using attempts_frame [of env lr pool h MAX_LEADER_RETRIES "st\<lparr>pv_closeness_pass := pass\<rparr>"] by auto
  then show ?thesis by (simp add: verify_merkle_candidate_closeness_def quiet_def g Let_def)
qed

lemma pool_info_quiet: "quiet st (snd (pool_payment_info env lr h st))"
  by (auto simp: pool_payment_info_def quiet_def Let_def split: prod.splits option.splits)

lemma verify_proof_quiet:
  assumes "verify_proof env lr x bytes context st = (r, st')"
  shows "pv_trust_reports st' = pv_trust_reports st" "context = ClientPut \<and> r = Inr () \<or> quiet st st'"
proof -
  have "pv_trust_reports st' = pv_trust_reports st \<and> (context = ClientPut \<and> r = Inr () \<or> quiet st st')"
  proof (cases "ev_detect_proof_type env bytes = Some MerkleType \<and> ev_deserialize_merkle env bytes \<noteq> None \<and>
      MIN_PAYMENT_PROOF_SIZE_BYTES \<le> length bytes \<and> length bytes \<le> MAX_PAYMENT_PROOF_SIZE_BYTES")
    case True
    then obtain mp where mp: "ev_deserialize_merkle env bytes = Some mp" by auto
    let ?h = "ev_pool_hash env mp"
    obtain r1 st1 where cl: "verify_merkle_candidate_closeness env lr (mk_winner_pool mp) ?h st = (r1, st1)" by fastforce
    obtain r2 st2 where pi: "pool_payment_info env lr ?h st1 = (r2, st2)" by fastforce
    have q: "quiet st st1" "quiet st1 st2"
      using closeness_quiet [of st env lr "mk_winner_pool mp" ?h] pool_info_quiet [of st1 env lr ?h] cl pi by simp_all
    have "st' \<in> {st, st1, st2} \<or> context = ClientPut \<and> r = Inr () \<and> only_appends st2 st'"
      using assms True mp cross_check_appends(2)
      by (cases r1; cases r2) (auto simp: verify_proof_def verify_merkle_payment_def Let_def cl pi split: if_splits sum.splits)
    with q only_appends_caches(4) [of st2 st'] show ?thesis by (auto simp: quiet_def)
  next
    case False
    then have "st' = st \<or> context = ClientPut \<and> r = Inr () \<and> only_appends st st'"
      using assms cross_check_appends(1)
      by (auto simp: verify_proof_def verify_evm_payment_def verify_merkle_payment_def
          split: if_splits option.splits proof_type.splits sum.splits)
    with only_appends_caches(4) [of st st'] show ?thesis by (auto simp: quiet_def)
  qed
  then show "pv_trust_reports st' = pv_trust_reports st" "context = ClientPut \<and> r = Inr () \<or> quiet st st'" by simp_all
qed

lemma drain_bounded:
  "n \<le> 3 \<Longrightarrow> case drain_unresolved_pin_fetches env neg fetch us n (nc, trust) of (n', nc', trust') \<Rightarrow> n' \<le> 3 \<and> trust' = trust"
proof (induction us arbitrary: n nc)
  case (Cons u us)
  obtain peer pin k a where u: "u = (peer, pin, k, a)" by (cases u) auto
  obtain hit nc1 where g: "lru_get neg (peer, pin) nc = (hit, nc1)" by fastforce
  show ?case
  proof (cases "n = 3")
    case True
    then show ?thesis by (simp add: u MAX_PIN_FETCHES_PER_BUNDLE_def)
  next
    case False
    with Cons.prems have "n + 1 \<le> 3" by simp
    with Cons.IH [OF Cons.prems] Cons.IH [of "n + 1"] Cons.prems False show ?thesis
      by (auto simp: u g MAX_PIN_FETCHES_PER_BUNDLE_def split: option.splits)
  qed
qed simp

text \<open>
  The cross-check stays off the payment path. A call reports no peer to the trust engine (the mismatch
  report is switched off); it puts pins on the audit channel and spawns fetches only for a store
  whose payment it has just verified; and the fetches of one bundle make at most three requests and
  report nobody, whatever the peers answer.
\<close>

theorem cross_check_contained:
  assumes "verify_payment env lr x p context st = (r, st')"
  shows "pv_trust_reports st' = pv_trust_reports st \<and>
    (pv_monetized_pins st' \<noteq> pv_monetized_pins st \<or> pv_pin_fetches st' \<noteq> pv_pin_fetches st \<longrightarrow>
       context = ClientPut \<and> r = Inr PaymentVerified) \<and>
    (case drain_unresolved_pin_fetches env neg fetch us 0 (nc, trust) of (n, nc', trust') \<Rightarrow> n \<le> 3 \<and> trust' = trust)"
proof -
  obtain status st1 where cr: "check_payment_required lr x context st = (status, st1)" by fastforce
  then have q1: "quiet st st1" by (auto simp: check_payment_required_def quiet_def Let_def split: prod.splits)
  have "quiet st st' \<or> pv_trust_reports st' = pv_trust_reports st \<and> context = ClientPut \<and> r = Inr PaymentVerified"
  proof (cases "status = PaymentRequired \<and> p \<noteq> None")
    case True
    then obtain bytes where p: "p = Some bytes" by auto
    obtain r2 st2 where vp: "verify_proof env lr x bytes context st1 = (r2, st2)" by fastforce
    from verify_proof_quiet [OF vp] q1 assms cr True p vp show ?thesis
      by (cases r2) (auto simp: verify_payment_def verify_payment_inner_def quiet_def)
  next
    case False
    with q1 assms cr show ?thesis
      by (cases status) (auto simp: verify_payment_def verify_payment_inner_def split: option.splits)
  qed
  with drain_bounded [where n = 0 and env = env and neg = neg and fetch = fetch and us = us and nc = nc and trust = trust] show ?thesis by (auto simp: quiet_def)
qed

theorem cross_check_contained_witness:
  "fst (drain_unresolved_pin_fetches example_pay_env list_lru (\<lambda>_ _. None) (replicate 9 (1, 2, 3, [])) 0 ((4, []), [])) \<le> 3"
  using cross_check_contained [OF surjective_pairing, where env = example_pay_env and neg = list_lru and fetch = "\<lambda>_ _. None"
      and us = "replicate 9 (1, 2, 3, [])" and nc = "(4, [])" and trust = "[]" and lr = example_lrus and x = 1
      and p = "Some paid_proof" and st = "verifier_new example_lrus 10"]
  by (simp add: split_beta)

end
