(* ===== verification/Gossip_Audit.thy ===== *)
theory Gossip_Audit
  imports Storage_Audit Neighbor_Sync Admission
begin

text \<open>
  How storage audits are started and settled (src/src/replication/mod.rs): the per-peer cooldown, the
  ingestion of gossiped commitments with its rate limit, the downgrade path, the side effects of a
  result, and the rotation of this node's own commitment. A \<open>HashMap\<close> is an association list in its
  iteration order. Whether a peer is in the routing table, hash and signature checks are arguments.
\<close>

section \<open>Cooldown and rate limit\<close>

definition MAX_LAST_COMMITMENT_BY_PEER :: nat where "MAX_LAST_COMMITMENT_BY_PEER = 4096"

definition MAX_EVER_CAPABLE_PEERS :: nat where "MAX_EVER_CAPABLE_PEERS = 4 * MAX_LAST_COMMITMENT_BY_PEER"

definition COMMITMENT_SIG_VERIFY_MIN_INTERVAL :: duration where "COMMITMENT_SIG_VERIFY_MIN_INTERVAL = from_secs 60"

definition AUDIT_ON_GOSSIP_COOLDOWN_SECS :: nat where "AUDIT_ON_GOSSIP_COOLDOWN_SECS = 30 * 60"

type_synonym stamps_by_peer = "(peer_id \<times> instant) list"

definition oldest :: "stamps_by_peer \<Rightarrow> peer_id option" where
  "oldest m = (if m = [] then None else Some (fst (arg_min_list snd m)))"

text \<open>Room for a new peer: the entry with the oldest stamp goes.\<close>

definition make_room :: "peer_id \<Rightarrow> stamps_by_peer \<Rightarrow> stamps_by_peer" where
  "make_room peer m =
     (if map_of m peer = None \<and> length m \<ge> MAX_LAST_COMMITMENT_BY_PEER
      then (case oldest m of None \<Rightarrow> m | Some victim \<Rightarrow> AList.delete victim m) else m)"

definition cooldown_allows_audit :: "stamps_by_peer \<Rightarrow> peer_id \<Rightarrow> instant \<Rightarrow> bool \<times> stamps_by_peer" where
  "cooldown_allows_audit m peer now =
     (if is_some_and (map_of m peer) (\<lambda>last. now - last < from_secs AUDIT_ON_GOSSIP_COOLDOWN_SECS) then (False, m)
      else (True, AList.update peer now (make_room peer m)))"

definition audit_launch_decision :: "stamps_by_peer \<Rightarrow> peer_id \<Rightarrow> instant \<Rightarrow> bool \<Rightarrow> bool \<times> stamps_by_peer" where
  "audit_launch_decision m peer now lottery_wins =
     (let (allowed, m') = cooldown_allows_audit m peer now in if \<not> allowed then (False, m') else (lottery_wins, m'))"

definition sig_verify_rate_limit_ok :: "stamps_by_peer \<Rightarrow> peer_id \<Rightarrow> instant \<Rightarrow> bool \<times> stamps_by_peer" where
  "sig_verify_rate_limit_ok attempts source now =
     (if is_some_and (map_of attempts source) (\<lambda>last. now - last < COMMITMENT_SIG_VERIFY_MIN_INTERVAL)
      then (False, attempts)
      else (True, AList.update source now (make_room source attempts)))"

section \<open>Ingestion of gossiped commitments\<close>

record audit_target =
  at_pin_hash :: hash32
  at_key_count :: nat

type_synonym commitments_by_peer = "(peer_id \<times> peer_commitment_record) list"

text \<open>The table is read under one lock and cleared under another: \<open>recs\<close> and \<open>recs'\<close> are the table at the
  two points.\<close>

definition handle_commitment_downgrade ::
  "peer_id \<Rightarrow> instant \<Rightarrow> commitments_by_peer \<Rightarrow> commitments_by_peer \<Rightarrow> audit_target option \<times> commitments_by_peer" where
  "handle_commitment_downgrade source now recs recs' =
     (case (case map_of recs source of
              None \<Rightarrow> None
            | Some rec \<Rightarrow>
                if \<not> pc_commitment_capable rec then None
                else (case (pc_last_commitment rec, pc_cached_hash rec) of
                   (Some c, Some pin) \<Rightarrow> Some (pin, sc_key_count c, now - pc_received_at rec < GOSSIP_ANSWERABILITY_TTL)
                 | _ \<Rightarrow> None)) of
        None \<Rightarrow> (None, recs')
      | Some (pin, kc, True) \<Rightarrow> (Some \<lparr>at_pin_hash = pin, at_key_count = kc\<rparr>, recs')
      | Some (_, _, False) \<Rightarrow>
          (None, case map_of recs' source of
             None \<Rightarrow> recs'
           | Some rec \<Rightarrow>
               if now - pc_received_at rec \<ge> GOSSIP_ANSWERABILITY_TTL
               then AList.update source (clear_commitment rec) recs' else recs'))"

record ingest_env =
  ig_in_routing_table :: bool
  ig_b3 :: "bytes \<Rightarrow> hash32"
  ig_verify_signature :: "storage_commitment \<Rightarrow> bool"
  ig_commitment_hash :: "storage_commitment \<Rightarrow> hash32 option"
  ig_now :: instant

record ingest_state =
  is_records :: commitments_by_peer
  is_ever_capable :: "peer_id set"
  is_attempts :: stamps_by_peer

definition store_commitment ::
  "ingest_env \<Rightarrow> peer_id \<Rightarrow> storage_commitment \<Rightarrow> commitments_by_peer \<Rightarrow> commitments_by_peer" where
  "store_commitment env source c recs =
     (let recs1 = (if length recs \<ge> MAX_LAST_COMMITMENT_BY_PEER \<and> map_of recs source = None
            then (case recs of [] \<Rightarrow> recs | (victim, _) # _ \<Rightarrow> AList.delete victim recs) else recs)
      in case map_of recs1 source of
           Some r \<Rightarrow> AList.update source ((set_commitment (ig_commitment_hash env) c (ig_now env) r)
             \<lparr>pc_last_sig_verify_at := ig_now env, pc_commitment_capable := True\<rparr>) recs1
         | None \<Rightarrow> AList.update source (from_verified (ig_commitment_hash env) c (ig_now env)) recs1)"

definition note_capable :: "peer_id \<Rightarrow> peer_id set \<Rightarrow> peer_id set" where
  "note_capable source ever = (if source \<in> ever \<or> card ever < MAX_EVER_CAPABLE_PEERS then insert source ever else ever)"

definition ingest_peer_commitment ::
  "ingest_env \<Rightarrow> peer_id \<Rightarrow> storage_commitment option \<Rightarrow> ingest_state \<Rightarrow> audit_target option \<times> ingest_state" where
  "ingest_peer_commitment env source commitment st =
     (case commitment of
        None \<Rightarrow>
          (let (target, recs) = handle_commitment_downgrade source (ig_now env) (is_records st) (is_records st)
           in (target, st\<lparr>is_records := recs\<rparr>))
      | Some c \<Rightarrow>
          if \<not> ig_in_routing_table env then (None, st)
          else if sc_sender_peer_id c \<noteq> source then (None, st)
          else if ig_b3 env (sc_sender_public_key c) \<noteq> sc_sender_peer_id c then (None, st)
          else
            let (allowed, attempts) = sig_verify_rate_limit_ok (is_attempts st) source (ig_now env);
                st1 = st\<lparr>is_attempts := attempts\<rparr>
            in if \<not> allowed then (None, st1)
               else if \<not> ig_verify_signature env c then (None, st1)
               else (map_option (\<lambda>pin. \<lparr>at_pin_hash = pin, at_key_count = sc_key_count c\<rparr>) (ig_commitment_hash env c),
                 st1\<lparr>is_records := store_commitment env source c (is_records st1),
                     is_ever_capable := note_capable source (is_ever_capable st1)\<rparr>))"

section \<open>Settling a result\<close>

datatype audit_trust_event = AuditSuccess peer_id | AuditPenalty peer_id | ReplicationPenalty peer_id

record settle_state =
  st_sync :: neighbor_sync_state
  st_provers :: recent_provers
  st_trust :: "audit_trust_event list"

definition audit_failure_revokes_holder_credit :: "audit_failure_reason \<Rightarrow> bool" where
  "audit_failure_revokes_holder_credit reason \<longleftrightarrow> reason \<noteq> FailTimeout"

definition apply_audit_failure_credit_revocation ::
  "peer_id \<Rightarrow> audit_failure_reason \<Rightarrow> recent_provers \<Rightarrow> recent_provers" where
  "apply_audit_failure_credit_revocation peer reason provers =
     (if audit_failure_revokes_holder_credit reason then forget_peer peer provers else provers)"

definition clear_claim :: "peer_id \<Rightarrow> settle_state \<Rightarrow> settle_state" where
  "clear_claim peer s = s\<lparr>st_sync := snd (clear_active_bootstrap_claim peer (st_sync s))\<rparr>"

definition handle_subtree_failed_audit :: "peer_id \<Rightarrow> audit_failure_reason \<Rightarrow> settle_state \<Rightarrow> settle_state" where
  "handle_subtree_failed_audit peer reason s =
     (if reason = FailTimeout then s
      else let s1 = clear_claim peer s;
               s2 = s1\<lparr>st_provers := apply_audit_failure_credit_revocation peer reason (st_provers s1)\<rparr>
           in s2\<lparr>st_trust := st_trust s2 @ [AuditPenalty peer]\<rparr>)"

definition handle_subtree_audit_result ::
  "replication_config \<Rightarrow> instant \<Rightarrow> audit_tick_result \<Rightarrow> settle_state \<Rightarrow> settle_state" where
  "handle_subtree_audit_result config now result s =
     (case result of
        TickPassed peer _ \<Rightarrow> (clear_claim peer s)\<lparr>st_trust := st_trust s @ [AuditSuccess peer]\<rparr>
      | TickFailed evidence \<Rightarrow>
          (case evidence of
             AuditFailure _ peer _ _ reason \<Rightarrow> handle_subtree_failed_audit peer reason s
           | _ \<Rightarrow> s)
      | TickBootstrapClaim peer \<Rightarrow>
          (let (observation, sync) = observe_bootstrap_claim peer now (bootstrap_claim_grace_period config) (st_sync s);
               s1 = s\<lparr>st_sync := sync\<rparr>
           in case observation of
                WithinGrace _ \<Rightarrow> s1
              | PastGrace _ \<Rightarrow> s1\<lparr>st_trust := st_trust s1 @ [ReplicationPenalty peer]\<rparr>
              | Repeated _ \<Rightarrow> s1\<lparr>st_trust := st_trust s1 @ [ReplicationPenalty peer]\<rparr>)
      | TickIdle \<Rightarrow> s
      | TickInsufficientKeys \<Rightarrow> s)"

text \<open>The task a trigger spawns: the audit, with its credit, then its side effects.\<close>

definition run_audit_task ::
  "audit_params \<Rightarrow> replication_config \<Rightarrow> audit_ctx \<Rightarrow> (subtree_audit_challenge \<Rightarrow> wire) \<Rightarrow>
     (subtree_byte_challenge \<Rightarrow> wire) \<Rightarrow> (nat \<Rightarrow> nat \<Rightarrow> nat) \<Rightarrow> instant \<Rightarrow> settle_state \<Rightarrow> settle_state" where
  "run_audit_task ap config ctx send send_bytes draws now s =
     (case run_subtree_audit ap ctx send send_bytes draws now (Some (st_provers s)) of
        (result, credit) \<Rightarrow>
          handle_subtree_audit_result config now result (s\<lparr>st_provers := unwrap_or credit (st_provers s)\<rparr>))"

text \<open>The trigger of a gossip: cooldown, then lottery, then the task.\<close>

definition maybe_trigger_gossip_audit ::
  "peer_id \<Rightarrow> audit_target \<Rightarrow> instant \<Rightarrow> bool \<Rightarrow> stamps_by_peer \<Rightarrow> (peer_id \<times> audit_target) option \<times> stamps_by_peer" where
  "maybe_trigger_gossip_audit peer target now lottery_wins m =
     (let (launch, m') = audit_launch_decision m peer now lottery_wins
      in (if launch then Some (peer, target) else None, m'))"

section \<open>Rotation of the own commitment\<close>

datatype rotation_error = ReadKeysFailed | TreeBuildFailed commitment_error | SecretKeyInvalid | CommitmentBuildFailed commitment_error

record 'sk rotation_env =
  ro_self :: peer_id
  ro_closest :: closest_fn
  ro_close_group_size :: nat
  ro_max_key_count :: nat
  ro_b3 :: "bytes \<Rightarrow> hash32"
  ro_sign :: "'sk \<Rightarrow> bytes \<Rightarrow> bytes option"
  ro_commitment_hash :: "storage_commitment \<Rightarrow> hash32 option"
  ro_secret_key :: "'sk option"
  ro_public_key :: bytes
  ro_now :: instant

definition rebuild_and_rotate_commitment ::
  "'sk rotation_env \<Rightarrow> xor_name list option \<Rightarrow> inner \<Rightarrow> (rotation_error + unit) \<times> inner" where
  "rebuild_and_rotate_commitment env stored st =
     (case stored of
        None \<Rightarrow> (Inl ReadKeysFailed, st)
      | Some stored_keys \<Rightarrow>
          let ks = filter (\<lambda>k. is_responsible (ro_closest env) (ro_self env) k (ro_close_group_size env)) stored_keys
          in if ks = []
             then if stored_keys = []
                  then (Inr (), if retained_slot_count st > 0 then clear_all st else st)
                  else (Inr (), retire_current (ro_now env) st)
             else
               (case build (ro_b3 env) (ro_max_key_count env) (map (\<lambda>k. (k, k)) (take (ro_max_key_count env) ks)) of
                  Inl e \<Rightarrow> (Inl (TreeBuildFailed e), st)
                | Inr tree \<Rightarrow>
                    if is_some_and (current st) (\<lambda>c. sc_root (bc_commitment c) = root tree)
                    then (Inr (), age_out (ro_now env) st)
                    else (case ro_secret_key env of
                       None \<Rightarrow> (Inl SecretKeyInvalid, st)
                     | Some sk \<Rightarrow>
                         (case build_from_tree (ro_sign env) (ro_commitment_hash env) tree (ro_self env) sk (ro_public_key env) of
                            Inl e \<Rightarrow> (Inl (CommitmentBuildFailed e), st)
                          | Inr built \<Rightarrow> (Inr (), rotate built (ro_now env) st)))))"

section \<open>Bounded tables\<close>

lemma make_room_props:
  "dkeys m \<Longrightarrow> dkeys (make_room p m)"
  "length (AList.update p t (make_room p m)) \<le> max (length m) MAX_LAST_COMMITMENT_BY_PEER"
proof -
  show "dkeys m \<Longrightarrow> dkeys (make_room p m)"
    by (auto simp: make_room_def distinct_delete split: option.splits)
  show "length (AList.update p t (make_room p m)) \<le> max (length m) MAX_LAST_COMMITMENT_BY_PEER"
  proof (cases "map_of m p")
    case (Some x)
    then have "p \<in> keys m" by (rule map_of_keysD)
    with Some show ?thesis by (simp add: make_room_def length_update_present)
  next
    case None
    then have p: "p \<notin> keys m" by (simp add: map_of_eq_None_keys)
    show ?thesis
    proof (cases "length m \<ge> MAX_LAST_COMMITMENT_BY_PEER")
      case True
      then have ne: "m \<noteq> []" by (auto simp: MAX_LAST_COMMITMENT_BY_PEER_def)
      define v where "v = fst (arg_min_list snd m)"
      have v: "v \<in> keys m" using arg_min_list_in [OF ne, of snd] by (auto simp: v_def)
      have mr: "make_room p m = AList.delete v m" using True None ne by (simp add: make_room_def oldest_def v_def)
      have "p \<notin> keys (AList.delete v m)" using p by (simp add: keys_delete)
      then have "length (AList.update p t (make_room p m)) = Suc (length (AList.delete v m))"
        by (simp add: mr length_update_fresh)
      moreover have "length (AList.delete v m) < length m"
        using v by (auto simp: AList.delete_eq intro!: length_filter_less)
      ultimately show ?thesis by simp
    next
      case False
      with p show ?thesis by (simp add: make_room_def length_update_fresh)
    qed
  qed
qed

lemma rate_limit_bounded:
  assumes "length m \<le> MAX_LAST_COMMITMENT_BY_PEER"
  shows "length (snd (sig_verify_rate_limit_ok m p t)) \<le> MAX_LAST_COMMITMENT_BY_PEER"
    "length (snd (cooldown_allows_audit m p t)) \<le> MAX_LAST_COMMITMENT_BY_PEER"
  using assms make_room_props(2) [of p t m] by (auto simp: sig_verify_rate_limit_ok_def cooldown_allows_audit_def)

section \<open>Spacing of audits\<close>

text \<open>The attempts that pass the cooldown, for any sequence of gossips and first audits.\<close>

fun allowed_attempts :: "stamps_by_peer \<Rightarrow> (peer_id \<times> instant) list \<Rightarrow> (peer_id \<times> instant) list" where
  "allowed_attempts m [] = []"
| "allowed_attempts m ((p, t) # xs) =
     (let (ok, m') = cooldown_allows_audit m p t in (if ok then [(p, t)] else []) @ allowed_attempts m' xs)"

abbreviation audit_cooldown :: duration where "audit_cooldown \<equiv> from_secs AUDIT_ON_GOSSIP_COOLDOWN_SECS"

definition spaced :: "peer_id \<times> instant \<Rightarrow> peer_id \<times> instant \<Rightarrow> bool" where
  "spaced a b \<longleftrightarrow> (fst a = fst b \<longrightarrow> snd a + audit_cooldown \<le> snd b)"

lemma no_eviction:
  assumes "dkeys m" "keys m \<union> {p} \<subseteq> S" "finite S" "card S \<le> MAX_LAST_COMMITMENT_BY_PEER"
  shows "make_room p m = m"
proof (cases "map_of m p")
  case None
  then have p: "p \<notin> keys m" by (simp add: map_of_eq_None_keys)
  have "length m = card (keys m)" using assms(1) by (metis distinct_card length_map set_map)
  moreover have "card (keys m) < card S" using p assms(2,3) by (intro psubset_card_mono) auto
  ultimately show ?thesis using assms(4) by (simp add: make_room_def)
qed (simp add: make_room_def)

lemma allowed_spaced:
  assumes "dkeys m" "keys m \<union> fst ` set xs \<subseteq> S" "finite S" "card S \<le> MAX_LAST_COMMITMENT_BY_PEER"
  shows "sorted_wrt spaced (allowed_attempts m xs) \<and>
    (\<forall>(p, t)\<in>set (allowed_attempts m xs). \<forall>last. map_of m p = Some last \<longrightarrow> last + audit_cooldown \<le> t)"
  using assms(1,2)
proof (induction xs arbitrary: m)
  case (Cons x xs)
  obtain p t where x: "x = (p, t)" by (cases x)
  have room: "make_room p m = m" using Cons.prems by (intro no_eviction [OF _ _ assms(3,4)]) (auto simp: x)
  show ?case
  proof (cases "is_some_and (map_of m p) (\<lambda>last. t - last < audit_cooldown)")
    case True
    with Cons show ?thesis by (simp add: x cooldown_allows_audit_def)
  next
    case False
    let ?m = "AList.update p t m"
    have "dkeys ?m" "keys ?m \<union> fst ` set xs \<subseteq> S"
      using Cons.prems by (auto simp: x distinct_update keys_update)
    note ih = Cons.IH [OF this]
    have later: "t + audit_cooldown \<le> t'" if "(p, t') \<in> set (allowed_attempts ?m xs)" for t'
      using ih that by (auto simp: update_conv')
    have other: "last + audit_cooldown \<le> t'"
      if "(q, t') \<in> set (allowed_attempts ?m xs)" "map_of m q = Some last" "q \<noteq> p" for q t' last
      using ih that by (fastforce simp: update_conv')
    have "0 < audit_cooldown" by (simp add: from_secs_def AUDIT_ON_GOSSIP_COOLDOWN_SECS_def)
    then have mine: "last + audit_cooldown \<le> t" if "map_of m p = Some last" for last using False that by simp
    have all: "last + audit_cooldown \<le> t'"
      if "(q, t') \<in> set (allowed_attempts ?m xs)" "map_of m q = Some last" for q t' last
      using mine [of last] later [of t'] other that by (cases "q = p") auto
    have run: "allowed_attempts m (x # xs) = (p, t) # allowed_attempts ?m xs"
      using False by (simp add: x cooldown_allows_audit_def room)
    have hd: "\<forall>y\<in>set (allowed_attempts ?m xs). spaced (p, t) y" using later by (auto simp: spaced_def)
    have "sorted_wrt spaced (allowed_attempts m (x # xs))"
      using conjunct1 [OF ih] hd unfolding run by simp
    then show ?thesis using all mine unfolding run by auto
  qed
qed simp

section \<open>Where pins come from\<close>

type_synonym ingest_call = "ingest_env \<times> peer_id \<times> storage_commitment option"

fun run_ingests :: "ingest_call list \<Rightarrow> ingest_state \<Rightarrow> ingest_state" where
  "run_ingests [] st = st"
| "run_ingests ((env, source, c) # calls) st = run_ingests calls (snd (ingest_peer_commitment env source c st))"

definition ingest_new :: ingest_state where
  "ingest_new = \<lparr>is_records = [], is_ever_capable = {}, is_attempts = []\<rparr>"

text \<open>The peer itself sent the commitment, from the routing table, under its own key.\<close>

definition gossiped_by :: "ingest_call set \<Rightarrow> peer_id \<Rightarrow> storage_commitment \<Rightarrow> instant \<Rightarrow> hash32 option \<Rightarrow> bool" where
  "gossiped_by H peer c t h \<longleftrightarrow> (\<exists>env. (env, peer, Some c) \<in> H \<and> ig_now env = t \<and> ig_in_routing_table env \<and>
     sc_sender_peer_id c = peer \<and> ig_b3 env (sc_sender_public_key c) = peer \<and> ig_verify_signature env c \<and>
     ig_commitment_hash env c = h)"

definition ingest_ok :: "ingest_call set \<Rightarrow> ingest_state \<Rightarrow> bool" where
  "ingest_ok H st \<longleftrightarrow> dkeys (is_records st) \<and> length (is_records st) \<le> MAX_LAST_COMMITMENT_BY_PEER \<and>
     length (is_attempts st) \<le> MAX_LAST_COMMITMENT_BY_PEER \<and> finite (is_ever_capable st) \<and>
     card (is_ever_capable st) \<le> MAX_EVER_CAPABLE_PEERS \<and>
     (\<forall>p r c. map_of (is_records st) p = Some r \<longrightarrow> pc_last_commitment r = Some c \<longrightarrow>
        gossiped_by H p c (pc_received_at r) (pc_cached_hash r))"

lemma gossiped_mono: "gossiped_by H p c t h \<Longrightarrow> H \<subseteq> H' \<Longrightarrow> gossiped_by H' p c t h"
  unfolding gossiped_by_def by blast

lemma store_commitment_ok:
  assumes "dkeys recs" "length recs \<le> MAX_LAST_COMMITMENT_BY_PEER"
  shows "dkeys (store_commitment env p c recs)" "length (store_commitment env p c recs) \<le> MAX_LAST_COMMITMENT_BY_PEER"
    "map_of (store_commitment env p c recs) q = Some r \<Longrightarrow> q \<noteq> p \<Longrightarrow> map_of recs q = Some r"
    "map_of (store_commitment env p c recs) p = Some r \<Longrightarrow> pc_last_commitment r = Some c \<and>
       pc_received_at r = ig_now env \<and> pc_cached_hash r = ig_commitment_hash env c"
proof -
  define recs1 where "recs1 = (if length recs \<ge> MAX_LAST_COMMITMENT_BY_PEER \<and> map_of recs p = None
    then (case recs of [] \<Rightarrow> recs | (victim, _) # _ \<Rightarrow> AList.delete victim recs) else recs)"
  obtain v where v: "store_commitment env p c recs = AList.update p v recs1"
    "pc_last_commitment v = Some c \<and> pc_received_at v = ig_now env \<and> pc_cached_hash v = ig_commitment_hash env c"
    by (cases "map_of recs1 p") (auto simp: store_commitment_def recs1_def [symmetric] Let_def from_verified_def set_commitment_def)
  have d1: "dkeys recs1" using assms(1) by (auto simp: recs1_def distinct_delete split: list.splits)
  have m1: "map_of recs1 q = Some r \<Longrightarrow> map_of recs q = Some r" for q r
    by (auto simp: recs1_def map_of_delete_other split: list.splits if_splits)
  have l1: "length recs1 + of_bool (p \<notin> keys recs1) \<le> MAX_LAST_COMMITMENT_BY_PEER"
  proof (cases "length recs \<ge> MAX_LAST_COMMITMENT_BY_PEER \<and> map_of recs p = None")
    case True
    then obtain w x rest where r: "recs = (w, x) # rest" by (cases recs) (auto simp: MAX_LAST_COMMITMENT_BY_PEER_def)
    have "length (AList.delete w recs) < length recs" by (auto simp: r AList.delete_eq less_Suc_eq_le)
    with True assms(2) show ?thesis by (simp add: recs1_def r)
  next
    case False
    then show ?thesis using assms(2) by (cases "map_of recs p") (auto simp: recs1_def dest: map_of_keysD)
  qed
  show "dkeys (store_commitment env p c recs)" unfolding v(1) using d1 by (rule distinct_update)
  show "length (store_commitment env p c recs) \<le> MAX_LAST_COMMITMENT_BY_PEER"
    using l1 by (cases "p \<in> keys recs1") (simp_all add: v(1) length_update_present length_update_fresh)
  show "map_of (store_commitment env p c recs) q = Some r \<Longrightarrow> q \<noteq> p \<Longrightarrow> map_of recs q = Some r"
    using m1 by (simp add: v(1) update_conv')
  show "map_of (store_commitment env p c recs) p = Some r \<Longrightarrow> pc_last_commitment r = Some c \<and>
       pc_received_at r = ig_now env \<and> pc_cached_hash r = ig_commitment_hash env c"
    using v by (simp add: update_conv')
qed

lemma note_capable_bounded:
  "finite S \<Longrightarrow> card S \<le> MAX_EVER_CAPABLE_PEERS \<Longrightarrow> finite (note_capable p S) \<and> card (note_capable p S) \<le> MAX_EVER_CAPABLE_PEERS"
  by (auto simp: note_capable_def card_insert_if)

lemma downgrade_ok:
  assumes "handle_commitment_downgrade p now recs recs = (target, recs')" "dkeys recs"
  shows "dkeys recs' \<and> length recs' = length recs \<and>
    (\<forall>q r c. map_of recs' q = Some r \<longrightarrow> pc_last_commitment r = Some c \<longrightarrow> map_of recs q = Some r) \<and>
    (\<forall>tg. target = Some tg \<longrightarrow> (\<exists>r c. map_of recs p = Some r \<and> pc_last_commitment r = Some c \<and>
       pc_cached_hash r = Some (at_pin_hash tg) \<and> sc_key_count c = at_key_count tg \<and>
       now - pc_received_at r < GOSSIP_ANSWERABILITY_TTL))"
proof (cases "recs' = recs")
  case True
  have "\<exists>r c. map_of recs p = Some r \<and> pc_last_commitment r = Some c \<and>
       pc_cached_hash r = Some (at_pin_hash tg) \<and> sc_key_count c = at_key_count tg \<and>
       now - pc_received_at r < GOSSIP_ANSWERABILITY_TTL" if "target = Some tg" for tg
    using assms(1) that by (auto simp: handle_commitment_downgrade_def split: option.splits if_splits bool.splits)
  with True assms(2) show ?thesis by blast
next
  case False
  with assms(1) obtain r where r: "map_of recs p = Some r" "recs' = AList.update p (clear_commitment r) recs" "target = None"
    by (auto simp: handle_commitment_downgrade_def split: option.splits if_splits bool.splits)
  with assms(2) map_of_keysD [OF r(1)] show ?thesis
    by (auto simp: distinct_update length_update_present update_conv' clear_commitment_def)
qed

lemma ingest_step:
  assumes ok: "ingest_ok H st" and run: "ingest_peer_commitment env p commitment st = (target, st')"
  shows "ingest_ok (insert (env, p, commitment) H) st' \<and>
    (\<forall>tg. target = Some tg \<longrightarrow> (\<exists>c t. gossiped_by (insert (env, p, commitment) H) p c t (Some (at_pin_hash tg)) \<and>
       sc_key_count c = at_key_count tg \<and> ig_now env - t < GOSSIP_ANSWERABILITY_TTL))"
proof (cases commitment)
  case None
  obtain recs where d: "handle_commitment_downgrade p (ig_now env) (is_records st) (is_records st) = (target, recs)"
    "st' = st\<lparr>is_records := recs\<rparr>"
    using run None by (auto simp: ingest_peer_commitment_def Let_def split: prod.splits)
  have dk: "dkeys (is_records st)" using ok by (simp add: ingest_ok_def)
  note dg = downgrade_ok [OF d(1) dk]
  have "gossiped_by (insert (env, p, commitment) H) q c (pc_received_at r) (pc_cached_hash r)"
    if "map_of recs q = Some r" "pc_last_commitment r = Some c" for q r c
  proof -
    have "map_of (is_records st) q = Some r" using dg that by blast
    then have "gossiped_by H q c (pc_received_at r) (pc_cached_hash r)" using ok that(2) unfolding ingest_ok_def by blast
    then show ?thesis by (rule gossiped_mono) blast
  qed
  with ok dg have "ingest_ok (insert (env, p, commitment) H) st'" unfolding ingest_ok_def d(2) by simp
  moreover have "\<exists>c t. gossiped_by (insert (env, p, commitment) H) p c t (Some (at_pin_hash tg)) \<and>
       sc_key_count c = at_key_count tg \<and> ig_now env - t < GOSSIP_ANSWERABILITY_TTL" if tg: "target = Some tg" for tg
  proof -
    obtain r c where "map_of (is_records st) p = Some r" "pc_last_commitment r = Some c"
       "pc_cached_hash r = Some (at_pin_hash tg)" "sc_key_count c = at_key_count tg"
       "ig_now env - pc_received_at r < GOSSIP_ANSWERABILITY_TTL" using dg tg by blast
    moreover from this have "gossiped_by H p c (pc_received_at r) (pc_cached_hash r)" using ok unfolding ingest_ok_def by blast
    ultimately show ?thesis using gossiped_mono [OF _ subset_insertI] by metis
  qed
  ultimately show ?thesis by blast
next
  case (Some c)
  let ?H = "insert (env, p, commitment) H"
  obtain allowed attempts where rl: "sig_verify_rate_limit_ok (is_attempts st) p (ig_now env) = (allowed, attempts)" by fastforce
  have la: "length attempts \<le> MAX_LAST_COMMITMENT_BY_PEER"
    using rate_limit_bounded(1) [of "is_attempts st" p "ig_now env"] ok rl by (simp add: ingest_ok_def)
  have keep: "ingest_ok ?H st" using ok gossiped_mono [OF _ subset_insertI] unfolding ingest_ok_def by blast
  then have keep1: "ingest_ok ?H (st\<lparr>is_attempts := attempts\<rparr>)" using la by (simp add: ingest_ok_def)
  show ?thesis
  proof (cases "ig_in_routing_table env \<and> sc_sender_peer_id c = p \<and> ig_b3 env (sc_sender_public_key c) = p \<and> allowed \<and>
      ig_verify_signature env c")
    case False
    then have "target = None \<and> (st' = st \<or> st' = st\<lparr>is_attempts := attempts\<rparr>)"
      using run Some rl by (auto simp: ingest_peer_commitment_def Let_def split: if_splits)
    with keep keep1 show ?thesis by auto
  next
    case True
    then have st': "st' = st\<lparr>is_attempts := attempts, is_records := store_commitment env p c (is_records st),
        is_ever_capable := note_capable p (is_ever_capable st)\<rparr>"
      and tg: "target = map_option (\<lambda>pin. \<lparr>at_pin_hash = pin, at_key_count = sc_key_count c\<rparr>) (ig_commitment_hash env c)"
      using run Some rl by (auto simp: ingest_peer_commitment_def Let_def)
    have me: "gossiped_by ?H p c (ig_now env) (ig_commitment_hash env c)"
      using True Some by (auto simp: gossiped_by_def)
    have dl: "dkeys (is_records st)" "length (is_records st) \<le> MAX_LAST_COMMITMENT_BY_PEER" using ok by (simp_all add: ingest_ok_def)
    note sc = store_commitment_ok [OF dl]
    have "gossiped_by ?H q c' (pc_received_at r) (pc_cached_hash r)"
      if "map_of (store_commitment env p c (is_records st)) q = Some r" "pc_last_commitment r = Some c'" for q r c'
    proof (cases "q = p")
      case True
      with sc(4) that me show ?thesis by auto
    next
      case False
      with sc(3) that have "map_of (is_records st) q = Some r" by blast
      with keep that(2) show ?thesis by (auto simp: ingest_ok_def)
    qed
    then have "ingest_ok ?H st'"
      using ok la sc(1,2) note_capable_bounded [of "is_ever_capable st" p] by (simp add: ingest_ok_def st')
    moreover have "ig_now env - ig_now env < GOSSIP_ANSWERABILITY_TTL" by (simp add: GOSSIP_ANSWERABILITY_TTL_def from_secs_def)
    moreover have "at_key_count t = sc_key_count c \<and> ig_commitment_hash env c = Some (at_pin_hash t)" if "target = Some t" for t
      using that tg by auto
    ultimately show ?thesis using me by metis
  qed
qed

lemma run_ingests_ok: "ingest_ok H st \<Longrightarrow> ingest_ok (H \<union> set calls) (run_ingests calls st)"
proof (induction calls arbitrary: H st)
  case (Cons x calls)
  obtain env p c where x: "x = (env, p, c)" by (cases x) auto
  obtain tg st1 where s: "ingest_peer_commitment env p c st = (tg, st1)" by fastforce
  from ingest_step [OF Cons.prems s] have "ingest_ok (insert x H) st1" by (simp add: x)
  from Cons.IH [OF this] show ?case by (simp add: x s)
qed simp

section \<open>Properties\<close>

text \<open>
  C35. An audit pins only what the audited peer signed and sent itself. After any sequence of gossips the
  tables stay within their caps, and every target that a gossip yields (a downgrade to no commitment
  included) is the hash of a commitment that this very peer sent while in the routing table, carrying
  its own id, under a key that hashes to that id and with a valid signature, less than the
  answerability window ago.
\<close>

theorem gossip_pins_own_commitment:
  assumes "ingest_peer_commitment env p commitment (run_ingests calls ingest_new) = (target, st')"
  shows "length (is_records st') \<le> 4096 \<and> length (is_attempts st') \<le> 4096 \<and> card (is_ever_capable st') \<le> 16384 \<and>
    (\<forall>tg. target = Some tg \<longrightarrow> (\<exists>c t. gossiped_by (set calls \<union> {(env, p, commitment)}) p c t (Some (at_pin_hash tg)) \<and>
       sc_key_count c = at_key_count tg \<and> ig_now env - t < GOSSIP_ANSWERABILITY_TTL))"
proof -
  have "ingest_ok {} ingest_new" by (simp add: ingest_ok_def ingest_new_def)
  from run_ingests_ok [OF this, of calls] have "ingest_ok (set calls) (run_ingests calls ingest_new)" by simp
  from ingest_step [OF this assms] show ?thesis
    by (simp add: ingest_ok_def MAX_LAST_COMMITMENT_BY_PEER_def MAX_EVER_CAPABLE_PEERS_def)
qed

definition example_ingest_env :: "instant \<Rightarrow> ingest_env" where
  "example_ingest_env t = \<lparr>ig_in_routing_table = True, ig_b3 = \<lambda>_. 5, ig_verify_signature = \<lambda>_. True,
     ig_commitment_hash = \<lambda>c. Some (sc_root c), ig_now = t\<rparr>"

definition example_gossip :: storage_commitment where
  "example_gossip = \<lparr>sc_root = 77, sc_key_count = 3, sc_sender_peer_id = 5, sc_sender_public_key = [1], sc_signature = []\<rparr>"

text \<open>The peer gossips a commitment and a second later none: the downgrade is audited against the first.\<close>

theorem gossip_pins_own_commitment_witness:
  "fst (ingest_peer_commitment (example_ingest_env (from_secs 1)) 5 None
      (run_ingests [(example_ingest_env 0, 5, Some example_gossip)] ingest_new)) = Some \<lparr>at_pin_hash = 77, at_key_count = 3\<rparr> \<and>
   (\<exists>c t. gossiped_by {(example_ingest_env 0, 5, Some example_gossip), (example_ingest_env (from_secs 1), 5, None)} 5 c t (Some 77) \<and>
      sc_key_count c = 3)"
proof -
  let ?calls = "[(example_ingest_env 0, 5, Some example_gossip)]"
  have run: "fst (ingest_peer_commitment (example_ingest_env (from_secs 1)) 5 None (run_ingests ?calls ingest_new)) =
      Some \<lparr>at_pin_hash = 77, at_key_count = 3\<rparr>"
    by (simp add: ingest_peer_commitment_def example_ingest_env_def example_gossip_def ingest_new_def
        sig_verify_rate_limit_ok_def make_room_def MAX_LAST_COMMITMENT_BY_PEER_def store_commitment_def from_verified_def
        handle_commitment_downgrade_def GOSSIP_ANSWERABILITY_TTL_def from_secs_def)
  obtain st' where "ingest_peer_commitment (example_ingest_env (from_secs 1)) 5 None (run_ingests ?calls ingest_new) =
      (Some \<lparr>at_pin_hash = 77, at_key_count = 3\<rparr>, st')" using run by (metis prod.collapse)
  from gossip_pins_own_commitment [OF this] run show ?thesis by (auto simp: insert_commute)
qed



end
