(* ===== verification/First_Audit.thy ===== *)
theory First_Audit
  imports Payment_Verifier Gossip_Audit
begin

text \<open>
  The first-audit drainer (src/src/replication/mod.rs): pins that backed a payment wait, newest per
  peer, until each gets one audit without lottery. The loop is split at the points where other tasks
  can run; senders and gossip triggers interleave with it. The two containers of the \<open>lru\<close> crate are
  parameters; system times and instants are arguments.
\<close>

section \<open>The drainer\<close>

definition MONETIZED_AUDIT_SKEW_MARGIN :: duration where "MONETIZED_AUDIT_SKEW_MARGIN = from_secs (30 * 60)"

definition FIRST_AUDIT_DRAIN_BATCH :: nat where "FIRST_AUDIT_DRAIN_BATCH = 64"

definition quote_within_audit_window :: "nat \<Rightarrow> nat \<Rightarrow> bool" where
  "quote_within_audit_window quote_ts now =
     (let too_future = (quote_ts \<ge> now \<and> quote_ts - now > MONETIZED_AUDIT_SKEW_MARGIN);
          audit_cutoff = GOSSIP_ANSWERABILITY_TTL - MONETIZED_AUDIT_SKEW_MARGIN;
          too_old = (now \<ge> quote_ts \<and> now - quote_ts \<ge> audit_cutoff)
      in \<not> (too_future \<or> too_old))"

record ('p, 'f) drainer_lrus =
  dl_pending :: "(peer_id, monetized_pin_event, 'p) lru_ops"
  dl_audited :: "(hash32, unit, 'f) lru_ops"

text \<open>What happens to an event, in the order in which it happens.\<close>

datatype drain_log =
    Queued monetized_pin_event
  | Launched monetized_pin_event nat instant
  | OutOfWindow monetized_pin_event nat

record ('p, 'f) drainer =
  dr_channel :: "monetized_pin_event list"
  dr_pending :: 'p
  dr_first_audited :: 'f
  dr_snapshot :: "(peer_id \<times> monetized_pin_event) list"
  dr_cooldown :: stamps_by_peer
  dr_log :: "drain_log list"

definition drainer_new :: "('p, 'f) drainer_lrus \<Rightarrow> ('p, 'f) drainer" where
  "drainer_new lr =
     \<lparr>dr_channel = [], dr_pending = lru_new (dl_pending lr) MAX_LAST_COMMITMENT_BY_PEER,
      dr_first_audited = lru_new (dl_audited lr) MAX_LAST_COMMITMENT_BY_PEER, dr_snapshot = [],
      dr_cooldown = [], dr_log = []\<rparr>"

definition receive_event :: "('p, 'f) drainer_lrus \<Rightarrow> monetized_pin_event \<Rightarrow> ('p, 'f) drainer \<Rightarrow> ('p, 'f) drainer" where
  "receive_event lr e d =
     (if lru_peek (dl_audited lr) (dr_first_audited d) (me_pin e) = None
      then d\<lparr>dr_pending := lru_put (dl_pending lr) (me_peer e) e (dr_pending d), dr_log := dr_log d @ [Queued e]\<rparr>
      else d)"

definition receive_batch :: "('p, 'f) drainer_lrus \<Rightarrow> ('p, 'f) drainer \<Rightarrow> ('p, 'f) drainer" where
  "receive_batch lr d =
     fold (receive_event lr) (take FIRST_AUDIT_DRAIN_BATCH (dr_channel d))
       (d\<lparr>dr_channel := drop FIRST_AUDIT_DRAIN_BATCH (dr_channel d)\<rparr>)"

definition snapshot_pending :: "('p, 'f) drainer_lrus \<Rightarrow> ('p, 'f) drainer \<Rightarrow> ('p, 'f) drainer" where
  "snapshot_pending lr d =
     (if lru_iter (dl_pending lr) (dr_pending d) = [] then d
      else d\<lparr>dr_snapshot := rev (lru_iter (dl_pending lr) (dr_pending d)),
             dr_pending := lru_clear (dl_pending lr) (dr_pending d)\<rparr>)"

text \<open>One entry of the snapshot; the spawned task is the last log entry.\<close>

definition audit_item :: "('p, 'f) drainer_lrus \<Rightarrow> nat \<Rightarrow> instant \<Rightarrow> ('p, 'f) drainer \<Rightarrow> ('p, 'f) drainer" where
  "audit_item lr sys now d =
     (case dr_snapshot d of
        [] \<Rightarrow> d
      | (peer, event) # rest \<Rightarrow>
          let d1 = d\<lparr>dr_snapshot := rest\<rparr>
          in if lru_peek (dl_audited lr) (dr_first_audited d1) (me_pin event) \<noteq> None then d1
             else if \<not> quote_within_audit_window (me_quote_ts event) sys
             then d1\<lparr>dr_log := dr_log d1 @ [OutOfWindow event sys]\<rparr>
             else
               let (allowed, m) = cooldown_allows_audit (dr_cooldown d1) peer now; d2 = d1\<lparr>dr_cooldown := m\<rparr>
               in if \<not> allowed then d2\<lparr>dr_pending := lru_put (dl_pending lr) peer event (dr_pending d2)\<rparr>
                  else d2\<lparr>dr_first_audited := lru_put (dl_audited lr) (me_pin event) () (dr_first_audited d2),
                          dr_log := dr_log d2 @ [Launched event sys now]\<rparr>)"

datatype drain_op =
    Monetized monetized_pin_event
  | Wake
  | Tick
  | Item nat instant
  | Gossip peer_id instant bool

text \<open>The loop waits only between snapshots; a sender and a gossip trigger can run at any point.\<close>

fun drain_step :: "('p, 'f) drainer_lrus \<Rightarrow> drain_op \<Rightarrow> ('p, 'f) drainer \<Rightarrow> ('p, 'f) drainer" where
  "drain_step lr (Monetized e) d = d\<lparr>dr_channel := dr_channel d @ [e]\<rparr>"
| "drain_step lr Wake d =
     (if dr_snapshot d = [] \<and> dr_channel d \<noteq> [] then snapshot_pending lr (receive_batch lr d) else d)"
| "drain_step lr Tick d = (if dr_snapshot d = [] then snapshot_pending lr d else d)"
| "drain_step lr (Item sys now) d = audit_item lr sys now d"
| "drain_step lr (Gossip p now wins) d = d\<lparr>dr_cooldown := snd (audit_launch_decision (dr_cooldown d) p now wins)\<rparr>"

definition run_drainer :: "('p, 'f) drainer_lrus \<Rightarrow> drain_op list \<Rightarrow> ('p, 'f) drainer" where
  "run_drainer lr ops = fold (drain_step lr) ops (drainer_new lr)"

section \<open>What the containers promise\<close>

text \<open>Besides \<open>lru_ok\<close>: a container evicts nothing while its entries fit its capacity.\<close>

definition lru_roomy :: "('k, 'v, 'c) lru_ops \<Rightarrow> ('c \<Rightarrow> nat) \<Rightarrow> bool" where
  "lru_roomy ops capf \<longleftrightarrow>
     (\<forall>n. 0 < n \<longrightarrow> capf (lru_new ops n) = n) \<and> (\<forall>k v c. capf (lru_put ops k v c) = capf c) \<and>
     (\<forall>c. capf (lru_clear ops c) = capf c) \<and>
     (\<forall>k v c. card (insert k (dom (lru_peek ops c))) \<le> capf c \<longrightarrow> lru_peek ops (lru_put ops k v c) = (lru_peek ops c)(k \<mapsto> v))"

lemma list_lru_roomy: "lru_roomy (list_lru :: ('k, 'v, nat \<times> ('k \<times> 'v) list) lru_ops) fst"
proof -
  have "map_of (take (cap - 1) (filter (\<lambda>(j, _). j \<noteq> k) (AList.clearjunk es))) = (map_of es)(k := None)"
    if "card (insert k (dom (map_of es))) \<le> cap" for k :: 'k and cap and es :: "('k \<times> 'v) list"
  proof -
    let ?fs = "filter (\<lambda>(j, _). j \<noteq> k) (AList.clearjunk es)"
    have "distinct (map fst ?fs)" by (simp add: distinct_clearjunk distinct_map_filter)
    then have "length ?fs = card (fst ` set ?fs)" by (metis distinct_card length_map set_map)
    also have "fst ` set ?fs = dom (map_of ?fs)" by (rule dom_map_of_conv_image_fst [symmetric])
    also have "\<dots> = dom (map_of es) - {k}" by (simp add: map_of_filter_key map_of_clearjunk)
    finally have "length ?fs \<le> cap - 1" using that by (simp add: card.insert_remove finite_dom_map_of)
    then show ?thesis by (simp add: map_of_filter_key map_of_clearjunk)
  qed
  then show ?thesis by (auto simp: lru_roomy_def list_lru_def fun_eq_iff split: prod.splits)
qed

section \<open>The invariant\<close>

fun launched_pins :: "drain_log list \<Rightarrow> hash32 list" where
  "launched_pins [] = []"
| "launched_pins (Launched e sys now # l) = me_pin e # launched_pins l"
| "launched_pins (_ # l) = launched_pins l"

lemma launched_pins_append [simp]: "launched_pins (l @ l') = launched_pins l @ launched_pins l'"
  by (induction l rule: launched_pins.induct) auto

lemma launched_pins_set: "pin \<in> set (launched_pins l) \<longleftrightarrow> (\<exists>e sys now. Launched e sys now \<in> set l \<and> me_pin e = pin)"
  by (induction l rule: launched_pins.induct) auto

text \<open>The event of each peer that was queued last.\<close>

definition newest :: "drain_log list \<Rightarrow> peer_id \<rightharpoonup> monetized_pin_event" where
  "newest l = foldl (\<lambda>m x. case x of Queued e \<Rightarrow> m(me_peer e \<mapsto> e) | _ \<Rightarrow> m) Map.empty l"

lemma newest_snoc [simp]:
  "newest [] = Map.empty" "newest (l @ [Queued e]) = (newest l)(me_peer e \<mapsto> e)"
  "newest (l @ [Launched e sys now]) = newest l" "newest (l @ [OutOfWindow e sys]) = newest l"
  by (simp_all add: newest_def)

lemma newest_queued: "newest l p = Some e \<Longrightarrow> me_peer e = p \<and> Queued e \<in> set l"
proof (induction l rule: rev_induct)
  case (snoc x l)
  then show ?case by (cases x) (auto split: if_splits)
qed simp

definition settled :: "drain_log list \<Rightarrow> monetized_pin_event \<Rightarrow> bool" where
  "settled l e \<longleftrightarrow> me_pin e \<in> set (launched_pins l) \<or> (\<exists>sys. OutOfWindow e sys \<in> set l)"

definition waiting :: "('p, 'f) drainer_lrus \<Rightarrow> ('p, 'f) drainer \<Rightarrow> monetized_pin_event \<Rightarrow> bool" where
  "waiting lr d e \<longleftrightarrow> lru_peek (dl_pending lr) (dr_pending d) (me_peer e) = Some e \<or> (me_peer e, e) \<in> set (dr_snapshot d)"

abbreviation pending_of :: "('p, 'f) drainer_lrus \<Rightarrow> ('p, 'f) drainer \<Rightarrow> peer_id \<Rightarrow> monetized_pin_event option" where
  "pending_of lr d \<equiv> lru_peek (dl_pending lr) (dr_pending d)"

abbreviation audited_of :: "('p, 'f) drainer_lrus \<Rightarrow> ('p, 'f) drainer \<Rightarrow> hash32 \<Rightarrow> unit option" where
  "audited_of lr d \<equiv> lru_peek (dl_audited lr) (dr_first_audited d)"

text \<open>A pin is queued only before its audit.\<close>

definition fresh_queued :: "drain_log list \<Rightarrow> bool" where
  "fresh_queued l \<longleftrightarrow> (\<forall>l1 e l2. l = l1 @ Queued e # l2 \<longrightarrow> me_pin e \<notin> set (launched_pins l1))"

lemma fresh_queued_snoc:
  "fresh_queued (l @ [x]) \<longleftrightarrow> fresh_queued l \<and> (\<forall>e. x = Queued e \<longrightarrow> me_pin e \<notin> set (launched_pins l))"
proof -
  have "l @ [x] = l1 @ Queued e # l2 \<longleftrightarrow> l2 = [] \<and> l = l1 \<and> x = Queued e \<or> (\<exists>l2'. l2 = l2' @ [x] \<and> l = l1 @ Queued e # l2')" for l1 e l2
    by (cases l2 rule: rev_cases) auto
  then show ?thesis unfolding fresh_queued_def by metis
qed

definition log_ok :: "monetized_pin_event list \<Rightarrow> drain_log list \<Rightarrow> bool" where
  "log_ok recv l \<longleftrightarrow> (\<forall>e\<in>set recv. Queued e \<in> set l \<or> me_pin e \<in> set (launched_pins l)) \<and>
     (\<forall>e. Queued e \<in> set l \<longrightarrow> e \<in> set recv) \<and> distinct (launched_pins l) \<and> fresh_queued l \<and>
     (\<forall>e sys now. Launched e sys now \<in> set l \<longrightarrow> Queued e \<in> set l \<and> quote_within_audit_window (me_quote_ts e) sys)"

definition queue_ok :: "('p, 'f) drainer_lrus \<Rightarrow> ('p, 'f) drainer \<Rightarrow> bool" where
  "queue_ok lr d \<longleftrightarrow> dom (audited_of lr d) = set (launched_pins (dr_log d)) \<and>
     (\<forall>p e. pending_of lr d p = Some e \<or> (p, e) \<in> set (dr_snapshot d) \<longrightarrow> me_peer e = p \<and> Queued e \<in> set (dr_log d)) \<and>
     (\<forall>p e. newest (dr_log d) p = Some e \<longrightarrow> settled (dr_log d) e \<or> waiting lr d e) \<and>
     distinct (map fst (dr_snapshot d)) \<and> dom (pending_of lr d) \<inter> fst ` set (dr_snapshot d) = {}"

definition drain_lrus_ok :: "('p, 'f) drainer_lrus \<Rightarrow> ('p \<Rightarrow> nat) \<Rightarrow> ('f \<Rightarrow> nat) \<Rightarrow> bool" where
  "drain_lrus_ok lr capp capf \<longleftrightarrow> lru_ok (dl_pending lr) \<and> lru_ok (dl_audited lr) \<and>
     lru_roomy (dl_pending lr) capp \<and> lru_roomy (dl_audited lr) capf"

definition caps_ok :: "('p \<Rightarrow> nat) \<Rightarrow> ('f \<Rightarrow> nat) \<Rightarrow> ('p, 'f) drainer \<Rightarrow> bool" where
  "caps_ok capp capf d \<longleftrightarrow> capp (dr_pending d) = 4096 \<and> capf (dr_first_audited d) = 4096"

definition few :: "monetized_pin_event list \<Rightarrow> bool" where
  "few es \<longleftrightarrow> card (me_peer ` set es) \<le> 4096 \<and> card (me_pin ` set es) \<le> 4096"

lemma roomy_put:
  assumes "lru_roomy ops capf" "dom (lru_peek ops c) \<subseteq> S" "k \<in> S" "finite S" "card S \<le> capf c"
  shows "lru_peek ops (lru_put ops k v c) = (lru_peek ops c)(k \<mapsto> v)"
proof -
  have "card (insert k (dom (lru_peek ops c))) \<le> card S" using assms(2,3,4) by (intro card_mono) auto
  with assms(1,5) show ?thesis unfolding lru_roomy_def by auto
qed

lemma put_pending:
  assumes "drain_lrus_ok lr capp capf" "caps_ok capp capf d" "queue_ok lr d" "log_ok recv (dr_log d)" "few es"
    "set recv \<subseteq> set es" "p \<in> me_peer ` set es"
  shows "lru_peek (dl_pending lr) (lru_put (dl_pending lr) p e (dr_pending d)) = (pending_of lr d)(p \<mapsto> e)"
proof (rule roomy_put)
  show "lru_roomy (dl_pending lr) capp" using assms(1) by (simp add: drain_lrus_ok_def)
  show "dom (pending_of lr d) \<subseteq> me_peer ` set es"
    using assms(3,4,6) by (fastforce simp: queue_ok_def log_ok_def)
  show "card (me_peer ` set es) \<le> capp (dr_pending d)" using assms(2,5) by (simp add: few_def caps_ok_def)
qed (use assms(7) in simp_all)

lemma put_audited:
  assumes "drain_lrus_ok lr capp capf" "caps_ok capp capf d" "queue_ok lr d" "log_ok recv (dr_log d)" "few es"
    "set recv \<subseteq> set es" "pin \<in> me_pin ` set es"
  shows "lru_peek (dl_audited lr) (lru_put (dl_audited lr) pin u (dr_first_audited d)) = (audited_of lr d)(pin \<mapsto> u)"
proof (rule roomy_put)
  show "lru_roomy (dl_audited lr) capf" using assms(1) by (simp add: drain_lrus_ok_def)
  show "dom (audited_of lr d) \<subseteq> me_pin ` set es"
  proof
    fix x assume "x \<in> dom (audited_of lr d)"
    then obtain e sys now where "Launched e sys now \<in> set (dr_log d)" "me_pin e = x"
      using assms(3) by (auto simp: queue_ok_def launched_pins_set)
    then show "x \<in> me_pin ` set es" using assms(4,6) unfolding log_ok_def by blast
  qed
  show "card (me_pin ` set es) \<le> capf (dr_first_audited d)" using assms(2,5) by (simp add: few_def caps_ok_def)
qed (use assms(7) in simp_all)

lemma caps_put:
  assumes "drain_lrus_ok lr capp capf" "caps_ok capp capf d"
  shows "capp (lru_put (dl_pending lr) p e (dr_pending d)) = 4096" "capf (lru_put (dl_audited lr) pin u (dr_first_audited d)) = 4096"
    "capp (lru_clear (dl_pending lr) (dr_pending d)) = 4096"
  using assms by (simp_all add: drain_lrus_ok_def lru_roomy_def caps_ok_def)

lemma receive_ok:
  assumes lr: "drain_lrus_ok lr capp capf" "few es" and sub: "set (recv @ [e]) \<subseteq> set es"
    and d: "caps_ok capp capf d" "queue_ok lr d" "log_ok recv (dr_log d)" "dr_snapshot d = []"
  shows "caps_ok capp capf (receive_event lr e d) \<and> queue_ok lr (receive_event lr e d) \<and>
    log_ok (recv @ [e]) (dr_log (receive_event lr e d)) \<and> dr_snapshot (receive_event lr e d) = []"
proof (cases "audited_of lr d (me_pin e)")
  case (Some u)
  then have "me_pin e \<in> set (launched_pins (dr_log d))" using d(2) by (auto simp: queue_ok_def)
  with Some d show ?thesis by (auto simp: receive_event_def log_ok_def)
next
  case None
  let ?d = "receive_event lr e d"
  have p: "pending_of lr ?d = (pending_of lr d)(me_peer e \<mapsto> e)"
    using put_pending [OF lr(1) d(1,2,3) lr(2), of "me_peer e" e] sub None by (simp add: receive_event_def)
  have l: "dr_log ?d = dr_log d @ [Queued e]" "dr_first_audited ?d = dr_first_audited d" "dr_snapshot ?d = []"
    using None d(4) by (simp_all add: receive_event_def)
  have "settled (dr_log ?d) x \<or> waiting lr ?d x" if n: "newest (dr_log ?d) q = Some x" for q x
  proof (cases "x = e")
    case False
    with n have "newest (dr_log d) q = Some x" "q \<noteq> me_peer e" by (auto simp: l split: if_splits)
    moreover from this have "me_peer x = q" by (simp add: newest_queued)
    moreover have "settled (dr_log d) x \<or> waiting lr d x" using calculation(1) d(2) by (auto simp: queue_ok_def)
    ultimately show ?thesis
      using d(4) by (auto simp: waiting_def settled_def p l)
  qed (simp add: waiting_def p)
  then have "queue_ok lr ?d" using d(2) unfolding queue_ok_def by (auto simp: p l split: if_splits)
  moreover have "caps_ok capp capf ?d" using caps_put [OF lr(1) d(1)] d(1) None by (simp add: receive_event_def caps_ok_def)
  moreover have "me_pin e \<notin> set (launched_pins (dr_log d))" using None d(2) by (auto simp: queue_ok_def)
  then have "log_ok (recv @ [e]) (dr_log ?d)" using d(3) unfolding l log_ok_def by (auto simp: fresh_queued_snoc)
  ultimately show ?thesis by (simp add: l)
qed

lemma receive_all_ok:
  assumes lr: "drain_lrus_ok lr capp capf" "few es"
  shows "set (recv @ batch) \<subseteq> set es \<Longrightarrow> caps_ok capp capf d \<Longrightarrow> queue_ok lr d \<Longrightarrow> log_ok recv (dr_log d) \<Longrightarrow>
    dr_snapshot d = [] \<Longrightarrow>
    caps_ok capp capf (fold (receive_event lr) batch d) \<and> queue_ok lr (fold (receive_event lr) batch d) \<and>
    log_ok (recv @ batch) (dr_log (fold (receive_event lr) batch d)) \<and> dr_snapshot (fold (receive_event lr) batch d) = []"
proof (induction batch arbitrary: recv d)
  case (Cons e batch)
  have "set (recv @ [e]) \<subseteq> set es" using Cons.prems(1) by simp
  from receive_ok [OF lr this Cons.prems(2-5)] Cons.IH [of "recv @ [e]" "receive_event lr e d"] Cons.prems(1)
  show ?case by simp
qed simp

lemma receive_keeps_channel: "dr_channel (fold (receive_event lr) batch d) = dr_channel d"
  by (induction batch arbitrary: d) (auto simp: receive_event_def)

lemma snapshot_ok:
  assumes lr: "drain_lrus_ok lr capp capf" and d: "caps_ok capp capf d" "queue_ok lr d" "dr_snapshot d = []"
  shows "caps_ok capp capf (snapshot_pending lr d) \<and> queue_ok lr (snapshot_pending lr d)"
proof -
  have it: "distinct (map fst (lru_iter (dl_pending lr) (dr_pending d)))"
    "map_of (lru_iter (dl_pending lr) (dr_pending d)) = pending_of lr d"
    "lru_peek (dl_pending lr) (lru_clear (dl_pending lr) (dr_pending d)) = Map.empty"
    using lr by (auto simp: drain_lrus_ok_def lru_ok_def)
  then have mem: "(p, e) \<in> set (lru_iter (dl_pending lr) (dr_pending d)) \<longleftrightarrow> pending_of lr d p = Some e" for p e
    by (metis map_of_eq_Some_iff)
  have "queue_ok lr (snapshot_pending lr d)"
    using d(2,3) it(1,3) unfolding queue_ok_def
    by (auto simp: snapshot_pending_def mem waiting_def rev_map [symmetric])
  then show ?thesis using d(1) caps_put(3) [OF lr d(1)] by (simp add: snapshot_pending_def caps_ok_def)
qed

lemma item_ok:
  assumes lr: "drain_lrus_ok lr capp capf" "few es" and sub: "set recv \<subseteq> set es"
    and d: "caps_ok capp capf d" "queue_ok lr d" "log_ok recv (dr_log d)"
  shows "caps_ok capp capf (audit_item lr sys now d) \<and> queue_ok lr (audit_item lr sys now d) \<and>
    log_ok recv (dr_log (audit_item lr sys now d))"
proof (cases "dr_snapshot d")
  case (Cons x rest)
  obtain p e where x: "x = (p, e)" by (cases x)
  have pe: "me_peer e = p" "Queued e \<in> set (dr_log d)" "e \<in> set recv"
    using d(2,3) by (auto simp: queue_ok_def log_ok_def Cons x)
  then have in_es: "p \<in> me_peer ` set es" "me_pin e \<in> me_pin ` set es" using sub by auto
  have free: "pending_of lr d p = None" "p \<notin> fst ` set rest" using d(2) by (auto simp: queue_ok_def Cons x)
  obtain allowed m where cd: "cooldown_allows_audit (dr_cooldown d) p now = (allowed, m)" by fastforce
  let ?d = "audit_item lr sys now d"
  consider (known) "audited_of lr d (me_pin e) \<noteq> None"
    | (late) "audited_of lr d (me_pin e) = None" "\<not> quote_within_audit_window (me_quote_ts e) sys"
    | (blocked) "audited_of lr d (me_pin e) = None" "quote_within_audit_window (me_quote_ts e) sys" "\<not> allowed"
    | (launch) "audited_of lr d (me_pin e) = None" "quote_within_audit_window (me_quote_ts e) sys" "allowed" by blast
  then show ?thesis
  proof cases
    case known
    then have r: "?d = d\<lparr>dr_snapshot := rest\<rparr>" by (simp add: audit_item_def Cons x)
    have "settled (dr_log d) e" using known d(2) by (auto simp: queue_ok_def settled_def)
    then have "queue_ok lr ?d" using d(2) pe unfolding queue_ok_def r by (auto simp: Cons x waiting_def)
    then show ?thesis using d(1,3) by (simp add: r caps_ok_def)
  next
    case late
    then have r: "?d = d\<lparr>dr_snapshot := rest, dr_log := dr_log d @ [OutOfWindow e sys]\<rparr>" by (simp add: audit_item_def Cons x)
    have "settled (dr_log ?d) y \<or> waiting lr ?d y" if "newest (dr_log d) q = Some y" for q y
    proof (cases "y = e")
      case False
      have "settled (dr_log d) y \<or> waiting lr d y" using d(2) that by (simp add: queue_ok_def)
      with False show ?thesis by (auto simp: waiting_def settled_def r Cons x)
    qed (auto simp: settled_def r)
    then have "queue_ok lr ?d" using d(2) pe unfolding queue_ok_def by (auto simp: Cons x r)
    moreover have "log_ok recv (dr_log ?d)" using d(3) unfolding log_ok_def r by (auto simp: fresh_queued_snoc)
    ultimately show ?thesis using d(1) by (simp add: r caps_ok_def)
  next
    case blocked
    then have r: "?d = d\<lparr>dr_snapshot := rest, dr_cooldown := m, dr_pending := lru_put (dl_pending lr) p e (dr_pending d)\<rparr>"
      by (simp add: audit_item_def Cons x cd)
    have pp: "lru_peek (dl_pending lr) (lru_put (dl_pending lr) (me_peer e) e (dr_pending d)) = (pending_of lr d)(me_peer e \<mapsto> e)"
      using put_pending [OF lr(1) d lr(2) sub in_es(1), of e] pe(1) by simp
    have "settled (dr_log ?d) y \<or> waiting lr ?d y" if "newest (dr_log d) q = Some y" for q y
    proof (cases "y = e")
      case False
      have "settled (dr_log d) y \<or> waiting lr d y" using d(2) that by (simp add: queue_ok_def)
      with False free pe(1) show ?thesis by (auto simp: waiting_def settled_def r Cons x pp)
    qed (simp add: waiting_def r pp pe(1) [symmetric])
    moreover have "dom (pending_of lr d) \<inter> fst ` set rest = {}" "distinct (map fst rest)"
      using d(2) by (auto simp: queue_ok_def Cons x)
    then have "dom ((pending_of lr d)(me_peer e \<mapsto> e)) \<inter> fst ` set rest = {}" using free(2) pe(1) by simp
    moreover have "me_peer y = q \<and> Queued y \<in> set (dr_log d)"
      if "((pending_of lr d)(me_peer e \<mapsto> e)) q = Some y \<or> (q, y) \<in> set rest" for q y
      using that d(2) pe unfolding queue_ok_def Cons x by (auto split: if_splits)
    moreover have "pending_of lr ?d = (pending_of lr d)(me_peer e \<mapsto> e)" "dr_snapshot ?d = rest" "dr_log ?d = dr_log d"
      "audited_of lr ?d = audited_of lr d" using pp pe(1) by (simp_all add: r)
    moreover have "dom (audited_of lr d) = set (launched_pins (dr_log d))" using d(2) by (simp add: queue_ok_def)
    ultimately have "queue_ok lr ?d" using \<open>distinct (map fst rest)\<close> unfolding queue_ok_def by (metis (no_types))
    then show ?thesis using d(1,3) caps_put(1) [OF lr(1) d(1)] by (simp add: r caps_ok_def)
  next
    case launch
    then have r: "?d = d\<lparr>dr_snapshot := rest, dr_cooldown := m,
        dr_first_audited := lru_put (dl_audited lr) (me_pin e) () (dr_first_audited d), dr_log := dr_log d @ [Launched e sys now]\<rparr>"
      by (simp add: audit_item_def Cons x cd)
    have aa: "audited_of lr ?d = (audited_of lr d)(me_pin e \<mapsto> ())"
      using put_audited [OF lr(1) d lr(2) sub in_es(2), of "()"] by (simp add: r)
    have "queue_ok lr ?d" using d(2) pe unfolding queue_ok_def aa by (auto simp: Cons x waiting_def settled_def r)
    moreover have "me_pin e \<notin> set (launched_pins (dr_log d))" using launch(1) d(2) by (auto simp: queue_ok_def)
    then have "log_ok recv (dr_log ?d)" using d(3) launch(2) pe(2) unfolding log_ok_def r by (auto simp: fresh_queued_snoc)
    ultimately show ?thesis using d(1) caps_put(2) [OF lr(1) d(1)] by (simp add: r caps_ok_def)
  qed
qed (use d in \<open>simp add: audit_item_def\<close>)

section \<open>Properties\<close>

definition monetized :: "drain_op list \<Rightarrow> monetized_pin_event list" where
  "monetized ops = concat (map (\<lambda>op. case op of Monetized e \<Rightarrow> [e] | _ \<Rightarrow> []) ops)"

lemma step_ok:
  assumes lr: "drain_lrus_ok lr capp capf" "few es" and sub: "set (recv @ dr_channel d) \<subseteq> set es"
    and d: "caps_ok capp capf d" "queue_ok lr d" "log_ok recv (dr_log d)"
    and op: "set (monetized [op]) \<subseteq> set es"
  shows "\<exists>recv'. caps_ok capp capf (drain_step lr op d) \<and> queue_ok lr (drain_step lr op d) \<and>
    log_ok recv' (dr_log (drain_step lr op d)) \<and>
    recv' @ dr_channel (drain_step lr op d) = (recv @ dr_channel d) @ monetized [op]"
proof (cases op)
  case Wake
  show ?thesis
  proof (cases "dr_snapshot d = [] \<and> dr_channel d \<noteq> []")
    case True
    let ?b = "take FIRST_AUDIT_DRAIN_BATCH (dr_channel d)" and ?d0 = "d\<lparr>dr_channel := drop FIRST_AUDIT_DRAIN_BATCH (dr_channel d)\<rparr>"
    have s: "set (recv @ ?b) \<subseteq> set es" using sub set_take_subset [of FIRST_AUDIT_DRAIN_BATCH "dr_channel d"] by auto
    have d0: "caps_ok capp capf ?d0" "queue_ok lr ?d0" "log_ok recv (dr_log ?d0)" "dr_snapshot ?d0 = []"
      using d True by (simp_all add: caps_ok_def queue_ok_def waiting_def)
    note rb = receive_all_ok [OF lr s d0, folded receive_batch_def]
    have "dr_channel (snapshot_pending lr (receive_batch lr d)) = drop FIRST_AUDIT_DRAIN_BATCH (dr_channel d)"
      "dr_log (snapshot_pending lr (receive_batch lr d)) = dr_log (receive_batch lr d)"
      by (simp_all add: snapshot_pending_def receive_batch_def receive_keeps_channel)
    with rb snapshot_ok [OF lr(1), of "receive_batch lr d"] True Wake show ?thesis
      by (intro exI [of _ "recv @ ?b"]) (simp add: monetized_def)
  next
    case False
    then have "drain_step lr op d = d" using Wake by auto
    with d show ?thesis by (auto simp: Wake monetized_def)
  qed
next
  case Tick
  with d snapshot_ok [OF lr(1) d(1,2)] show ?thesis
    by (intro exI [of _ recv]) (auto simp: monetized_def snapshot_pending_def)
next
  case (Item sys now)
  have "dr_channel (audit_item lr sys now d) = dr_channel d"
    by (auto simp: audit_item_def Let_def split: list.splits prod.splits)
  moreover have "set recv \<subseteq> set es" using sub by simp
  ultimately show ?thesis using item_ok [OF lr _ d, of sys now] by (intro exI [of _ recv]) (simp add: Item monetized_def)
qed (use d in \<open>auto simp: monetized_def caps_ok_def queue_ok_def waiting_def intro!: exI [of _ recv]\<close>)

lemma run_ok:
  assumes "drain_lrus_ok lr capp capf" "few (monetized ops)"
  shows "\<exists>recv. caps_ok capp capf (run_drainer lr ops) \<and> queue_ok lr (run_drainer lr ops) \<and>
    log_ok recv (dr_log (run_drainer lr ops)) \<and> recv @ dr_channel (run_drainer lr ops) = monetized ops"
  using assms(2)
proof -
  have "set (monetized ops') \<subseteq> set (monetized ops) \<Longrightarrow> \<exists>recv. caps_ok capp capf (run_drainer lr ops') \<and> queue_ok lr (run_drainer lr ops') \<and>
    log_ok recv (dr_log (run_drainer lr ops')) \<and> recv @ dr_channel (run_drainer lr ops') = monetized ops'" for ops'
  proof (induction ops' rule: rev_induct)
    case Nil
    have "lru_peek (dl_pending lr) (lru_new (dl_pending lr) n) = Map.empty" "lru_peek (dl_audited lr) (lru_new (dl_audited lr) n) = Map.empty"
      "0 < n \<Longrightarrow> capp (lru_new (dl_pending lr) n) = n" "0 < n \<Longrightarrow> capf (lru_new (dl_audited lr) n) = n" for n
      using assms(1) by (auto simp: drain_lrus_ok_def lru_ok_def lru_roomy_def fun_eq_iff)
    then show ?case
      by (simp add: run_drainer_def drainer_new_def caps_ok_def queue_ok_def log_ok_def fresh_queued_def monetized_def MAX_LAST_COMMITMENT_BY_PEER_def)
  next
    case (snoc op ops')
    have m: "monetized (ops' @ [op]) = monetized ops' @ monetized [op]" by (simp add: monetized_def)
    with snoc.prems have sub: "set (monetized ops') \<subseteq> set (monetized ops)" "set (monetized [op]) \<subseteq> set (monetized ops)" by auto
    from snoc.IH [OF sub(1)] obtain recv where ih: "caps_ok capp capf (run_drainer lr ops')" "queue_ok lr (run_drainer lr ops')"
      "log_ok recv (dr_log (run_drainer lr ops'))" "recv @ dr_channel (run_drainer lr ops') = monetized ops'" by blast
    have "run_drainer lr (ops' @ [op]) = drain_step lr op (run_drainer lr ops')" by (simp add: run_drainer_def)
    with step_ok [OF assms _ ih(1-3) sub(2)] ih(4) sub(1) m show ?case by metis
  qed
  then show ?thesis by blast
qed

text \<open>
  C30. A pin that backed a payment gets one first audit and is not forgotten. As long as at most 4096 peers
  and pins are involved, in every interleaving of senders, gossip triggers and the drainer: every
  audit launched belongs to a monetized event and its quote is at most half an hour ahead of the
  clock and less than two and a half hours behind it; no pin is audited twice; an event taken from the
  channel was queued unless its pin had its audit, and only then, so that an audited pin never displaces
  one that waits; and the pin last queued for a peer is still waiting
  until its audit was launched or its quote had left the window.
\<close>

theorem first_audit_once_not_lost:
  assumes "lru_ok (dl_pending lr)" "lru_ok (dl_audited lr)" "lru_roomy (dl_pending lr) capp" "lru_roomy (dl_audited lr) capf"
    and "card (me_peer ` set (monetized ops)) \<le> 4096" and "card (me_pin ` set (monetized ops)) \<le> 4096"
  defines "d \<equiv> run_drainer lr ops"
  shows "(\<forall>e sys now. Launched e sys now \<in> set (dr_log d) \<longrightarrow> e \<in> set (monetized ops) \<and>
      me_quote_ts e \<le> sys + from_secs (30 * 60) \<and> sys < me_quote_ts e + from_secs (150 * 60)) \<and>
    distinct (launched_pins (dr_log d)) \<and>
    (\<forall>l1 e l2. dr_log d = l1 @ Queued e # l2 \<longrightarrow> me_pin e \<notin> set (launched_pins l1)) \<and>
    (\<exists>received. monetized ops = received @ dr_channel d \<and>
      (\<forall>e\<in>set received. Queued e \<in> set (dr_log d) \<or> me_pin e \<in> set (launched_pins (dr_log d)))) \<and>
    (\<forall>p e. newest (dr_log d) p = Some e \<longrightarrow> settled (dr_log d) e \<or> waiting lr d e)"
proof -
  have "drain_lrus_ok lr capp capf" "few (monetized ops)" using assms(1-6) by (simp_all add: drain_lrus_ok_def few_def)
  from run_ok [OF this] obtain recv where q: "queue_ok lr d" and l: "log_ok recv (dr_log d)"
    and r: "recv @ dr_channel d = monetized ops" unfolding d_def by blast
  have "me_quote_ts e \<le> sys + from_secs (30 * 60) \<and> sys < me_quote_ts e + from_secs (150 * 60)"
    if "quote_within_audit_window (me_quote_ts e) sys" for e :: monetized_pin_event and sys
    using that by (auto simp: quote_within_audit_window_def MONETIZED_AUDIT_SKEW_MARGIN_def GOSSIP_ANSWERABILITY_TTL_def from_secs_def)
  moreover have "set recv \<subseteq> set (monetized ops)" using r by (metis set_append Un_upper1)
  ultimately have "\<forall>e sys now. Launched e sys now \<in> set (dr_log d) \<longrightarrow> e \<in> set (monetized ops) \<and>
      me_quote_ts e \<le> sys + from_secs (30 * 60) \<and> sys < me_quote_ts e + from_secs (150 * 60)"
    using l unfolding log_ok_def by blast
  moreover have "distinct (launched_pins (dr_log d)) \<and>
    (\<forall>l1 e l2. dr_log d = l1 @ Queued e # l2 \<longrightarrow> me_pin e \<notin> set (launched_pins l1)) \<and>
    (\<forall>e\<in>set recv. Queued e \<in> set (dr_log d) \<or> me_pin e \<in> set (launched_pins (dr_log d)))"
    using l unfolding log_ok_def fresh_queued_def by blast
  moreover have "\<forall>p e. newest (dr_log d) p = Some e \<longrightarrow> settled (dr_log d) e \<or> waiting lr d e"
    using q by (simp add: queue_ok_def)
  ultimately show ?thesis using r [symmetric] by blast
qed

definition example_drainer :: "(nat \<times> (peer_id \<times> monetized_pin_event) list, nat \<times> (hash32 \<times> unit) list) drainer_lrus" where
  "example_drainer = \<lparr>dl_pending = list_lru, dl_audited = list_lru\<rparr>"

definition example_event :: "peer_id \<Rightarrow> hash32 \<Rightarrow> monetized_pin_event" where
  "example_event p h = \<lparr>me_peer = p, me_pin = h, me_key_count = 3, me_quote_ts = 0\<rparr>"

text \<open>The second pin of a peer finds the cooldown closed and waits; the peer's first pin had its audit.\<close>

theorem first_audit_once_not_lost_witness:
  "let d = run_drainer example_drainer
       [Monetized (example_event 1 7), Wake, Item 0 0, Monetized (example_event 1 8), Wake, Item 0 5]
   in dr_log d = [Queued (example_event 1 7), Launched (example_event 1 7) 0 0, Queued (example_event 1 8)] \<and>
      waiting example_drainer d (example_event 1 8)"
proof -
  let ?ops = "[Monetized (example_event 1 7), Wake, Item 0 0, Monetized (example_event 1 8), Wake, Item 0 5]"
  let ?d = "run_drainer example_drainer ?ops"
  have "lru_roomy (dl_pending example_drainer) fst" "lru_roomy (dl_audited example_drainer) fst"
    "lru_ok (dl_pending example_drainer)" "lru_ok (dl_audited example_drainer)"
    by (simp_all add: example_drainer_def list_lru_roomy list_lru_ok)
  then have "settled (dr_log ?d) e \<or> waiting example_drainer ?d e" if "newest (dr_log ?d) p = Some e" for p e
    using first_audit_once_not_lost [of example_drainer fst fst ?ops] that by (simp add: monetized_def card_insert_if)
  moreover have log: "dr_log ?d = [Queued (example_event 1 7), Launched (example_event 1 7) 0 0, Queued (example_event 1 8)]"
    by (simp add: run_drainer_def drainer_new_def example_drainer_def list_lru_def receive_batch_def receive_event_def
        snapshot_pending_def audit_item_def FIRST_AUDIT_DRAIN_BATCH_def example_event_def quote_within_audit_window_def
        MONETIZED_AUDIT_SKEW_MARGIN_def GOSSIP_ANSWERABILITY_TTL_def from_secs_def cooldown_allows_audit_def make_room_def
        AUDIT_ON_GOSSIP_COOLDOWN_SECS_def MAX_LAST_COMMITMENT_BY_PEER_def)
  moreover have "newest (dr_log ?d) 1 = Some (example_event 1 8)" unfolding log by (simp add: newest_def example_event_def)
  moreover have "\<not> settled (dr_log ?d) (example_event 1 8)" unfolding log by (simp add: settled_def example_event_def)
  ultimately show ?thesis unfolding Let_def by blast
qed

section \<open>Quotes nobody signed\<close>

lemma map_of_single_entry:
  assumes "distinct (map fst xs)" "map_of xs = [k \<mapsto> v]"
  shows "xs = [(k, v)]"
proof -
  have "set xs = {(k, v)}" using assms by (auto simp: map_of_eq_Some_iff [OF assms(1), symmetric] split: if_splits)
  moreover from this assms(1) have "length xs = 1" by (metis card.empty card.insert distinct_card distinct_map empty_iff finite.emptyI One_nat_def)
  ultimately show ?thesis by (cases xs) auto
qed

lemma item_monetized:
  "pv_monetized_pins (fst (cross_check_item env m peer pin n ts artifact (st, us))) =
     pv_monetized_pins st @ (case pin of None \<Rightarrow> [] | Some h \<Rightarrow>
       if ev_monetized_attached env then [\<lparr>me_peer = peer, me_pin = h, me_key_count = n, me_quote_ts = ts\<rparr>] else [])"
  by (simp add: cross_check_item_def Let_def split: option.splits)

lemma fold_monetized:
  assumes "ev_monetized_attached env"
  shows "pv_monetized_pins (fst (fold (\<lambda>(peer, q). cross_check_item env m peer (pq_commitment_pin q)
      (pq_committed_key_count q) (pq_timestamp q) (ev_quote_bytes env q)) payment s)) =
    pv_monetized_pins (fst s) @ concat (map (\<lambda>(peer, q). case pq_commitment_pin q of None \<Rightarrow> []
      | Some h \<Rightarrow> [\<lparr>me_peer = peer, me_pin = h, me_key_count = pq_committed_key_count q, me_quote_ts = pq_timestamp q\<rparr>]) payment)"
  using assms by (induction payment arbitrary: s) (auto simp: item_monetized split: option.splits prod.splits simp del: split_paired_All)

lemma quotes_monetized:
  assumes "ev_monetized_attached env" "(p, q) \<in> set payment" "pq_commitment_pin q = Some h"
  shows "\<lparr>me_peer = p, me_pin = h, me_key_count = pq_committed_key_count q, me_quote_ts = pq_timestamp q\<rparr>
    \<in> set (pv_monetized_pins (cross_check_quotes env payment sidecars st))"
proof -
  have "pv_monetized_pins (spawn_pin_fetches env s) = pv_monetized_pins (fst s)" for s :: "('a, 'b, 'c) verifier \<times> unresolved_pin list"
    by (cases s) (simp add: spawn_pin_fetches_def)
  then have eq: "pv_monetized_pins (cross_check_quotes env payment sidecars st) = pv_monetized_pins st @
    concat (map (\<lambda>(peer, q). case pq_commitment_pin q of None \<Rightarrow> []
      | Some h \<Rightarrow> [\<lparr>me_peer = peer, me_pin = h, me_key_count = pq_committed_key_count q, me_quote_ts = pq_timestamp q\<rparr>]) payment)"
    using fold_monetized [OF assms(1), of "index_valid_sidecars env sidecars" payment "(st, [])"]
    by (simp add: cross_check_quotes_def Let_def)
  show ?thesis unfolding eq using assms(2,3) by (auto intro!: bexI [of _ "(p, q)"])
qed

lemma verified_bundle_monetized:
  assumes "verify_payment env lr x (Some bs) ClientPut st = (Inr PaymentVerified, st')"
    and "ev_detect_proof_type env bs = Some SingleNodeType" "ev_deserialize_single_node env bs = Some parsed"
    and "ev_monetized_attached env" "(p, q) \<in> set (sp_proof_of_payment parsed)" "pq_commitment_pin q = Some h"
  shows "\<lparr>me_peer = p, me_pin = h, me_key_count = pq_committed_key_count q, me_quote_ts = pq_timestamp q\<rparr>
    \<in> set (pv_monetized_pins st')"
proof -
  obtain status st1 where c: "check_payment_required lr x ClientPut st = (status, st1)" by fastforce
  with assms(1) have s: "status = PaymentRequired"
    by (cases status) (auto simp: verify_payment_def verify_payment_inner_def)
  obtain r2 st2 where v: "verify_proof env lr x bs ClientPut st1 = (r2, st2)" by fastforce
  with assms(1) c s have r2: "\<exists>u. r2 = Inr u" and st': "pv_monetized_pins st' = pv_monetized_pins st2"
    by (auto simp: verify_payment_def verify_payment_inner_def split: sum.splits)
  with v assms(2,3) have "st2 = cross_check_quotes env (sp_proof_of_payment parsed) (sp_commitment_sidecars parsed) st1"
    by (auto simp: verify_proof_def verify_evm_payment_def split: if_splits sum.splits)
  with quotes_monetized [OF assms(4-6)] st' show ?thesis by simp
qed

lemma unknown_pin_convicts:
  assumes "lookup_by_hash vst (cx_expected_hash ctx) = None"
  shows "run_audit_task ap config ctx (honest_send ap rd (cx_peer ctx) vst) send_bytes draws now s =
    handle_subtree_failed_audit (cx_peer ctx) FailRejected s"
  using assms
  by (simp add: run_audit_task_def run_subtree_audit_def honest_send_def handle_subtree_challenge_def audit_challenge_def
      dispatch_subtree_response_def grade_reject_def failed_def handle_subtree_audit_result_def Let_def)

text \<open>
  C31. A verified payment can convict a peer that signed nothing. Only the median quote of a bundle is
  checked for signature and issuer, but every quote that names a pin is sent to the drainer: for a
  peer that answers by the book and never built the named commitment, the audit that follows ends in
  a penalty and takes all its holder credit, whatever the signature of that quote.
\<close>

theorem unsigned_quote_convicts:
  assumes "verify_payment env lr x (Some bs) ClientPut st = (Inr PaymentVerified, st')"
    and "ev_detect_proof_type env bs = Some SingleNodeType" "ev_deserialize_single_node env bs = Some parsed"
    and "ev_monetized_attached env" "(victim, q) \<in> set (sp_proof_of_payment parsed)" "pq_commitment_pin q = Some h"
    and "quote_within_audit_window (pq_timestamp q) sys" and "lookup_by_hash vst h = None"
    and "cx_peer ctx = victim" "cx_expected_hash ctx = h" "lru_ok (dl_pending dl)" "lru_ok (dl_audited dl)"
  shows "\<exists>e\<in>set (pv_monetized_pins st'). me_peer e = victim \<and> me_pin e = h \<and>
    Launched e sys now \<in> set (dr_log (run_drainer dl [Monetized e, Wake, Item sys now])) \<and>
    (let s' = run_audit_task ap config ctx (honest_send ap rd victim vst) send_bytes draws now s
     in st_trust s' = st_trust s @ [AuditPenalty victim] \<and> st_provers s' = forget_peer victim (st_provers s))"
proof -
  let ?e = "\<lparr>me_peer = victim, me_pin = h, me_key_count = pq_committed_key_count q, me_quote_ts = pq_timestamp q\<rparr>"
  have mem: "?e \<in> set (pv_monetized_pins st')" using verified_bundle_monetized [OF assms(1-6)] .
  have new: "lru_peek (dl_audited dl) (lru_new (dl_audited dl) n) k = None" "lru_peek (dl_pending dl) (lru_new (dl_pending dl) n) j = None" for n k j
    using assms(11,12) by (simp_all add: lru_ok_def)
  have it: "map_of (lru_iter (dl_pending dl) c) = lru_peek (dl_pending dl) c" "distinct (map fst (lru_iter (dl_pending dl) c))" for c
    using assms(11) by (simp_all add: lru_ok_def)
  let ?c = "lru_put (dl_pending dl) victim ?e (lru_new (dl_pending dl) MAX_LAST_COMMITMENT_BY_PEER)"
  have "lru_peek (dl_pending dl) ?c victim = Some ?e" using lru_okD(4) [OF assms(11)] .
  moreover have "lru_peek (dl_pending dl) ?c j = None" if "j \<noteq> victim" for j
    using lru_okD(7) [OF assms(11) _ that] new(2) by (metis not_None_eq)
  ultimately have "lru_peek (dl_pending dl) ?c = [victim \<mapsto> ?e]" by auto
  then have "lru_iter (dl_pending dl) ?c = [(victim, ?e)]"
    using it [of ?c] by (intro map_of_single_entry) simp_all
  then have "Launched ?e sys now \<in> set (dr_log (run_drainer dl [Monetized ?e, Wake, Item sys now]))"
    using assms(7) by (simp add: run_drainer_def drainer_new_def receive_batch_def FIRST_AUDIT_DRAIN_BATCH_def receive_event_def
        new snapshot_pending_def audit_item_def cooldown_allows_audit_def)
  moreover have "let s' = run_audit_task ap config ctx (honest_send ap rd victim vst) send_bytes draws now s
     in st_trust s' = st_trust s @ [AuditPenalty victim] \<and> st_provers s' = forget_peer victim (st_provers s)"
    using unknown_pin_convicts [of vst ctx ap config rd send_bytes draws now s] assms(8-10)
    by (simp add: handle_subtree_failed_audit_def apply_audit_failure_credit_revocation_def
        audit_failure_revokes_holder_credit_def clear_claim_def)
  ultimately show ?thesis using mem by (intro bexI [of _ ?e]) simp_all
qed

text \<open>A bundle with the paid quote of peer 5 and an unsigned one that names peer 9 and a pin.\<close>

definition unsigned_quote :: payment_quote where
  "unsigned_quote = example_quote\<lparr>pq_price := 4, pq_committed_key_count := 3, pq_commitment_pin := Some 66\<rparr>"

definition framing_env :: pay_env where
  "framing_env = example_pay_env\<lparr>ev_deserialize_single_node := \<lambda>_. Some
       \<lparr>sp_proof_of_payment = [(9, unsigned_quote), (5, example_quote)], sp_tx_hashes = [], sp_commitment_sidecars = []\<rparr>,
     ev_verify_quote_signature := \<lambda>q. q = example_quote\<rparr>"

lemma framing_verified: "fst (verify_payment framing_env example_lrus 1 (Some paid_proof) ClientPut (verifier_new example_lrus 10)) = Inr PaymentVerified"
proof -
  have med: "legacy_median_candidates [(9, unsigned_quote), (5, example_quote)] = Inr [(5, example_quote, 30)]"
    by (simp add: legacy_median_candidates_def sort_key_def median_quote_index_def unsigned_quote_def example_quote_def checked_mul256_def
        PAID_QUOTE_PAYMENT_MULTIPLIER_def Let_def)
  have one: "verify_legacy_median_candidate framing_env 1 (5, example_quote, 30) = Inr ()"
    by (simp add: verify_legacy_median_candidate_def validate_paid_quote_peer_binding_def
        validate_paid_quote_issuer_k_closest_def framing_env_def example_pay_env_def example_quote_def)
  have env: "ev_close_group_size framing_env = 7" "ev_detect_proof_type framing_env paid_proof = Some SingleNodeType"
    "ev_deserialize_single_node framing_env paid_proof =
      Some \<lparr>sp_proof_of_payment = [(9, unsigned_quote), (5, example_quote)], sp_tx_hashes = [], sp_commitment_sidecars = []\<rparr>" "length paid_proof = 32"
    by (simp_all add: framing_env_def example_pay_env_def paid_proof_def)
  have vp: "fst (verify_proof framing_env example_lrus 1 paid_proof ClientPut st) = Inr ()" for st
    by (simp add: verify_proof_def MIN_PAYMENT_PROOF_SIZE_BYTES_def MAX_PAYMENT_PROOF_SIZE_BYTES_def env verify_evm_payment_def
        validate_quote_structure_def validate_quote_arithmetic_def QUOTE_ARITHMETIC_RECHECK_ENABLED_def med one)
  obtain st1 where "check_payment_required example_lrus 1 ClientPut (verifier_new example_lrus 10) = (PaymentRequired, st1)"
    by (simp add: check_payment_required_def contains_client_put_verified_def example_lrus_def list_lru_def verifier_new_def
        vc_with_capacity_def)
  moreover obtain st2 where "verify_proof framing_env example_lrus 1 paid_proof ClientPut st1 = (Inr (), st2)"
    using vp by (metis prod.collapse)
  ultimately show ?thesis by (simp add: verify_payment_def verify_payment_inner_def)
qed

theorem unsigned_quote_convicts_witness:
  "\<not> ev_verify_quote_signature framing_env unsigned_quote \<and>
   (\<exists>e\<in>set (pv_monetized_pins (snd (verify_payment framing_env example_lrus 1 (Some paid_proof) ClientPut (verifier_new example_lrus 10)))).
     me_peer e = 9 \<and> Launched e 0 0 \<in> set (dr_log (run_drainer example_drainer [Monetized e, Wake, Item 0 0])) \<and>
     st_trust (run_audit_task small_params (default_config 7) \<lparr>cx_peer = 9, cx_challenge_id = 0, cx_nonce = 0, cx_expected_hash = 66\<rparr>
       (honest_send small_params small_reads 9 state_new) (honest_send_bytes small_params small_reads 9 state_new) (\<lambda>_ _. 0) 0
       \<lparr>st_sync = new_cycle [], st_provers = [], st_trust = []\<rparr>) = [AuditPenalty 9])"
proof -
  let ?v = "verify_payment framing_env example_lrus 1 (Some paid_proof) ClientPut (verifier_new example_lrus 10)"
  let ?ctx = "\<lparr>cx_peer = 9, cx_challenge_id = 0, cx_nonce = 0, cx_expected_hash = 66\<rparr>"
  have v: "?v = (Inr PaymentVerified, snd ?v)" using framing_verified by (metis prod.collapse)
  have "quote_within_audit_window (pq_timestamp unsigned_quote) 0" "lookup_by_hash state_new 66 = None"
    by (simp_all add: unsigned_quote_def example_quote_def quote_within_audit_window_def GOSSIP_ANSWERABILITY_TTL_def
        MONETIZED_AUDIT_SKEW_MARGIN_def from_secs_def state_new_def lookup_by_hash_def)
  from unsigned_quote_convicts [OF v _ _ _ _ _ this, where ctx = ?ctx and dl = example_drainer and victim = 9
      and parsed = "\<lparr>sp_proof_of_payment = [(9, unsigned_quote), (5, example_quote)], sp_tx_hashes = [], sp_commitment_sidecars = []\<rparr>"
      and now = 0 and ap = small_params and config = "default_config 7" and rd = small_reads and draws = "\<lambda>_ _. 0"
      and send_bytes = "honest_send_bytes small_params small_reads 9 state_new"
      and s = "\<lparr>st_sync = new_cycle [], st_provers = [], st_trust = []\<rparr>"]
  show ?thesis
    by (auto simp: Let_def framing_env_def example_pay_env_def unsigned_quote_def example_quote_def example_drainer_def list_lru_ok)
qed

end
