(* ===== verification/Quote_Generator.thy ===== *)
theory Quote_Generator
  imports Payment_Verifier Storage_Audit
begin

text \<open>
  Quote generation (src/src/payment/quote.rs and metrics.rs). The generator reads the node's own
  commitment state through its \<open>CommitmentSource\<close>, which stamps what it hands out; that state is
  passed along explicitly. The price curve, the byte strings to sign and the signer are arguments.
\<close>

section \<open>The metric\<close>

definition record_store :: "nat \<Rightarrow> nat" where
  "record_store close_records_stored = (close_records_stored + 1) mod 2 ^ 64"

definition set_records :: "nat \<Rightarrow> nat \<Rightarrow> nat" where
  "set_records n close_records_stored = n"

section \<open>The generator\<close>

record quote_generator =
  qg_rewards_address :: nat
  qg_records_stored :: nat
  qg_source_attached :: bool
  qg_sign_fn :: "(bytes \<Rightarrow> bytes) option"
  qg_pub_key :: bytes

definition generator_new :: "nat \<Rightarrow> nat \<Rightarrow> quote_generator" where
  "generator_new rewards_address initial_records =
     \<lparr>qg_rewards_address = rewards_address, qg_records_stored = initial_records, qg_source_attached = False,
      qg_sign_fn = None, qg_pub_key = []\<rparr>"

definition attach_commitment_source :: "quote_generator \<Rightarrow> quote_generator" where
  "attach_commitment_source qg = qg\<lparr>qg_source_attached := True\<rparr>"

definition set_signer :: "bytes \<Rightarrow> (bytes \<Rightarrow> bytes) \<Rightarrow> quote_generator \<Rightarrow> quote_generator" where
  "set_signer pub_key sign_fn qg = qg\<lparr>qg_pub_key := pub_key, qg_sign_fn := Some sign_fn\<rparr>"

definition can_sign :: "quote_generator \<Rightarrow> bool" where
  "can_sign qg \<longleftrightarrow> qg_sign_fn qg \<noteq> None"

datatype quote_error = SignerNotSet | ProbeFailed | EmptySignature | SecretKeyUnreadable

text \<open>The bytes of \<open>ant-signing-probe\<close>.\<close>

definition signing_probe :: bytes where
  "signing_probe = [97, 110, 116, 45, 115, 105, 103, 110, 105, 110, 103, 45, 112, 114, 111, 98, 101]"

definition probe_signer :: "quote_generator \<Rightarrow> quote_error + unit" where
  "probe_signer qg =
     (case qg_sign_fn qg of
        None \<Rightarrow> Inl SignerNotSet
      | Some sign_fn \<Rightarrow> if sign_fn signing_probe = [] then Inl ProbeFailed else Inr ())"

text \<open>\<open>parse_key\<close> decodes the secret key, \<open>sign\<close> is the signature scheme; a failing signature gives no bytes.\<close>

definition wire_ml_dsa_signer ::
  "(bytes \<Rightarrow> 'sk option) \<Rightarrow> ('sk \<Rightarrow> bytes \<Rightarrow> bytes option) \<Rightarrow> bytes \<Rightarrow> bytes \<Rightarrow> quote_generator \<Rightarrow>
     (quote_error + unit) \<times> quote_generator" where
  "wire_ml_dsa_signer parse_key sign public_key secret_key qg =
     (case parse_key secret_key of
        None \<Rightarrow> (Inl SecretKeyUnreadable, qg)
      | Some sk \<Rightarrow>
          let qg1 = set_signer public_key (\<lambda>msg. unwrap_or (sign sk msg) []) qg
          in (probe_signer qg1, qg1))"

definition generator_blob_for_pin ::
  "(storage_commitment \<Rightarrow> bytes option) \<Rightarrow> quote_generator \<Rightarrow> inner \<Rightarrow> hash32 \<Rightarrow> bytes option" where
  "generator_blob_for_pin rmp_to_vec qg src pin =
     (if qg_source_attached qg then commitment_blob_for_pin rmp_to_vec src pin else None)"

definition resolve_quote_pricing ::
  "quote_generator \<Rightarrow> instant \<Rightarrow> inner \<Rightarrow> (nat \<times> hash32 option \<times> nat) \<times> inner" where
  "resolve_quote_pricing qg now src =
     (if qg_source_attached qg
      then (case current_binding_for_quote now src of
              (None, src') \<Rightarrow> ((0, None, 0), src')
            | (Some b, src') \<Rightarrow> ((qb_key_count b, Some (qb_pin b), candidate_count_to_usize (qb_key_count b)), src'))
      else ((0, None, 0), src))"

record quote_env =
  qe_calculate_price :: "nat \<Rightarrow> amount"
  qe_quote_bytes_for_signing :: "xor_name \<Rightarrow> nat \<Rightarrow> amount \<Rightarrow> nat \<Rightarrow> nat \<Rightarrow> hash32 option \<Rightarrow> bytes"
  qe_candidate_bytes_to_sign :: "amount \<Rightarrow> nat \<Rightarrow> nat \<Rightarrow> nat \<Rightarrow> hash32 option \<Rightarrow> bytes"
  qe_system_now :: nat
  qe_now :: instant

definition create_quote ::
  "quote_env \<Rightarrow> quote_generator \<Rightarrow> xor_name \<Rightarrow> inner \<Rightarrow> (quote_error + payment_quote) \<times> inner" where
  "create_quote env qg content src =
     (case qg_sign_fn qg of
        None \<Rightarrow> (Inl SignerNotSet, src)
      | Some sign_fn \<Rightarrow>
          let ((committed_key_count, commitment_pin, price_count), src') = resolve_quote_pricing qg (qe_now env) src;
              price = qe_calculate_price env price_count;
              signature = sign_fn (qe_quote_bytes_for_signing env content (qe_system_now env) price
                (qg_rewards_address qg) committed_key_count commitment_pin)
          in if signature = [] then (Inl EmptySignature, src')
             else (Inr \<lparr>pq_content = content, pq_timestamp = qe_system_now env, pq_price = price,
                    pq_rewards_address = qg_rewards_address qg, pq_committed_key_count = committed_key_count,
                    pq_commitment_pin = commitment_pin, pq_pub_key = qg_pub_key qg, pq_signature = signature\<rparr>, src'))"

definition create_merkle_candidate_quote ::
  "quote_env \<Rightarrow> quote_generator \<Rightarrow> nat \<Rightarrow> inner \<Rightarrow> (quote_error + merkle_candidate) \<times> inner" where
  "create_merkle_candidate_quote env qg merkle_payment_timestamp src =
     (case qg_sign_fn qg of
        None \<Rightarrow> (Inl SignerNotSet, src)
      | Some sign_fn \<Rightarrow>
          let ((committed_key_count, commitment_pin, price_count), src') = resolve_quote_pricing qg (qe_now env) src;
              price = qe_calculate_price env price_count;
              signature = sign_fn (qe_candidate_bytes_to_sign env price (qg_rewards_address qg)
                merkle_payment_timestamp committed_key_count commitment_pin)
          in if signature = [] then (Inl EmptySignature, src')
             else (Inr \<lparr>mc_pub_key = qg_pub_key qg, mc_price = price, mc_reward_address = qg_rewards_address qg,
                    mc_payment_timestamp = merkle_payment_timestamp, mc_committed_key_count = committed_key_count,
                    mc_commitment_pin = commitment_pin, mc_signature = signature\<rparr>, src'))"

section \<open>What a quote binds\<close>

text \<open>Every retained commitment was built by this node.\<close>

definition own_commitments ::
  "(bytes \<Rightarrow> hash32) \<Rightarrow> nat \<Rightarrow> (storage_commitment \<Rightarrow> hash32 option) \<Rightarrow> ('sk \<Rightarrow> bytes \<Rightarrow> bytes option) \<Rightarrow> inner \<Rightarrow> bool" where
  "own_commitments b3 mx ch sign src \<longleftrightarrow>
     (\<forall>b\<in>set (in_slots src). \<exists>es self sk pk. build_commitment b3 mx sign ch es self sk pk = Inr b)"

lemma current_kept:
  assumes "current_for_quote now src = (Some b, src')"
  shows "b \<in> set (in_slots src)" "\<exists>b'. lookup_by_hash src' (bc_hash b) = Some b' \<and> bc_hash b' = bc_hash b \<and> b' \<in> set (in_slots src')"
    "set (in_slots src') \<subseteq> set (in_slots src)"
proof -
  obtain rest where s: "in_has_current src" "in_slots src = b # rest" "src' = mark_gossiped_locked (bc_hash b) now src"
    using assms by (auto simp: current_for_quote_def split: if_splits list.splits)
  show "b \<in> set (in_slots src)" using s by simp
  have b: "b \<in> set (in_slots src')" and sub: "set (in_slots src') \<subseteq> set (in_slots src)"
    using s(1,2) unfolding s(3)
    by (auto simp: mark_gossiped_locked_def prune_slots_simps Let_def)
  show "set (in_slots src') \<subseteq> set (in_slots src)" by (rule sub)
  show "\<exists>b'. lookup_by_hash src' (bc_hash b) = Some b' \<and> bc_hash b' = bc_hash b \<and> b' \<in> set (in_slots src')"
    using b unfolding lookup_by_hash_def
    by (cases "find (\<lambda>c. bc_hash c = bc_hash b) (in_slots src')") (auto simp: find_None_iff find_Some_iff)
qed

lemma own_built:
  assumes "own_commitments b3 mx ch sign src" "b \<in> set (in_slots src)"
  shows "0 < sc_key_count (bc_commitment b)" "sc_key_count (bc_commitment b) \<le> mx" "ch (bc_commitment b) = Some (bc_hash b)"
proof -
  obtain es self sk pk where e: "build_commitment b3 mx sign ch es self sk pk = Inr b"
    using assms by (auto simp: own_commitments_def)
  note D = build_commitmentD [OF e]
  have "0 < key_count (bc_tree b) \<and> key_count (bc_tree b) \<le> mx"
    using D(1) by (auto simp: build_ok_iff u32_max_def)
  with D show "0 < sc_key_count (bc_commitment b)" "sc_key_count (bc_commitment b) \<le> mx" by simp_all
  show "ch (bc_commitment b) = Some (bc_hash b)" by (rule D(6))
qed

lemma pricing_bound:
  assumes "resolve_quote_pricing qg now src = ((n, pin, pc), src')"
    and own: "own_commitments b3 (ev_max_key_count env) (ev_commitment_hash env) sign src" and dist: "distinct (map bc_hash (in_slots src))"
  shows "pc = candidate_count_to_usize n" "\<not> binding_violation env n pin (ev_calculate_price env pc)"
    "pin = Some h \<Longrightarrow> \<exists>b. lookup_by_hash src' h = Some b \<and> cross_check_binding env n h (bc_commitment b) = CrossMatch \<and>
       \<lparr>ga_hash = h, ga_expires_at = now + GOSSIP_ANSWERABILITY_TTL\<rparr> \<in> set (in_recently_gossiped src')"
proof -
  consider (base) "n = 0" "pin = None" "pc = 0"
    | (bound) b where "current_for_quote now src = (Some b, src')" "n = sc_key_count (bc_commitment b)" "pin = Some (bc_hash b)"
        "pc = candidate_count_to_usize n"
    using assms(1) by (auto simp: resolve_quote_pricing_def current_binding_for_quote_def Let_def split: if_splits prod.splits option.splits)
  then have "pc = candidate_count_to_usize n \<and> \<not> binding_violation env n pin (ev_calculate_price env pc) \<and>
    (pin = Some h \<longrightarrow> (\<exists>b. lookup_by_hash src' h = Some b \<and> cross_check_binding env n h (bc_commitment b) = CrossMatch \<and>
       \<lparr>ga_hash = h, ga_expires_at = now + GOSSIP_ANSWERABILITY_TTL\<rparr> \<in> set (in_recently_gossiped src')))"
  proof cases
    case base
    then show ?thesis by (simp add: binding_violation_def candidate_count_to_usize_def)
  next
    case bound
    note k = current_kept [OF bound(1)]
    note ob = own_built [OF own k(1)]
    obtain b' where b': "lookup_by_hash src' (bc_hash b) = Some b'" "bc_hash b' = bc_hash b" "b' \<in> set (in_slots src')" using k(2) by blast
    then have "b' = b" using dist k(1,3) by (meson distinct_map inj_onD subsetD)
    moreover have "\<lparr>ga_hash = bc_hash b, ga_expires_at = now + GOSSIP_ANSWERABILITY_TTL\<rparr> \<in> set (in_recently_gossiped src')"
      using bound(1) by (auto simp: current_for_quote_def mark_gossiped_locked_def prune_slots_def Let_def
          GOSSIP_ANSWERABILITY_TTL_def from_secs_def MAX_RETAINED_GOSSIPED_SLOTS_def take_Cons' split: if_splits list.splits)
    ultimately show ?thesis using ob bound b'(1) by (auto simp: binding_violation_def cross_check_binding_def)
  qed
  then show "pc = candidate_count_to_usize n" "\<not> binding_violation env n pin (ev_calculate_price env pc)"
    "pin = Some h \<Longrightarrow> \<exists>b. lookup_by_hash src' h = Some b \<and> cross_check_binding env n h (bc_commitment b) = CrossMatch \<and>
       \<lparr>ga_hash = h, ga_expires_at = now + GOSSIP_ANSWERABILITY_TTL\<rparr> \<in> set (in_recently_gossiped src')" by blast+
qed

lemma candidate_bound:
  assumes "create_merkle_candidate_quote qe qg ts src = (Inr m, src')"
    and "own_commitments b3 (ev_max_key_count env) (ev_commitment_hash env) sign src" "distinct (map bc_hash (in_slots src))"
    and "qe_calculate_price qe = ev_calculate_price env"
  shows "\<not> binding_violation env (mc_committed_key_count m) (mc_commitment_pin m) (mc_price m)"
proof -
  obtain n pin pc src1 where r: "resolve_quote_pricing qg (qe_now qe) src = ((n, pin, pc), src1)" by (metis prod.exhaust)
  with assms(1,4) have "mc_committed_key_count m = n \<and> mc_commitment_pin m = pin \<and> mc_price m = ev_calculate_price env pc"
    by (auto simp: create_merkle_candidate_quote_def Let_def split: option.splits if_splits)
  with pricing_bound(2) [OF r assms(2,3)] show ?thesis by simp
qed


definition example_generator :: quote_generator where
  "example_generator = attach_commitment_source (set_signer [5] (\<lambda>_. [1]) (generator_new 0 50))"

definition example_quote_env :: quote_env where
  "example_quote_env = \<lparr>qe_calculate_price = \<lambda>_. 10, qe_quote_bytes_for_signing = \<lambda>_ _ _ _ _ _. [],
     qe_candidate_bytes_to_sign = \<lambda>_ _ _ _ _. [], qe_system_now = 0, qe_now = 3\<rparr>"


end
