(* ===== verification/Chunk_Handler.thy ===== *)
theory Chunk_Handler
  imports Quote_Generator Lmdb_Storage Admission
begin

text \<open>
  The chunk protocol (src/src/storage/handler.rs): PUT, GET and the two kinds of quote request, with
  the store, the payment verifier and the quote generator they call. A request runs to its end before
  the next one; what runs in between in the store is covered by the interleavings of \<open>Lmdb_Storage\<close>.
  Encoding and decoding of messages and proofs are arguments.
\<close>

section \<open>Messages\<close>

definition SELF_CLOSENESS_GATE_WIDTH :: nat where "SELF_CLOSENESS_GATE_WIDTH = K_BUCKET_SIZE"

datatype protocol_error =
    ErrChunkTooLarge nat nat
  | ErrAddressMismatch xor_name xor_name
  | ErrInternal storage_error
  | ErrStorageFailed storage_error
  | ErrNotClosest
  | ErrPaymentFailed payment_error
  | ErrQuoteFailed "quote_error option"

record chunk_put_request =
  pr_address :: xor_name
  pr_content :: bytes
  pr_payment_proof :: "bytes option"

record quote_request =
  qr_address :: xor_name
  qr_data_size :: nat

record merkle_quote_request =
  mr_address :: xor_name
  mr_data_size :: nat
  mr_payment_timestamp :: nat

datatype put_response =
    PutSuccess xor_name | PutAlreadyExists xor_name | PutPaymentRequired | PutError protocol_error

datatype get_response = GetSuccess xor_name bytes | GetNotFound xor_name | GetError protocol_error

datatype quote_response = QuoteSuccess bytes bool "bytes option" | QuoteError protocol_error

datatype merkle_quote_response = CandidateSuccess bytes "bytes option" | CandidateError protocol_error

datatype chunk_message_body =
    PutRequest chunk_put_request
  | GetRequest xor_name
  | QuoteRequest quote_request
  | MerkleCandidateQuoteRequest merkle_quote_request
  | PutResponse put_response
  | GetResponse get_response
  | QuoteResponse quote_response
  | MerkleCandidateQuoteResponse merkle_quote_response

record fresh_write_event =
  fw_key :: xor_name
  fw_data :: bytes
  fw_payment_proof :: bytes

section \<open>State\<close>

record ('a, 'b, 'c) ant_protocol =
  an_storage :: lmdb_storage
  an_verifier :: "('a, 'b, 'c) verifier"
  an_quotes :: quote_generator
  an_commitments :: inner
  an_fresh_writes :: "fresh_write_event list"

text \<open>What one request sees of the rest: \<open>hn_p2p\<close> is the own id and the local closest view once the
  network is attached, \<open>hn_fresh_tx\<close> tells whether a channel is attached and open.\<close>

record handler_env =
  hn_b3 :: "bytes \<Rightarrow> hash32"
  hn_max_chunk_size :: nat
  hn_read_ok :: bool
  hn_now :: instant
  hn_available :: "nat option"
  hn_p2p :: "(peer_id \<times> closest_fn) option"
  hn_pay :: pay_env
  hn_put :: put_env
  hn_fresh_tx :: bool
  hn_serialize_single_node :: "single_node_proof \<Rightarrow> bytes option"
  hn_serialize_merkle :: "merkle_payment_proof \<Rightarrow> bytes option"
  hn_quote :: quote_env
  hn_rmp_quote :: "payment_quote \<Rightarrow> bytes option"
  hn_rmp_candidate :: "merkle_candidate \<Rightarrow> bytes option"
  hn_rmp_commitment :: "storage_commitment \<Rightarrow> bytes option"
  hn_decode :: "bytes \<Rightarrow> (nat \<times> chunk_message_body) option"
  hn_encode :: "nat \<times> chunk_message_body \<Rightarrow> bytes option"

section \<open>PUT\<close>

definition strip_commitment_sidecars :: "handler_env \<Rightarrow> bytes \<Rightarrow> bytes" where
  "strip_commitment_sidecars env proof =
     (case ev_detect_proof_type (hn_pay env) proof of
        Some SingleNodeType \<Rightarrow>
          (case ev_deserialize_single_node (hn_pay env) proof of
             Some parsed \<Rightarrow>
               if sp_commitment_sidecars parsed \<noteq> []
               then unwrap_or (hn_serialize_single_node env (parsed\<lparr>sp_commitment_sidecars := []\<rparr>)) proof else proof
           | None \<Rightarrow> proof)
      | Some MerkleType \<Rightarrow>
          (case ev_deserialize_merkle (hn_pay env) proof of
             Some parsed \<Rightarrow>
               if mk_commitment_sidecars parsed \<noteq> []
               then unwrap_or (hn_serialize_merkle env (parsed\<lparr>mk_commitment_sidecars := []\<rparr>)) proof else proof
           | None \<Rightarrow> proof)
      | _ \<Rightarrow> proof)"

text \<open>The checks before payment, in their order.\<close>

definition put_prechecks ::
  "handler_env \<Rightarrow> chunk_put_request \<Rightarrow> ('a, 'b, 'c) ant_protocol \<Rightarrow> put_response option \<times> ('a, 'b, 'c) ant_protocol" where
  "put_prechecks env request s =
     (if length (pr_content request) > hn_max_chunk_size env
      then (Some (PutError (ErrChunkTooLarge (length (pr_content request)) (hn_max_chunk_size env))), s)
      else if hn_b3 env (pr_content request) \<noteq> pr_address request
      then (Some (PutError (ErrAddressMismatch (pr_address request) (hn_b3 env (pr_content request)))), s)
      else case lmdb_exists (hn_read_ok env) (pr_address request) (an_storage s) of
        Inr True \<Rightarrow> (Some (PutAlreadyExists (pr_address request)), s)
      | Inl e \<Rightarrow> (Some (PutError (ErrInternal e)), s)
      | Inr False \<Rightarrow>
          (case check_capacity (hn_now env) (hn_available env) (an_storage s) of
             (Inl e, storage) \<Rightarrow> (Some (PutError (ErrStorageFailed e)), s\<lparr>an_storage := storage\<rparr>)
           | (Inr _, storage) \<Rightarrow>
               let s1 = s\<lparr>an_storage := storage\<rparr>
               in (case hn_p2p env of
                     None \<Rightarrow> (None, s1)
                   | Some (self_id, closest) \<Rightarrow>
                       if \<not> is_responsible closest self_id (pr_address request) SELF_CLOSENESS_GATE_WIDTH
                       then (Some (PutError ErrNotClosest), s1) else (None, s1))))"

definition put_store ::
  "handler_env \<Rightarrow> chunk_put_request \<Rightarrow> ('a, 'b, 'c) ant_protocol \<Rightarrow> put_response \<times> ('a, 'b, 'c) ant_protocol" where
  "put_store env request s =
     (case lmdb_put (hn_b3 env) (hn_put env) (pr_address request) (pr_content request) (an_storage s) of
        (Inl e, storage) \<Rightarrow> (PutError (ErrStorageFailed e), s\<lparr>an_storage := storage\<rparr>)
      | (Inr _, storage) \<Rightarrow>
          let s1 = s\<lparr>an_storage := storage,
                an_quotes := (an_quotes s)\<lparr>qg_records_stored := record_store (qg_records_stored (an_quotes s))\<rparr>\<rparr>
          in (PutSuccess (pr_address request),
              case pr_payment_proof request of
                Some proof \<Rightarrow>
                  if hn_fresh_tx env
                  then s1\<lparr>an_fresh_writes := an_fresh_writes s1 @
                       [\<lparr>fw_key = pr_address request, fw_data = pr_content request,
                         fw_payment_proof = strip_commitment_sidecars env proof\<rparr>]\<rparr>
                  else s1
              | None \<Rightarrow> s1))"

definition handle_put ::
  "handler_env \<Rightarrow> ('a, 'b, 'c) verifier_lrus \<Rightarrow> chunk_put_request \<Rightarrow> ('a, 'b, 'c) ant_protocol \<Rightarrow>
     put_response \<times> ('a, 'b, 'c) ant_protocol" where
  "handle_put env lr request s =
     (case put_prechecks env request s of
        (Some response, s1) \<Rightarrow> (response, s1)
      | (None, s1) \<Rightarrow>
          (case verify_payment (hn_pay env) lr (pr_address request) (pr_payment_proof request) ClientPut (an_verifier s1) of
             (result, verifier) \<Rightarrow>
               let s2 = s1\<lparr>an_verifier := verifier\<rparr>
               in (case result of
                     Inl e \<Rightarrow> (PutError (ErrPaymentFailed e), s2)
                   | Inr status \<Rightarrow> if can_store status then put_store env request s2 else (PutPaymentRequired, s2))))"

section \<open>GET and quotes\<close>

definition handle_get ::
  "handler_env \<Rightarrow> xor_name \<Rightarrow> ('a, 'b, 'c) ant_protocol \<Rightarrow> get_response \<times> ('a, 'b, 'c) ant_protocol" where
  "handle_get env address s =
     (case lmdb_get (hn_b3 env) (hn_read_ok env) address (an_storage s) of
        (r, storage) \<Rightarrow>
          (case r of
             Inr (Some content) \<Rightarrow> GetSuccess address content
           | Inr None \<Rightarrow> GetNotFound address
           | Inl e \<Rightarrow> GetError (ErrStorageFailed e), s\<lparr>an_storage := storage\<rparr>))"

definition resync_quote_metric :: "handler_env \<Rightarrow> ('a, 'b, 'c) ant_protocol \<Rightarrow> ('a, 'b, 'c) ant_protocol" where
  "resync_quote_metric env s =
     (case current_chunks (hn_read_ok env) (an_storage s) of
        Inr n \<Rightarrow>
          if n \<le> usize_max
          then s\<lparr>an_quotes := (an_quotes s)\<lparr>qg_records_stored := set_records n (qg_records_stored (an_quotes s))\<rparr>\<rparr> else s
      | Inl _ \<Rightarrow> s)"

definition handle_quote ::
  "handler_env \<Rightarrow> quote_request \<Rightarrow> ('a, 'b, 'c) ant_protocol \<Rightarrow> quote_response \<times> ('a, 'b, 'c) ant_protocol" where
  "handle_quote env request s =
     (let s1 = resync_quote_metric env s;
          already_stored = (case lmdb_exists (hn_read_ok env) (qr_address request) (an_storage s1) of
            Inr present \<Rightarrow> present | Inl _ \<Rightarrow> False)
      in if qr_data_size request > usize_max
         then (QuoteError (ErrChunkTooLarge (hn_max_chunk_size env + 1) (hn_max_chunk_size env)), s1)
         else if qr_data_size request > hn_max_chunk_size env
         then (QuoteError (ErrChunkTooLarge (qr_data_size request) (hn_max_chunk_size env)), s1)
         else case create_quote (hn_quote env) (an_quotes s1) (qr_address request) (an_commitments s1) of
           (Inl e, src) \<Rightarrow> (QuoteError (ErrQuoteFailed (Some e)), s1\<lparr>an_commitments := src\<rparr>)
         | (Inr q, src) \<Rightarrow>
             let commitment = Option.bind (pq_commitment_pin q) (generator_blob_for_pin (hn_rmp_commitment env) (an_quotes s1) src)
             in (case hn_rmp_quote env q of
                   Some quote_bytes \<Rightarrow> QuoteSuccess quote_bytes already_stored commitment
                 | None \<Rightarrow> QuoteError (ErrQuoteFailed None), s1\<lparr>an_commitments := src\<rparr>))"

definition handle_merkle_candidate_quote ::
  "handler_env \<Rightarrow> merkle_quote_request \<Rightarrow> ('a, 'b, 'c) ant_protocol \<Rightarrow> merkle_quote_response \<times> ('a, 'b, 'c) ant_protocol" where
  "handle_merkle_candidate_quote env request s =
     (let s1 = resync_quote_metric env s
      in if mr_data_size request > usize_max then (CandidateError (ErrQuoteFailed None), s1)
         else if mr_data_size request > hn_max_chunk_size env
         then (CandidateError (ErrChunkTooLarge (mr_data_size request) (hn_max_chunk_size env)), s1)
         else case create_merkle_candidate_quote (hn_quote env) (an_quotes s1) (mr_payment_timestamp request) (an_commitments s1) of
           (Inl e, src) \<Rightarrow> (CandidateError (ErrQuoteFailed (Some e)), s1\<lparr>an_commitments := src\<rparr>)
         | (Inr c, src) \<Rightarrow>
             let commitment = Option.bind (mc_commitment_pin c) (generator_blob_for_pin (hn_rmp_commitment env) (an_quotes s1) src)
             in (case hn_rmp_candidate env c of
                   Some bs \<Rightarrow> CandidateSuccess bs commitment
                 | None \<Rightarrow> CandidateError (ErrQuoteFailed None), s1\<lparr>an_commitments := src\<rparr>))"

datatype request_error = DecodeFailed | EncodeResponseFailed

definition try_handle_request ::
  "handler_env \<Rightarrow> ('a, 'b, 'c) verifier_lrus \<Rightarrow> bytes \<Rightarrow> ('a, 'b, 'c) ant_protocol \<Rightarrow>
     (request_error + bytes option) \<times> ('a, 'b, 'c) ant_protocol" where
  "try_handle_request env lr data s =
     (case hn_decode env data of
        None \<Rightarrow> (Inl DecodeFailed, s)
      | Some (request_id, body) \<Rightarrow>
          (case (case body of
                   PutRequest req \<Rightarrow> map_prod (Some \<circ> PutResponse) id (handle_put env lr req s)
                 | GetRequest address \<Rightarrow> map_prod (Some \<circ> GetResponse) id (handle_get env address s)
                 | QuoteRequest req \<Rightarrow> map_prod (Some \<circ> QuoteResponse) id (handle_quote env req s)
                 | MerkleCandidateQuoteRequest req \<Rightarrow>
                     map_prod (Some \<circ> MerkleCandidateQuoteResponse) id (handle_merkle_candidate_quote env req s)
                 | _ \<Rightarrow> (None, s)) of
             (None, s1) \<Rightarrow> (Inr None, s1)
           | (Some response_body, s1) \<Rightarrow>
               (case hn_encode env (request_id, response_body) of
                  Some bs \<Rightarrow> Inr (Some bs)
                | None \<Rightarrow> Inl EncodeResponseFailed, s1)))"

section \<open>Properties\<close>

lemma capacity_keeps_db:
  "check_capacity now available st = (r, st') \<Longrightarrow> ls_db st' = ls_db st"
  by (auto simp: check_capacity_def check_disk_space_cached_def Let_def split: if_splits sum.splits option.splits)

lemma prechecks_passed:
  assumes "put_prechecks env request s = (None, s1)"
  shows "length (pr_content request) \<le> hn_max_chunk_size env" "hn_b3 env (pr_content request) = pr_address request"
    "ls_db (an_storage s) (pr_address request) = None"
    "hn_p2p env = Some (self, closest) \<Longrightarrow> self \<in> set (closest (pr_address request) K_BUCKET_SIZE)"
    "\<exists>storage. s1 = s\<lparr>an_storage := storage\<rparr> \<and> ls_db storage = ls_db (an_storage s)"
  using assms
  by (auto simp: put_prechecks_def Let_def lmdb_exists_def is_responsible_def list_ex_iff SELF_CLOSENESS_GATE_WIDTH_def
      split: if_splits sum.splits bool.splits prod.splits option.splits dest: capacity_keeps_db)

lemma prechecks_refused:
  assumes "put_prechecks env request s = (Some r, s1)"
  shows "\<forall>a. r \<noteq> PutSuccess a" "\<exists>storage. s1 = s\<lparr>an_storage := storage\<rparr> \<and> ls_db storage = ls_db (an_storage s)"
proof -
  show "\<forall>a. r \<noteq> PutSuccess a"
    using assms by (auto simp: put_prechecks_def Let_def split: if_splits sum.splits bool.splits prod.splits option.splits)
  have "s1 = s\<lparr>an_storage := an_storage s1\<rparr> \<and> ls_db (an_storage s1) = ls_db (an_storage s)"
    using assms
    by (auto simp: put_prechecks_def Let_def split: if_splits sum.splits bool.splits prod.splits option.splits dest: capacity_keeps_db)
  then show "\<exists>storage. s1 = s\<lparr>an_storage := storage\<rparr> \<and> ls_db storage = ls_db (an_storage s)" by (rule exI)
qed

lemma put_store_cases:
  assumes "put_store env request s = (r, s')" "ls_db (an_storage s) (pr_address request) = None"
  shows "r = PutSuccess (pr_address request) \<and> an_verifier s' = an_verifier s \<and> an_commitments s' = an_commitments s \<and>
      ls_db (an_storage s') = (ls_db (an_storage s))(pr_address request \<mapsto> pr_content request) \<and>
      an_fresh_writes s' = an_fresh_writes s @ (case pr_payment_proof request of
        Some proof \<Rightarrow> if hn_fresh_tx env then [\<lparr>fw_key = pr_address request, fw_data = pr_content request,
          fw_payment_proof = strip_commitment_sidecars env proof\<rparr>] else []
      | None \<Rightarrow> [])
    \<or> (\<exists>e storage. r = PutError (ErrStorageFailed e) \<and> s' = s\<lparr>an_storage := storage\<rparr> \<and> ls_db storage = ls_db (an_storage s))"
proof -
  obtain pr storage where p: "lmdb_put (hn_b3 env) (hn_put env) (pr_address request) (pr_content request) (an_storage s) = (pr, storage)"
    by fastforce
  have pp: "put_progress (hn_b3 env) (pr_address request) (pr_content request) (an_storage s) (PutDone pr, storage)"
    using p by (rule lmdb_put_cases)
  show ?thesis
  proof (cases pr)
    case (Inl e)
    with pp p assms(1) show ?thesis by (auto simp: put_store_def put_progress_def)
  next
    case (Inr new)
    with pp assms(2) have "new" by (cases new) (auto simp: put_progress_def)
    with Inr pp p assms(1) show ?thesis by (auto simp: put_store_def put_progress_def Let_def split: option.splits)
  qed
qed

lemma handle_put_cases:
  assumes "handle_put env lr request s = (r, s')"
  obtains (refused) "put_prechecks env request s = (Some r, s')"
  | (unpaid) s1 res v where "put_prechecks env request s = (None, s1)"
      "verify_payment (hn_pay env) lr (pr_address request) (pr_payment_proof request) ClientPut (an_verifier s1) = (res, v)"
      "\<forall>a. r \<noteq> PutSuccess a" "s' = s1\<lparr>an_verifier := v\<rparr>"
  | (paid) s1 status v where "put_prechecks env request s = (None, s1)"
      "verify_payment (hn_pay env) lr (pr_address request) (pr_payment_proof request) ClientPut (an_verifier s1) = (Inr status, v)"
      "put_store env request (s1\<lparr>an_verifier := v\<rparr>) = (r, s')"
  using assms by (auto simp: handle_put_def Let_def split: option.splits prod.splits sum.splits if_splits)


text \<open>
  C5. A refused PUT leaves no trace. Any other answer changes no chunk, hands nothing to replication and
  leaves quotes and commitments alone; and payment is looked at, with its network and chain lookups,
  only for a chunk of legal size that hashes to its address, is not stored yet and lies in this node's
  neighbourhood.
\<close>

theorem put_refusal_harmless:
  assumes "handle_put env lr request s = (r, s')" and "\<forall>a. r \<noteq> PutSuccess a"
  shows "ls_db (an_storage s') = ls_db (an_storage s) \<and> an_fresh_writes s' = an_fresh_writes s \<and>
    an_quotes s' = an_quotes s \<and> an_commitments s' = an_commitments s \<and>
    (an_verifier s' \<noteq> an_verifier s \<longrightarrow> length (pr_content request) \<le> hn_max_chunk_size env \<and>
       hn_b3 env (pr_content request) = pr_address request \<and> ls_db (an_storage s) (pr_address request) = None \<and>
       (\<forall>self closest. hn_p2p env = Some (self, closest) \<longrightarrow> self \<in> set (closest (pr_address request) 20)))"
  using assms(1)
proof (cases rule: handle_put_cases)
  case refused
  from prechecks_refused(2) [OF refused] show ?thesis by auto
next
  case (unpaid s1 res v)
  note pc = prechecks_passed [OF unpaid(1)]
  show ?thesis using pc(1-4) pc(5) unpaid(4) by (auto simp: K_BUCKET_SIZE_def)
next
  case (paid s1 status v)
  note pc = prechecks_passed [OF paid(1)]
  obtain storage where s1: "s1 = s\<lparr>an_storage := storage\<rparr>" "ls_db storage = ls_db (an_storage s)" using pc(5) by blast
  have "ls_db (an_storage (s1\<lparr>an_verifier := v\<rparr>)) (pr_address request) = None" using pc(3) s1 by simp
  from put_store_cases [OF paid(3) this] assms(2) obtain storage' where
    "s' = s1\<lparr>an_verifier := v, an_storage := storage'\<rparr>" "ls_db storage' = ls_db (an_storage s)" using s1 by auto
  with pc(1-4) s1 show ?thesis by (auto simp: K_BUCKET_SIZE_def)
qed

section \<open>Examples\<close>

definition example_handler_env :: "peer_id list \<Rightarrow> handler_env" where
  "example_handler_env view =
     \<lparr>hn_b3 = chunk_hash, hn_max_chunk_size = 4, hn_read_ok = True, hn_now = 0, hn_available = Some GIB,
      hn_p2p = Some (4, \<lambda>_ _. view), hn_pay = example_pay_env,
      hn_put = example_put_env\<lparr>pu_first := TxnCommits\<rparr>, hn_fresh_tx = True, hn_serialize_single_node = \<lambda>_. None,
      hn_serialize_merkle = \<lambda>_. None, hn_quote = example_quote_env, hn_rmp_quote = \<lambda>_. None,
      hn_rmp_candidate = \<lambda>_. None, hn_rmp_commitment = \<lambda>_. None, hn_decode = \<lambda>_. None, hn_encode = \<lambda>_. None\<rparr>"

type_synonym example_protocol =
  "(verification_level list_cache, on_chain_info list_cache, unit list_cache) ant_protocol"

definition example_protocol_state :: example_protocol where
  "example_protocol_state = \<lparr>an_storage = example_storage, an_verifier = verifier_new example_lrus 10,
     an_quotes = example_generator, an_commitments = small_state, an_fresh_writes = []\<rparr>"

definition example_put :: chunk_put_request where
  "example_put = \<lparr>pr_address = 1, pr_content = [0], pr_payment_proof = Some paid_proof\<rparr>"

lemmas example_precheck_simps = put_prechecks_def example_handler_env_def example_put_def chunk_hash_def lmdb_exists_def
  example_protocol_state_def example_storage_def check_capacity_def check_disk_space_cached_def check_disk_space_def
  default_storage_config_def DEFAULT_DISK_RESERVE_def GIB_def MIB_def is_responsible_def SELF_CLOSENESS_GATE_WIDTH_def

theorem put_refusal_harmless_witness:
  "an_fresh_writes (snd (handle_put (example_handler_env [1]) example_lrus example_put example_protocol_state)) = [] \<and>
   fst (handle_put (example_handler_env [1]) example_lrus example_put example_protocol_state) = PutError ErrNotClosest"
proof -
  let ?r = "handle_put (example_handler_env [1]) example_lrus example_put example_protocol_state"
  have f: "fst ?r = PutError ErrNotClosest"
    by (simp add: handle_put_def example_precheck_simps)
  from put_refusal_harmless [OF surjective_pairing, of "example_handler_env [1]" example_lrus example_put example_protocol_state] f
  show ?thesis by (simp add: example_protocol_state_def)
qed

lemma example_chunk_stores:
  assumes "ls_db storage = Map.empty" "ls_config storage = default_storage_config" "ls_last_disk_ok storage = Some 0"
  shows "\<exists>storage'. lmdb_put chunk_hash (example_put_env\<lparr>pu_first := TxnCommits\<rparr>) 1 [0] storage = (Inr True, storage')"
proof -
  have four: "(f ^^ 4) x = f (f (f (f x)))" for f :: "'x \<Rightarrow> 'x" and x by (simp add: numeral_eq_Suc)
  have "fst (lmdb_put chunk_hash (example_put_env\<lparr>pu_first := TxnCommits\<rparr>) 1 [0] storage) = Inr True"
    unfolding lmdb_put_def four using assms
    by (simp add: put_checks_def put_attempt_def try_put_def chunk_hash_def lmdb_exists_def check_disk_space_cached_def
        check_disk_space_def example_put_env_def default_storage_config_def DEFAULT_DISK_RESERVE_def GIB_def MIB_def)
  then show ?thesis by (metis prod.collapse)
qed

lemma example_put_succeeds:
  "\<exists>s'. handle_put (example_handler_env [4]) example_lrus example_put example_protocol_state = (PutSuccess 1, s')"
proof -
  let ?env = "example_handler_env [4]"
  obtain storage where pre: "put_prechecks ?env example_put example_protocol_state = (None, example_protocol_state\<lparr>an_storage := storage\<rparr>)"
    and storage: "ls_db storage = Map.empty" "ls_config storage = default_storage_config" "ls_last_disk_ok storage = Some 0"
    by (simp add: example_precheck_simps)
  obtain v where "verify_payment (hn_pay ?env) example_lrus (pr_address example_put) (pr_payment_proof example_put) ClientPut
      (an_verifier example_protocol_state) = (Inr PaymentVerified, v)"
    using example_verified by (simp add: example_handler_env_def example_put_def example_protocol_state_def) (metis prod.collapse)
  moreover obtain storage' where "lmdb_put (hn_b3 ?env) (hn_put ?env) (pr_address example_put) (pr_content example_put) storage = (Inr True, storage')"
    using example_chunk_stores [OF storage] by (auto simp: example_handler_env_def example_put_def)
  then have "fst (put_store ?env example_put (s\<lparr>an_storage := storage, an_verifier := v\<rparr>)) = PutSuccess 1" for s :: example_protocol and v
    by (simp add: put_store_def Let_def) (simp add: example_put_def)
  ultimately have "fst (handle_put ?env example_lrus example_put example_protocol_state) = PutSuccess 1"
    using pre by (simp add: handle_put_def can_store_def Let_def)
  then show ?thesis by (metis prod.collapse)
qed


end
