(* ===== verification/Fresh_Replication.thy ===== *)
theory Fresh_Replication
  imports Chunk_Handler Gossip_Audit Paid_List Quorum
begin

text \<open>
  Fresh replication and the requests a node answers for its neighbours: the fan-out of a new chunk
  (src/src/replication/fresh.rs) and, from src/src/replication/mod.rs, the receipt of offers and paid
  notices, the fetch of a chunk with its server side, and the answer to a verification request. What
  the network does to a message is an argument; reason texts are kept as constructors.
\<close>

section \<open>Sending\<close>

definition FRESH_REPLICATION_DELIVERY_MAX_RETRIES :: nat where "FRESH_REPLICATION_DELIVERY_MAX_RETRIES = 2"

datatype fresh_message = FreshOffer xor_name bytes bytes | PaidNotify xor_name bytes

text \<open>The delivery of one offer: \<open>ok n\<close> tells whether the \<open>n\<close>-th attempt gets through. The result is the
  outcome and the number of attempts.\<close>

function deliver_offer :: "(nat \<Rightarrow> bool) \<Rightarrow> nat \<Rightarrow> bool \<times> nat" where
  "deliver_offer ok attempt =
     (if ok attempt then (True, attempt + 1)
      else if attempt \<ge> FRESH_REPLICATION_DELIVERY_MAX_RETRIES then (False, attempt + 1)
      else deliver_offer ok (attempt + 1))"
  by auto
termination by (relation "measure (\<lambda>(_, attempt). FRESH_REPLICATION_DELIVERY_MAX_RETRIES - attempt)") auto

declare deliver_offer.simps [simp del]

record fresh_send_env =
  fs_self :: peer_id
  fs_closest :: closest_fn
  fs_config :: replication_config
  fs_encodes :: "fresh_message \<Rightarrow> bool"
  fs_pl_read_ok :: bool
  fs_pl_write_ok :: bool

definition send_paid_notify :: "fresh_send_env \<Rightarrow> xor_name \<Rightarrow> bytes \<Rightarrow> (peer_id \<times> fresh_message) list" where
  "send_paid_notify env key proof_of_payment =
     (let paid_group = fs_closest env key (paid_list_close_group_size (fs_config env));
          notify = PaidNotify key proof_of_payment
      in if \<not> fs_encodes env notify then []
         else map (\<lambda>p. (p, notify)) (filter (\<lambda>p. p \<noteq> fs_self env) paid_group))"

text \<open>The peers to check later and the messages handed to the network.\<close>

definition replicate_fresh ::
  "fresh_send_env \<Rightarrow> xor_name \<Rightarrow> bytes \<Rightarrow> bytes \<Rightarrow> paid_list \<Rightarrow> (peer_id list \<times> (peer_id \<times> fresh_message) list) \<times> paid_list" where
  "replicate_fresh env key data proof_of_payment pl =
     (let pl1 = snd (pl_insert (fs_pl_read_ok env) (fs_pl_write_ok env) key pl);
          target_peers = filter (\<lambda>p. p \<noteq> fs_self env) (fs_closest env key (close_group_size (fs_config env)));
          offer = FreshOffer key data proof_of_payment
      in if \<not> fs_encodes env offer then (([], []), pl1)
         else ((target_peers, map (\<lambda>p. (p, offer)) target_peers @ send_paid_notify env key proof_of_payment), pl1))"

record possession_check_event =
  pk_key :: xor_name
  pk_peers :: "peer_id list"

definition drain_fresh_write ::
  "fresh_send_env \<Rightarrow> fresh_write_event \<Rightarrow> paid_list \<Rightarrow>
     ((peer_id \<times> fresh_message) list \<times> possession_check_event list) \<times> paid_list" where
  "drain_fresh_write env event pl =
     (case replicate_fresh env (fw_key event) (fw_data event) (fw_payment_proof event) pl of
        ((peers, messages), pl1) \<Rightarrow>
          ((messages, if peers \<noteq> [] then [\<lparr>pk_key = fw_key event, pk_peers = peers\<rparr>] else []), pl1))"

section \<open>Receiving\<close>

datatype fresh_rejection =
    MissingProof | OversizedData | KeyMismatch | NotInRange | NoCapacity storage_error
  | PaymentNeeded | PaymentError payment_error | StoreFailed storage_error

datatype fresh_response = FreshAccepted xor_name | FreshRejected xor_name fresh_rejection

definition fresh_offer_payment_context :: verification_context where "fresh_offer_payment_context = ClientPut"

definition paid_notify_payment_context :: verification_context where "paid_notify_payment_context = PaidListAdmission"

record fresh_env =
  fr_b3 :: "bytes \<Rightarrow> hash32"
  fr_max_chunk_size :: nat
  fr_config :: replication_config
  fr_self :: peer_id
  fr_closest :: closest_fn
  fr_now :: instant
  fr_available :: "nat option"
  fr_pay :: pay_env
  fr_put :: put_env
  fr_pl_read_ok :: bool
  fr_pl_write_ok :: bool

record ('a, 'b, 'c) replica =
  rp_storage :: lmdb_storage
  rp_paid :: paid_list
  rp_verifier :: "('a, 'b, 'c) verifier"
  rp_trust :: "audit_trust_event list"

definition offer_prechecks ::
  "fresh_env \<Rightarrow> peer_id \<Rightarrow> xor_name \<Rightarrow> bytes \<Rightarrow> bytes \<Rightarrow> ('a, 'b, 'c) replica \<Rightarrow> fresh_rejection option \<times> ('a, 'b, 'c) replica" where
  "offer_prechecks env source key data proof_of_payment s =
     (if proof_of_payment = [] then (Some MissingProof, s)
      else if length data > fr_max_chunk_size env
      then (Some OversizedData, s\<lparr>rp_trust := rp_trust s @ [ReplicationPenalty source]\<rparr>)
      else if fr_b3 env data \<noteq> key then (Some KeyMismatch, s\<lparr>rp_trust := rp_trust s @ [ReplicationPenalty source]\<rparr>)
      else if \<not> is_responsible (fr_closest env) (fr_self env) key (paid_list_close_group_size (fr_config env))
      then (Some NotInRange, s)
      else case check_capacity (fr_now env) (fr_available env) (rp_storage s) of
        (Inl e, storage) \<Rightarrow> (Some (NoCapacity e), s\<lparr>rp_storage := storage\<rparr>)
      | (Inr _, storage) \<Rightarrow> (None, s\<lparr>rp_storage := storage\<rparr>))"

definition offer_store ::
  "fresh_env \<Rightarrow> xor_name \<Rightarrow> bytes \<Rightarrow> ('a, 'b, 'c) replica \<Rightarrow> fresh_response \<times> ('a, 'b, 'c) replica" where
  "offer_store env key data s =
     (let s1 = s\<lparr>rp_paid := snd (pl_insert (fr_pl_read_ok env) (fr_pl_write_ok env) key (rp_paid s))\<rparr>
      in case lmdb_put (fr_b3 env) (fr_put env) key data (rp_storage s1) of
           (Inr _, storage) \<Rightarrow> (FreshAccepted key, s1\<lparr>rp_storage := storage\<rparr>)
         | (Inl e, storage) \<Rightarrow> (FreshRejected key (StoreFailed e), s1\<lparr>rp_storage := storage\<rparr>))"

definition handle_fresh_offer ::
  "fresh_env \<Rightarrow> ('a, 'b, 'c) verifier_lrus \<Rightarrow> peer_id \<Rightarrow> xor_name \<Rightarrow> bytes \<Rightarrow> bytes \<Rightarrow> ('a, 'b, 'c) replica \<Rightarrow>
     fresh_response \<times> ('a, 'b, 'c) replica" where
  "handle_fresh_offer env lr source key data proof_of_payment s =
     (case offer_prechecks env source key data proof_of_payment s of
        (Some reason, s1) \<Rightarrow> (FreshRejected key reason, s1)
      | (None, s1) \<Rightarrow>
          (case verify_payment (fr_pay env) lr key (Some proof_of_payment) fresh_offer_payment_context (rp_verifier s1) of
             (result, verifier) \<Rightarrow>
               let s2 = s1\<lparr>rp_verifier := verifier\<rparr>
               in (case result of
                     Inl e \<Rightarrow> (FreshRejected key (PaymentError e), s2)
                   | Inr status \<Rightarrow>
                       if can_store status then offer_store env key data s2 else (FreshRejected key PaymentNeeded, s2))))"

definition handle_paid_notify ::
  "fresh_env \<Rightarrow> ('a, 'b, 'c) verifier_lrus \<Rightarrow> xor_name \<Rightarrow> bytes \<Rightarrow> ('a, 'b, 'c) replica \<Rightarrow> ('a, 'b, 'c) replica" where
  "handle_paid_notify env lr key proof_of_payment s =
     (if proof_of_payment = [] then s
      else if \<not> is_in_paid_close_group (fr_closest env) (fr_self env) key (paid_list_close_group_size (fr_config env)) then s
      else case verify_payment (fr_pay env) lr key (Some proof_of_payment) paid_notify_payment_context (rp_verifier s) of
        (result, verifier) \<Rightarrow>
          let s1 = s\<lparr>rp_verifier := verifier\<rparr>
          in (case result of
                Inl _ \<Rightarrow> s1
              | Inr status \<Rightarrow>
                  if can_store status
                  then s1\<lparr>rp_paid := snd (pl_insert (fr_pl_read_ok env) (fr_pl_write_ok env) key (rp_paid s1))\<rparr> else s1))"

section \<open>Fetching\<close>

datatype fetch_response = FetchSuccess xor_name bytes | FetchNotFound xor_name | FetchError xor_name

datatype fetch_wire = FetchUnencodable | FetchNoAnswer | FetchUndecodable | FetchOtherBody | FetchAnswer fetch_response

definition handle_fetch_request ::
  "(bytes \<Rightarrow> hash32) \<Rightarrow> bool \<Rightarrow> xor_name \<Rightarrow> lmdb_storage \<Rightarrow> fetch_response \<times> lmdb_storage" where
  "handle_fetch_request b3 read_ok key st =
     (case lmdb_get b3 read_ok key st of
        (Inr (Some data), st1) \<Rightarrow> (FetchSuccess key data, st1)
      | (Inr None, st1) \<Rightarrow> (FetchNotFound key, st1)
      | (Inl _, st1) \<Rightarrow> (FetchError key, st1))"

definition execute_single_fetch ::
  "(bytes \<Rightarrow> hash32) \<Rightarrow> nat \<Rightarrow> put_env \<Rightarrow> xor_name \<Rightarrow> peer_id \<Rightarrow> fetch_wire \<Rightarrow> lmdb_storage \<times> audit_trust_event list \<Rightarrow>
     fetch_result \<times> lmdb_storage \<times> audit_trust_event list" where
  "execute_single_fetch b3 max_chunk_size pe key source answer = (\<lambda>(st, trust).
     case answer of
       FetchUnencodable \<Rightarrow> (SourceFailed, st, trust)
     | FetchNoAnswer \<Rightarrow> (SourceFailed, st, trust)
     | FetchUndecodable \<Rightarrow> (SourceFailed, st, trust @ [ReplicationPenalty source])
     | FetchOtherBody \<Rightarrow> (SourceFailed, st, trust @ [ReplicationPenalty source])
     | FetchAnswer (FetchNotFound _) \<Rightarrow> (SourceFailed, st, trust @ [ReplicationPenalty source])
     | FetchAnswer (FetchError _) \<Rightarrow> (SourceFailed, st, trust @ [ReplicationPenalty source])
     | FetchAnswer (FetchSuccess resp_key data) \<Rightarrow>
         if resp_key \<noteq> key then (IntegrityFailed, st, trust @ [ReplicationPenalty source])
         else if length data > max_chunk_size then (IntegrityFailed, st, trust @ [ReplicationPenalty source])
         else if b3 data \<noteq> resp_key then (IntegrityFailed, st, trust @ [ReplicationPenalty source])
         else case lmdb_put b3 pe resp_key data st of
           (Inl _, st1) \<Rightarrow> (SourceFailed, st1, trust)
         | (Inr _, st1) \<Rightarrow> (FetchStored, st1, trust))"

section \<open>Answering a verification request\<close>

text \<open>Key indices are 32-bit; the length of the key list is truncated to them.\<close>

definition handle_verification_request ::
  "bool \<Rightarrow> bool \<Rightarrow> xor_name list \<Rightarrow> nat list \<Rightarrow> lmdb_storage \<Rightarrow> paid_list \<Rightarrow> key_verification_result list" where
  "handle_verification_request read_ok pl_read_ok request_keys check_indices st pl =
     (let keys_len = length request_keys mod 2 ^ 32;
          paid_check_set = set (filter (\<lambda>idx. idx < keys_len) check_indices)
      in map (\<lambda>(i, key).
           \<lparr>vr_key = key,
            vr_present = (case lmdb_exists read_ok key st of Inr present \<Rightarrow> present | Inl _ \<Rightarrow> False),
            vr_paid = (if (if i \<le> u32_max then i else u32_max) \<in> paid_check_set
              then Some (unwrap_or (pl_contains pl_read_ok key pl) False) else None)\<rparr>)
           (enumerate 0 request_keys))"

section \<open>Lemmas\<close>

lemma deliver_offer_exact:
  "deliver_offer ok 0 = (if ok 0 then (True, 1) else if ok 1 then (True, 2) else (ok 2, 3))"
  by (simp add: deliver_offer.simps [of _ 0] deliver_offer.simps [of _ "Suc 0"] deliver_offer.simps [of _ "Suc (Suc 0)"]
      FRESH_REPLICATION_DELIVERY_MAX_RETRIES_def numeral_2_eq_2)

lemma pl_insert_keys:
  "pl_keys pl \<subseteq> pl_keys (snd (pl_insert r w key pl)) \<and> pl_keys (snd (pl_insert r w key pl)) \<subseteq> insert key (pl_keys pl)"
  by (auto simp: pl_insert_def split: option.splits bool.splits)

lemma put_result:
  assumes "lmdb_put b3 pe key data st = (r, st')"
  shows "ls_db st' = (if r = Inr True then (ls_db st)(key \<mapsto> data) else ls_db st)" "r = Inr True \<Longrightarrow> ls_db st key = None"
    "r = Inr False \<Longrightarrow> ls_db st key \<noteq> None"
  using lmdb_put_cases [OF assms] by (simp_all add: put_progress_def)

text \<open>A call of the payment verifier for the address, for a store if \<open>strict\<close>, that carried a backed proof.\<close>

definition backed_call :: "pay_env set \<Rightarrow> bool \<Rightarrow> xor_name \<Rightarrow> call \<Rightarrow> bool" where
  "backed_call E strict x = (\<lambda>(env, x', p, context).
     x' = x \<and> (strict \<longrightarrow> context = ClientPut) \<and> (\<exists>bytes. p = Some bytes \<and> proof_backed E env x bytes))"

lemma verified_backed:
  assumes "lrus_ok lr" "leaders_sound E" "\<forall>(env', _)\<in>set calls. env' \<in> E" "env \<in> E"
    and "verify_payment env lr x p context (run_calls lr calls (verifier_new lr cap)) = (Inr status, st')"
  shows "\<exists>c\<in>set calls \<union> {(env, x, p, context)}. backed_call E (context = ClientPut) x c"
  using admission_backed [OF assms] by (auto simp: backed_call_def)

lemma offer_passed:
  assumes "offer_prechecks env source key data pf s = (None, s1)"
  shows "pf \<noteq> [] \<and> length data \<le> fr_max_chunk_size env \<and> fr_b3 env data = key \<and>
      fr_self env \<in> set (fr_closest env key (paid_list_close_group_size (fr_config env)))"
    "\<exists>storage. s1 = s\<lparr>rp_storage := storage\<rparr> \<and> ls_db storage = ls_db (rp_storage s)"
  using assms
  by (auto simp: offer_prechecks_def is_responsible_def list_ex_iff split: if_splits sum.splits prod.splits dest: capacity_keeps_db)

lemma offer_refused:
  assumes "offer_prechecks env source key data pf s = (Some reason, s1)"
  shows "ls_db (rp_storage s1) = ls_db (rp_storage s) \<and> rp_paid s1 = rp_paid s \<and> rp_verifier s1 = rp_verifier s \<and>
    rp_trust s1 = rp_trust s @ (if reason = OversizedData \<or> reason = KeyMismatch then [ReplicationPenalty source] else [])"
  using assms
  by (auto simp: offer_prechecks_def split: if_splits sum.splits prod.splits dest: capacity_keeps_db)

lemma offer_store_cases:
  assumes "offer_store env key data s = (r, s')"
  shows "rp_trust s' = rp_trust s \<and> rp_paid s' = snd (pl_insert (fr_pl_read_ok env) (fr_pl_write_ok env) key (rp_paid s)) \<and>
    (r = FreshAccepted key \<and> ls_db (rp_storage s') = (if ls_db (rp_storage s) key = None
       then (ls_db (rp_storage s))(key \<mapsto> data) else ls_db (rp_storage s)) \<or>
     (\<exists>e. r = FreshRejected key (StoreFailed e)) \<and> ls_db (rp_storage s') = ls_db (rp_storage s))"
proof -
  obtain pr storage where p: "lmdb_put (fr_b3 env) (fr_put env) key data (rp_storage s) = (pr, storage)" by fastforce
  note pr = put_result [OF p]
  show ?thesis
  proof (cases pr)
    case (Inl e)
    with assms p pr(1) show ?thesis by (auto simp: offer_store_def Let_def)
  next
    case (Inr new)
    with assms p pr show ?thesis by (cases new) (auto simp: offer_store_def Let_def)
  qed
qed

section \<open>Properties\<close>

text \<open>
  C7. Replication admits only what was paid for. An offer is accepted only with a proof, within the size
  limit, for content that hashes to the key, by a node in range, and after a store-strength payment
  check that is backed by this or an earlier request; the chunk is then stored, a refused offer
  changes no chunk, and only oversized or mislabelled data costs the sender trust. A paid entry is
  added only by a request whose payment check is backed and only by a node in range.
\<close>

theorem replication_admission_backed:
  assumes "lrus_ok lr" and "leaders_sound E" and "\<forall>(env', _)\<in>set calls. env' \<in> E" and "fr_pay env \<in> E"
    and "rp_verifier s = run_calls lr calls (verifier_new lr cap)"
    and "handle_fresh_offer env lr source key data pf s = (r, s')"
  shows "(r = FreshAccepted key \<longrightarrow> pf \<noteq> [] \<and> length data \<le> fr_max_chunk_size env \<and> fr_b3 env data = key \<and>
      ls_db (rp_storage s') = (if ls_db (rp_storage s) key = None then (ls_db (rp_storage s))(key \<mapsto> data) else ls_db (rp_storage s))) \<and>
    (r \<noteq> FreshAccepted key \<longrightarrow> ls_db (rp_storage s') = ls_db (rp_storage s)) \<and>
    (r = FreshAccepted key \<or> rp_paid s' \<noteq> rp_paid s \<longrightarrow>
      fr_self env \<in> set (fr_closest env key (paid_list_close_group_size (fr_config env))) \<and>
      (\<exists>c\<in>set calls \<union> {(fr_pay env, key, Some pf, ClientPut)}. backed_call E True key c)) \<and>
    pl_keys (rp_paid s') \<subseteq> insert key (pl_keys (rp_paid s)) \<and>
    rp_trust s' = rp_trust s @ (if r = FreshRejected key OversizedData \<or> r = FreshRejected key KeyMismatch then [ReplicationPenalty source] else []) \<and>
    (rp_paid (handle_paid_notify env lr key pf s) \<noteq> rp_paid s \<longrightarrow>
      fr_self env \<in> set (fr_closest env key (paid_list_close_group_size (fr_config env))) \<and>
      (\<exists>c\<in>set calls \<union> {(fr_pay env, key, Some pf, PaidListAdmission)}. backed_call E False key c))"
proof -
  have notify: "fr_self env \<in> set (fr_closest env key (paid_list_close_group_size (fr_config env))) \<and>
      (\<exists>c\<in>set calls \<union> {(fr_pay env, key, Some pf, PaidListAdmission)}. backed_call E False key c)"
    if changed: "rp_paid (handle_paid_notify env lr key pf s) \<noteq> rp_paid s"
  proof -
    obtain status v where v: "verify_payment (fr_pay env) lr key (Some pf) PaidListAdmission (rp_verifier s) = (Inr status, v)"
      and "is_in_paid_close_group (fr_closest env) (fr_self env) key (paid_list_close_group_size (fr_config env))"
      using changed by (cases "verify_payment (fr_pay env) lr key (Some pf) PaidListAdmission (rp_verifier s)")
        (auto simp: handle_paid_notify_def Let_def paid_notify_payment_context_def split: if_splits sum.splits)
    moreover from v have "\<exists>c\<in>set calls \<union> {(fr_pay env, key, Some pf, PaidListAdmission)}. backed_call E False key c"
      using verified_backed [OF assms(1-4) v [unfolded assms(5)]] by simp
    ultimately show ?thesis by (simp add: is_in_paid_close_group_def list_ex_iff)
  qed
  consider (refused) reason where "offer_prechecks env source key data pf s = (Some reason, s')" "r = FreshRejected key reason"
    | (unpaid) s1 v reason where "offer_prechecks env source key data pf s = (None, s1)" "r = FreshRejected key reason"
        "reason \<noteq> OversizedData" "reason \<noteq> KeyMismatch" "s' = s1\<lparr>rp_verifier := v\<rparr>"
    | (paid) s1 status v where "offer_prechecks env source key data pf s = (None, s1)"
        "verify_payment (fr_pay env) lr key (Some pf) ClientPut (rp_verifier s1) = (Inr status, v)"
        "offer_store env key data (s1\<lparr>rp_verifier := v\<rparr>) = (r, s')"
    using assms(6) by (auto simp: handle_fresh_offer_def Let_def fresh_offer_payment_context_def
        split: option.splits prod.splits sum.splits if_splits)
  then show ?thesis
  proof cases
    case refused
    with offer_refused [OF refused(1)] notify show ?thesis by auto
  next
    case unpaid
    with offer_passed(2) [OF unpaid(1)] notify show ?thesis by auto
  next
    case paid
    note pa = offer_passed [OF paid(1)]
    obtain storage where s1: "s1 = s\<lparr>rp_storage := storage\<rparr>" "ls_db storage = ls_db (rp_storage s)" using pa(2) by blast
    have vp: "verify_payment (fr_pay env) lr key (Some pf) ClientPut (run_calls lr calls (verifier_new lr cap)) = (Inr status, v)"
      using paid(2) assms(5) s1 by simp
    have "\<exists>c\<in>set calls \<union> {(fr_pay env, key, Some pf, ClientPut)}. backed_call E True key c"
      using verified_backed [OF assms(1-4) vp] by simp
    with offer_store_cases [OF paid(3)] pa(1) s1 notify pl_insert_keys show ?thesis by auto
  qed
qed

text \<open>
  C9. A fetch stores only the chunk asked for. Whatever the source answers, the store stays content
  addressed and no other chunk changes; \<open>Stored\<close> means that the key is there afterwards, any other
  result leaves the store as it was. A source that holds the chunk and answers by the book is never
  penalised and never counts as having sent a corrupt chunk, and the chunk is stored unless the local
  write fails.
\<close>

theorem fetch_integrity:
  assumes "execute_single_fetch b3 mx pe key source answer (st, trust) = (res, st', trust')" and "content_addressed b3 (ls_db st)"
  shows "content_addressed b3 (ls_db st') \<and> (\<forall>k. k \<noteq> key \<longrightarrow> ls_db st' k = ls_db st k) \<and>
    (res = FetchStored \<longrightarrow> (\<exists>c. ls_db st' key = Some c)) \<and> (res \<noteq> FetchStored \<longrightarrow> ls_db st' = ls_db st) \<and>
    (\<forall>served c. ls_db served key = Some c \<longrightarrow> content_addressed b3 (ls_db served) \<longrightarrow> length c \<le> mx \<longrightarrow>
       answer = FetchAnswer (fst (handle_fetch_request b3 True key served)) \<longrightarrow> trust' = trust \<and> res \<noteq> IntegrityFailed \<and>
       (\<forall>new. fst (lmdb_put b3 pe key c st) = Inr new \<longrightarrow> res = FetchStored \<and> (new \<longrightarrow> ls_db st' key = Some c)))"
proof -
  have store: "content_addressed b3 (ls_db st') \<and> (\<forall>k. k \<noteq> key \<longrightarrow> ls_db st' k = ls_db st k) \<and>
    (res = FetchStored \<longrightarrow> (\<exists>c. ls_db st' key = Some c)) \<and> (res \<noteq> FetchStored \<longrightarrow> ls_db st' = ls_db st)"
  proof (cases "\<exists>data. answer = FetchAnswer (FetchSuccess key data) \<and> length data \<le> mx \<and> b3 data = key")
    case True
    then obtain data where d: "answer = FetchAnswer (FetchSuccess key data)" "length data \<le> mx" "b3 data = key" by blast
    obtain pr st1 where p: "lmdb_put b3 pe key data st = (pr, st1)" by fastforce
    note pr = put_result [OF p]
    have st': "st' = st1" "res = (case pr of Inl _ \<Rightarrow> SourceFailed | Inr _ \<Rightarrow> FetchStored)"
      using assms(1) d p by (auto simp: execute_single_fetch_def split: sum.splits)
    show ?thesis
    proof (cases pr)
      case (Inl e)
      with pr st' assms(2) show ?thesis by simp
    next
      case (Inr new)
      with pr st' assms(2) d show ?thesis by (cases new) (auto simp: content_addressed_def)
    qed
  next
    case False
    with assms show ?thesis
      by (auto simp: execute_single_fetch_def split: fetch_wire.splits fetch_response.splits if_splits)
  qed
  have "trust' = trust \<and> res \<noteq> IntegrityFailed \<and>
      (\<forall>new. fst (lmdb_put b3 pe key c st) = Inr new \<longrightarrow> res = FetchStored \<and> (new \<longrightarrow> ls_db st' key = Some c))"
    if "ls_db served key = Some c" "content_addressed b3 (ls_db served)" "length c \<le> mx"
      "answer = FetchAnswer (fst (handle_fetch_request b3 True key served))" for served c
  proof -
    have "b3 c = key" using that(1,2) by (auto simp: content_addressed_def)
    with that have "answer = FetchAnswer (FetchSuccess key c)" by (simp add: handle_fetch_request_def lmdb_get_def)
    moreover obtain pr st1 where p: "lmdb_put b3 pe key c st = (pr, st1)" by fastforce
    ultimately show ?thesis using \<open>b3 c = key\<close> that(3) assms(1) put_result(1) [OF p]
      by (auto simp: execute_single_fetch_def split: sum.splits)
  qed
  with store show ?thesis by blast
qed

section \<open>Examples\<close>

definition example_fresh_env :: fresh_env where
  "example_fresh_env = \<lparr>fr_b3 = chunk_hash, fr_max_chunk_size = 4, fr_config = default_config 7, fr_self = 4,
     fr_closest = \<lambda>_ _. [4], fr_now = 0, fr_available = Some GIB, fr_pay = example_pay_env,
     fr_put = example_put_env\<lparr>pu_first := TxnCommits\<rparr>, fr_pl_read_ok = True, fr_pl_write_ok = True\<rparr>"

definition example_replica :: "(verification_level list_cache, on_chain_info list_cache, unit list_cache) replica" where
  "example_replica = \<lparr>rp_storage = example_storage, rp_paid = pl_new {}, rp_verifier = verifier_new example_lrus 10, rp_trust = []\<rparr>"

lemma example_offer_accepted:
  "\<exists>s'. handle_fresh_offer example_fresh_env example_lrus 9 1 [0] paid_proof example_replica = (FreshAccepted 1, s')"
proof -
  have "paid_proof \<noteq> []" by (simp add: paid_proof_def)
  then obtain storage where pre: "offer_prechecks example_fresh_env 9 1 [0] paid_proof example_replica =
      (None, example_replica\<lparr>rp_storage := storage\<rparr>)"
    and storage: "ls_db storage = Map.empty" "ls_config storage = default_storage_config" "ls_last_disk_ok storage = Some 0"
    by (simp add: offer_prechecks_def example_fresh_env_def example_replica_def example_precheck_simps)
  obtain v where "verify_payment (fr_pay example_fresh_env) example_lrus 1 (Some paid_proof) fresh_offer_payment_context
      (rp_verifier example_replica) = (Inr PaymentVerified, v)"
    using example_verified by (simp add: example_fresh_env_def example_replica_def fresh_offer_payment_context_def) (metis prod.collapse)
  moreover obtain storage' where "lmdb_put (fr_b3 example_fresh_env) (fr_put example_fresh_env) 1 [0] storage = (Inr True, storage')"
    using example_chunk_stores [OF storage] by (auto simp: example_fresh_env_def)
  ultimately have "fst (handle_fresh_offer example_fresh_env example_lrus 9 1 [0] paid_proof example_replica) = FreshAccepted 1"
    using pre by (simp add: handle_fresh_offer_def offer_store_def can_store_def Let_def)
  then show ?thesis by (metis prod.collapse)
qed

theorem replication_admission_backed_witness:
  "ls_db (rp_storage (snd (handle_fresh_offer example_fresh_env example_lrus 9 1 [0] paid_proof example_replica))) 1 = Some [0] \<and>
   backed_call {example_pay_env} True 1 (example_pay_env, 1, Some paid_proof, ClientPut)"
proof -
  obtain s' where s': "handle_fresh_offer example_fresh_env example_lrus 9 1 [0] paid_proof example_replica = (FreshAccepted 1, s')"
    using example_offer_accepted by blast
  have v: "rp_verifier example_replica = run_calls example_lrus [] (verifier_new example_lrus 10)" "fr_pay example_fresh_env \<in> {example_pay_env}"
    by (simp_all add: example_replica_def example_fresh_env_def)
  have e: "ls_db (rp_storage example_replica) = Map.empty" "fr_pay example_fresh_env = example_pay_env"
    by (simp_all add: example_replica_def example_storage_def example_fresh_env_def)
  from replication_admission_backed [OF example_lrus_ok example_leaders _ v(2,1) s'] show ?thesis by (simp add: s' e)
qed

theorem fetch_integrity_witness:
  "fst (execute_single_fetch chunk_hash 4 example_put_env 1 9 (FetchAnswer (FetchSuccess 1 [5])) (example_storage, [])) = IntegrityFailed \<and>
   ls_db (fst (snd (execute_single_fetch chunk_hash 4 example_put_env 1 9 (FetchAnswer (FetchSuccess 1 [5])) (example_storage, [])))) = Map.empty"
proof -
  let ?r = "execute_single_fetch chunk_hash 4 example_put_env 1 9 (FetchAnswer (FetchSuccess 1 [5])) (example_storage, [])"
  have f: "fst ?r = IntegrityFailed" by (simp add: execute_single_fetch_def chunk_hash_def)
  obtain st' trust' where r: "?r = (IntegrityFailed, st', trust')" using f by (metis prod.collapse)
  have empty: "ls_db example_storage = Map.empty" by (simp add: example_storage_def)
  from fetch_integrity [OF r] show ?thesis unfolding r by (simp add: content_addressed_def empty)
qed

end
