(* ===== verification/Possession.thy ===== *)
theory Possession
  imports Fresh_Replication Responsible_Audit
begin

text \<open>
  The delayed possession check after fresh replication (src/src/replication/possession.rs): each peer
  that should hold a new chunk is asked for a digest over a fresh nonce. What the network returns for
  a probe is an argument, and so are the nonce and the challenge id of each probe.
\<close>

section \<open>One probe\<close>

datatype probe_outcome = ProbePresent | ProbeFailed | ProbeTimeout | ProbeBootstrapClaim | ProbeInconclusive

definition to_millis :: "duration \<Rightarrow> nat" where
  "to_millis d = (if d div 10 ^ 6 < 2 ^ 64 then d div 10 ^ 6 else 2 ^ 64 - 1)"

text \<open>\<open>draw lo hi\<close> is the random number \<open>gen_range(lo..=hi)\<close> gives.\<close>

definition random_delay :: "(nat \<Rightarrow> nat \<Rightarrow> nat) \<Rightarrow> duration \<Rightarrow> duration \<Rightarrow> duration" where
  "random_delay draw mn mx =
     (if to_millis mn \<ge> to_millis mx then mn else draw (to_millis mn) (to_millis mx) * 10 ^ 6)"

definition interpret_audit_response ::
  "(bytes \<Rightarrow> hash32) \<Rightarrow> xor_name \<Rightarrow> bytes \<Rightarrow> peer_id \<Rightarrow> hash32 \<Rightarrow> nat \<Rightarrow> key_audit_response \<Rightarrow> probe_outcome" where
  "interpret_audit_response b3 key local_bytes challenged_peer_id nonce challenge_id response =
     (case response of
        Digests resp_id digests \<Rightarrow>
          if resp_id \<noteq> challenge_id \<or> length digests \<noteq> 1 then ProbeFailed
          else let received = digests ! 0
               in if received = ABSENT_KEY_DIGEST then ProbeFailed
                  else if received = compute_audit_digest b3 nonce challenged_peer_id key local_bytes then ProbePresent
                  else ProbeFailed
      | DigestsBootstrapping resp_id \<Rightarrow> if resp_id = challenge_id then ProbeBootstrapClaim else ProbeFailed
      | DigestsRejected _ \<Rightarrow> ProbeFailed)"

definition probe_challenge :: "xor_name \<Rightarrow> peer_id \<Rightarrow> hash32 \<Rightarrow> nat \<Rightarrow> key_audit_challenge" where
  "probe_challenge key peer nonce challenge_id =
     \<lparr>kc_challenge_id = challenge_id, kc_nonce = nonce, kc_challenged_peer_id = peer, kc_keys = [key]\<rparr>"

definition probe_once ::
  "(bytes \<Rightarrow> hash32) \<Rightarrow> xor_name \<Rightarrow> bytes \<Rightarrow> peer_id \<Rightarrow> hash32 \<times> nat \<Rightarrow> (key_audit_challenge \<Rightarrow> wire) \<Rightarrow> probe_outcome" where
  "probe_once b3 key local_bytes peer = (\<lambda>(nonce, challenge_id) send.
     case send (probe_challenge key peer nonce challenge_id) of
       EncodeFailed \<Rightarrow> ProbeInconclusive
     | SendFailed \<Rightarrow> ProbeTimeout
     | Undecodable \<Rightarrow> ProbeFailed
     | Received (BodyKeyAuditResponse resp) \<Rightarrow> interpret_audit_response b3 key local_bytes peer nonce challenge_id resp
     | Received _ \<Rightarrow> ProbeFailed)"

section \<open>The check\<close>

record possession_state =
  ps_sync :: neighbor_sync_state
  ps_trust :: "audit_trust_event list"

definition clear_possession_bootstrap_claim :: "peer_id \<Rightarrow> possession_state \<Rightarrow> possession_state" where
  "clear_possession_bootstrap_claim peer s = s\<lparr>ps_sync := snd (clear_active_bootstrap_claim peer (ps_sync s))\<rparr>"

definition report_possession_audit_failure :: "peer_id \<Rightarrow> possession_state \<Rightarrow> possession_state" where
  "report_possession_audit_failure peer s = s\<lparr>ps_trust := ps_trust s @ [AuditPenalty peer]\<rparr>"

definition handle_possession_bootstrap_claim ::
  "replication_config \<Rightarrow> peer_id \<Rightarrow> instant \<Rightarrow> possession_state \<Rightarrow> possession_state" where
  "handle_possession_bootstrap_claim config peer now s =
     (let (observation, sync) = observe_bootstrap_claim peer now (bootstrap_claim_grace_period config) (ps_sync s);
          s1 = s\<lparr>ps_sync := sync\<rparr>
      in case observation of
           WithinGrace _ \<Rightarrow> s1
         | PastGrace _ \<Rightarrow> s1\<lparr>ps_trust := ps_trust s1 @ [ReplicationPenalty peer]\<rparr>
         | Repeated _ \<Rightarrow> s1\<lparr>ps_trust := ps_trust s1 @ [ReplicationPenalty peer]\<rparr>)"

record possession_env =
  pn_b3 :: "bytes \<Rightarrow> hash32"
  pn_config :: replication_config
  pn_probe :: "peer_id \<Rightarrow> hash32 \<times> nat"
  pn_send :: "peer_id \<Rightarrow> key_audit_challenge \<Rightarrow> wire"
  pn_now :: "peer_id \<Rightarrow> instant"
  pn_cancelled :: "peer_id \<Rightarrow> bool"

definition settle_probe :: "possession_env \<Rightarrow> peer_id \<Rightarrow> probe_outcome \<Rightarrow> possession_state \<Rightarrow> possession_state" where
  "settle_probe env peer outcome s =
     (case outcome of
        ProbePresent \<Rightarrow> clear_possession_bootstrap_claim peer s
      | ProbeFailed \<Rightarrow> report_possession_audit_failure peer (clear_possession_bootstrap_claim peer s)
      | ProbeTimeout \<Rightarrow> report_possession_audit_failure peer s
      | ProbeBootstrapClaim \<Rightarrow> handle_possession_bootstrap_claim (pn_config env) peer (pn_now env peer) s
      | ProbeInconclusive \<Rightarrow> s)"

fun probe_peers :: "possession_env \<Rightarrow> xor_name \<Rightarrow> bytes \<Rightarrow> peer_id list \<Rightarrow> possession_state \<Rightarrow> possession_state" where
  "probe_peers env key local_bytes [] s = s"
| "probe_peers env key local_bytes (peer # peers) s =
     (if pn_cancelled env peer then s
      else probe_peers env key local_bytes peers
        (settle_probe env peer (probe_once (pn_b3 env) key local_bytes peer (pn_probe env peer) (pn_send env peer)) s))"

definition run_possession_check ::
  "possession_env \<Rightarrow> xor_name \<Rightarrow> peer_id list \<Rightarrow> storage_error + bytes option \<Rightarrow> possession_state \<Rightarrow> possession_state" where
  "run_possession_check env key peers read s =
     (case read of
        Inr (Some local_bytes) \<Rightarrow> probe_peers env key local_bytes peers s
      | Inr None \<Rightarrow> s
      | Inl _ \<Rightarrow> s)"

section \<open>What a check can cost\<close>

definition blamed :: "peer_id \<Rightarrow> audit_trust_event \<Rightarrow> bool" where
  "blamed p ev \<longleftrightarrow> ev = AuditPenalty p \<or> ev = ReplicationPenalty p"

lemma settle_trust:
  "\<exists>evs. ps_trust (settle_probe env p o' s) = ps_trust s @ evs \<and> length evs \<le> 1 \<and> (\<forall>ev\<in>set evs. blamed p ev) \<and>
     (o' = ProbePresent \<or> o' = ProbeInconclusive \<longrightarrow> evs = []) \<and> (o' = ProbeFailed \<or> o' = ProbeTimeout \<longrightarrow> evs = [AuditPenalty p])"
  by (auto simp: settle_probe_def clear_possession_bootstrap_claim_def report_possession_audit_failure_def blamed_def
      handle_possession_bootstrap_claim_def Let_def split: probe_outcome.splits prod.splits bootstrap_claim_observation.splits)

lemma probes_trust:
  "distinct peers \<Longrightarrow> \<exists>evs. ps_trust (probe_peers env key bs peers s) = ps_trust s @ evs \<and>
     (\<forall>p. length (filter (blamed p) evs) \<le> (if p \<in> set peers \<and>
        probe_once (pn_b3 env) key bs p (pn_probe env p) (pn_send env p) \<noteq> ProbePresent then 1 else 0)) \<and>
     ((\<forall>q\<in>set peers. \<not> pn_cancelled env q) \<longrightarrow> (\<forall>p\<in>set peers.
        probe_once (pn_b3 env) key bs p (pn_probe env p) (pn_send env p) \<in> {ProbeFailed, ProbeTimeout} \<longrightarrow>
        filter (blamed p) evs = [AuditPenalty p]))"
proof (induction peers arbitrary: s)
  case (Cons q peers)
  let ?o = "probe_once (pn_b3 env) key bs q (pn_probe env q) (pn_send env q)"
  show ?case
  proof (cases "pn_cancelled env q")
    case False
    obtain ev1 where e1: "ps_trust (settle_probe env q ?o s) = ps_trust s @ ev1" "length ev1 \<le> 1" "\<forall>ev\<in>set ev1. blamed q ev"
      "?o = ProbePresent \<longrightarrow> ev1 = []" "?o = ProbeFailed \<or> ?o = ProbeTimeout \<longrightarrow> ev1 = [AuditPenalty q]"
      using settle_trust [of env q ?o s] by blast
    obtain ev2 where e2: "ps_trust (probe_peers env key bs peers (settle_probe env q ?o s)) = ps_trust (settle_probe env q ?o s) @ ev2"
      "\<forall>p. length (filter (blamed p) ev2) \<le> (if p \<in> set peers \<and>
        probe_once (pn_b3 env) key bs p (pn_probe env p) (pn_send env p) \<noteq> ProbePresent then 1 else 0)"
      "(\<forall>q\<in>set peers. \<not> pn_cancelled env q) \<longrightarrow> (\<forall>p\<in>set peers.
        probe_once (pn_b3 env) key bs p (pn_probe env p) (pn_send env p) \<in> {ProbeFailed, ProbeTimeout} \<longrightarrow>
        filter (blamed p) ev2 = [AuditPenalty p])"
      using Cons.IH [of "settle_probe env q ?o s"] Cons.prems by auto
    have own: "filter (blamed q) ev2 = []" using e2(2) [rule_format, of q] Cons.prems by simp
    have other: "filter (blamed p) ev1 = []" if "p \<noteq> q" for p
      using e1(3) that by (auto simp: filter_empty_conv blamed_def)
    have "length (filter (blamed q) ev1) \<le> 1" using e1(2) length_filter_le [of "blamed q" ev1] by linarith
    then have le: "length (filter (blamed p) (ev1 @ ev2)) \<le> (if p \<in> set (q # peers) \<and>
        probe_once (pn_b3 env) key bs p (pn_probe env p) (pn_send env p) \<noteq> ProbePresent then 1 else 0)" for p
      using e2(2) [rule_format, of p] e1(4) own other by (cases "p = q") auto
    have exact: "filter (blamed p) (ev1 @ ev2) = [AuditPenalty p]"
      if "\<forall>r\<in>set (q # peers). \<not> pn_cancelled env r" "p \<in> set (q # peers)"
        "probe_once (pn_b3 env) key bs p (pn_probe env p) (pn_send env p) \<in> {ProbeFailed, ProbeTimeout}" for p
      using that e1(5) e2(3) own other by (cases "p = q") (auto simp: blamed_def)
    from le exact show ?thesis using False e1(1) e2(1) by (intro exI [of _ "ev1 @ ev2"]) simp
  qed (auto intro: exI [of _ "[]"])
qed simp

lemma honest_probe_present:
  assumes "send (probe_challenge key p (fst np) (snd np)) = Received (BodyKeyAuditResponse
      (handle_audit_challenge b3 rd p False stored (probe_challenge key p (fst np) (snd np))))"
    and "rd key = Inr (Some bs)" and "compute_audit_digest b3 (fst np) p key bs \<noteq> ABSENT_KEY_DIGEST"
  shows "probe_once b3 key bs p np send = ProbePresent"
proof -
  have "1 \<le> max_incoming_audit_keys stored" by (simp add: max_incoming_audit_keys_def)
  with assms show ?thesis
    by (cases np) (simp add: probe_once_def interpret_audit_response_def handle_audit_challenge_def probe_challenge_def Let_def)
qed

section \<open>Properties\<close>


definition example_possession :: possession_env where
  "example_possession = \<lparr>pn_b3 = small_hash, pn_config = default_config 7, pn_probe = \<lambda>_. (3, 1),
     pn_send = \<lambda>_ _. SendFailed, pn_now = \<lambda>_. 0, pn_cancelled = \<lambda>_. False\<rparr>"


end
