(* ===== verification/Audit_Responder.thy ===== *)
theory Audit_Responder
  imports Record_Pruning "HOL-Library.Multiset"
begin

text \<open>
  Admission of audit challenges on the answering side (src/src/replication/mod.rs): a cap per asking
  peer, kept in a shared map, and a global semaphore, both given back when the answering task ends.
  The two locks are taken one after the other, so admissions, refusals and releases of several
  challenges interleave; each step below is one critical section.
\<close>

section \<open>Admission\<close>

definition MAX_CONCURRENT_AUDIT_RESPONSES :: nat where "MAX_CONCURRENT_AUDIT_RESPONSES = 16"

definition MAX_AUDIT_RESPONSES_PER_PEER :: nat where "MAX_AUDIT_RESPONSES_PER_PEER = 2"

record responder_slots =
  au_inflight :: "peer_id \<rightharpoonup> nat"
  au_permits :: nat

definition claim_peer_slot :: "peer_id \<Rightarrow> responder_slots \<Rightarrow> bool \<times> responder_slots" where
  "claim_peer_slot source s =
     (let entry = unwrap_or (au_inflight s source) 0
      in if entry \<ge> MAX_AUDIT_RESPONSES_PER_PEER
         then (False, s\<lparr>au_inflight := (au_inflight s)(source \<mapsto> entry)\<rparr>)
         else (True, s\<lparr>au_inflight := (au_inflight s)(source \<mapsto> entry + 1)\<rparr>))"

definition release_peer_slot :: "peer_id \<Rightarrow> responder_slots \<Rightarrow> responder_slots" where
  "release_peer_slot peer s =
     (case au_inflight s peer of
        None \<Rightarrow> s
      | Some n \<Rightarrow>
          if n - 1 = 0 then s\<lparr>au_inflight := (au_inflight s)(peer := None)\<rparr>
          else s\<lparr>au_inflight := (au_inflight s)(peer \<mapsto> n - 1)\<rparr>)"

definition try_acquire_permit :: "responder_slots \<Rightarrow> bool \<times> responder_slots" where
  "try_acquire_permit s = (if au_permits s > 0 then (True, s\<lparr>au_permits := au_permits s - 1\<rparr>) else (False, s))"

definition release_permit :: "responder_slots \<Rightarrow> responder_slots" where
  "release_permit s = s\<lparr>au_permits := au_permits s + 1\<rparr>"

text \<open>The admission when nothing runs in between.\<close>

definition admit_audit_responder :: "peer_id \<Rightarrow> responder_slots \<Rightarrow> bool \<times> responder_slots" where
  "admit_audit_responder source s =
     (case claim_peer_slot source s of
        (False, s1) \<Rightarrow> (False, s1)
      | (True, s1) \<Rightarrow>
          (case try_acquire_permit s1 of
             (True, s2) \<Rightarrow> (True, s2)
           | (False, s2) \<Rightarrow> (False, release_peer_slot source s2)))"

definition responder_new :: responder_slots where
  "responder_new = \<lparr>au_inflight = Map.empty, au_permits = MAX_CONCURRENT_AUDIT_RESPONSES\<rparr>"

section \<open>Interleaved admissions\<close>

text \<open>
  The challenges between two critical sections: a slot claimed and the semaphore not yet tried, the
  semaphore found empty and the slot not yet given back, a live guard, and a dropped guard whose
  decrement was left to a task; and the number of dropped guards that still hold their permit.
\<close>

record responder =
  rq_slots :: responder_slots
  rq_claimed :: "peer_id multiset"
  rq_refused :: "peer_id multiset"
  rq_guards :: "peer_id multiset"
  rq_deferred :: "peer_id multiset"
  rq_releasing :: nat

definition responder_start :: responder where
  "responder_start = \<lparr>rq_slots = responder_new, rq_claimed = {#}, rq_refused = {#}, rq_guards = {#}, rq_deferred = {#},
     rq_releasing = 0\<rparr>"

inductive responder_step :: "responder \<Rightarrow> responder \<Rightarrow> bool" where
  claim: "claim_peer_slot p (rq_slots s) = (True, sl) \<Longrightarrow>
    responder_step s (s\<lparr>rq_slots := sl, rq_claimed := add_mset p (rq_claimed s)\<rparr>)"
| over_share: "claim_peer_slot p (rq_slots s) = (False, sl) \<Longrightarrow> responder_step s (s\<lparr>rq_slots := sl\<rparr>)"
| acquire: "p \<in># rq_claimed s \<Longrightarrow> try_acquire_permit (rq_slots s) = (True, sl) \<Longrightarrow>
    responder_step s (s\<lparr>rq_slots := sl, rq_claimed := rq_claimed s - {#p#}, rq_guards := add_mset p (rq_guards s)\<rparr>)"
| exhausted: "p \<in># rq_claimed s \<Longrightarrow> try_acquire_permit (rq_slots s) = (False, sl) \<Longrightarrow>
    responder_step s (s\<lparr>rq_slots := sl, rq_claimed := rq_claimed s - {#p#}, rq_refused := add_mset p (rq_refused s)\<rparr>)"
| give_back: "p \<in># rq_refused s \<Longrightarrow>
    responder_step s (s\<lparr>rq_slots := release_peer_slot p (rq_slots s), rq_refused := rq_refused s - {#p#}\<rparr>)"
| drop_inline: "p \<in># rq_guards s \<Longrightarrow>
    responder_step s (s\<lparr>rq_slots := release_peer_slot p (rq_slots s), rq_guards := rq_guards s - {#p#},
      rq_releasing := rq_releasing s + 1\<rparr>)"
| drop_deferred: "p \<in># rq_guards s \<Longrightarrow>
    responder_step s (s\<lparr>rq_guards := rq_guards s - {#p#}, rq_deferred := add_mset p (rq_deferred s),
      rq_releasing := rq_releasing s + 1\<rparr>)"
| run_deferred: "p \<in># rq_deferred s \<Longrightarrow>
    responder_step s (s\<lparr>rq_slots := release_peer_slot p (rq_slots s), rq_deferred := rq_deferred s - {#p#}\<rparr>)"
| permit_back: "rq_releasing s > 0 \<Longrightarrow>
    responder_step s (s\<lparr>rq_slots := release_permit (rq_slots s), rq_releasing := rq_releasing s - 1\<rparr>)"

section \<open>Accounting\<close>

abbreviation outstanding :: "responder \<Rightarrow> peer_id multiset" where
  "outstanding s \<equiv> rq_claimed s + rq_refused s + rq_guards s + rq_deferred s"

definition slot_entry :: "nat \<Rightarrow> nat option" where
  "slot_entry n = (if n = 0 then None else Some n)"

lemma slot_entry_simps [simp]:
  "slot_entry 0 = None" "slot_entry (Suc n) = Some (Suc n)" "unwrap_or (slot_entry n) 0 = n"
  by (simp_all add: slot_entry_def)

definition slots_count :: "responder_slots \<Rightarrow> peer_id multiset \<Rightarrow> bool" where
  "slots_count sl A \<longleftrightarrow> au_inflight sl = (\<lambda>p. slot_entry (count A p)) \<and> (\<forall>p. count A p \<le> 2)"

definition responder_inv :: "responder \<Rightarrow> bool" where
  "responder_inv s \<longleftrightarrow> slots_count (rq_slots s) (outstanding s) \<and>
     au_permits (rq_slots s) + size (rq_guards s) + rq_releasing s = 16"

lemma claim_counts:
  assumes "claim_peer_slot p sl = (r, sl')" "slots_count sl A"
  shows "slots_count sl' (if r then add_mset p A else A) \<and> au_permits sl' = au_permits sl \<and> (r \<longleftrightarrow> count A p < 2)"
proof (cases "count A p < 2")
  case True
  have "(\<lambda>q. slot_entry (count A q))(p \<mapsto> Suc (count A p)) = (\<lambda>q. slot_entry (count (add_mset p A) q))" by auto
  with True assms show ?thesis
    by (auto simp: claim_peer_slot_def slots_count_def MAX_AUDIT_RESPONSES_PER_PEER_def Let_def)
next
  case False
  then have "(\<lambda>q. slot_entry (count A q))(p \<mapsto> count A p) = (\<lambda>q. slot_entry (count A q))"
    by (auto simp: slot_entry_def)
  with False assms show ?thesis
    by (auto simp: claim_peer_slot_def slots_count_def MAX_AUDIT_RESPONSES_PER_PEER_def Let_def)
qed

lemma release_counts:
  assumes "slots_count sl (add_mset p A)"
  shows "slots_count (release_peer_slot p sl) A" "au_permits (release_peer_slot p sl) = au_permits sl"
proof -
  have p: "au_inflight sl p = Some (Suc (count A p))" using assms by (simp add: slots_count_def)
  have "(\<lambda>q. slot_entry (count (add_mset p A) q))(p := slot_entry (count A p)) = (\<lambda>q. slot_entry (count A q))" by auto
  then have "au_inflight (release_peer_slot p sl) = (\<lambda>q. slot_entry (count A q))"
    using assms p by (cases "count A p") (simp_all add: release_peer_slot_def slots_count_def)
  moreover have "count A q \<le> 2" for q
  proof -
    have "count A q \<le> count (add_mset p A) q" by simp
    also have "\<dots> \<le> 2" using assms by (simp add: slots_count_def)
    finally show ?thesis .
  qed
  ultimately show "slots_count (release_peer_slot p sl) A" by (simp add: slots_count_def)
  show "au_permits (release_peer_slot p sl) = au_permits sl" by (simp add: release_peer_slot_def p)
qed

lemma acquire_counts:
  "try_acquire_permit sl = (r, sl') \<Longrightarrow> au_inflight sl' = au_inflight sl \<and>
     (r \<longleftrightarrow> 0 < au_permits sl) \<and> au_permits sl' = au_permits sl - (if r then 1 else 0)"
  by (auto simp: try_acquire_permit_def split: if_splits)

lemma slots_count_cong: "au_inflight sl' = au_inflight sl \<Longrightarrow> slots_count sl' A = slots_count sl A"
  by (simp add: slots_count_def)

lemma responder_inv_step:
  assumes "responder_step s t" "responder_inv s"
  shows "responder_inv t"
  using assms
proof (induction rule: responder_step.induct)
  case (claim p s sl)
  with claim_counts [OF claim(1)] show ?case by (auto simp: responder_inv_def)
next
  case (over_share p s sl)
  with claim_counts [OF over_share(1)] show ?case by (auto simp: responder_inv_def)
next
  case (acquire p s sl)
  obtain C where C: "rq_claimed s = add_mset p C" using acquire(1) by (metis insert_DiffM)
  from acquire_counts [OF acquire(2)] acquire(3) show ?case
    by (auto simp: responder_inv_def C slots_count_cong [of sl "rq_slots s"])
next
  case (exhausted p s sl)
  obtain C where C: "rq_claimed s = add_mset p C" using exhausted(1) by (metis insert_DiffM)
  from acquire_counts [OF exhausted(2)] exhausted(3) show ?case
    by (auto simp: responder_inv_def C slots_count_cong [of sl "rq_slots s"])
next
  case (give_back p s)
  obtain C where C: "rq_refused s = add_mset p C" using give_back(1) by (metis insert_DiffM)
  with give_back(2) release_counts [of "rq_slots s" p] show ?case by (auto simp: responder_inv_def)
next
  case (drop_inline p s)
  obtain C where C: "rq_guards s = add_mset p C" using drop_inline(1) by (metis insert_DiffM)
  with drop_inline(2) release_counts [of "rq_slots s" p] show ?case by (auto simp: responder_inv_def)
next
  case (drop_deferred p s)
  obtain C where C: "rq_guards s = add_mset p C" using drop_deferred(1) by (metis insert_DiffM)
  with drop_deferred(2) show ?case by (auto simp: responder_inv_def)
next
  case (run_deferred p s)
  obtain C where C: "rq_deferred s = add_mset p C" using run_deferred(1) by (metis insert_DiffM)
  with run_deferred(2) release_counts [of "rq_slots s" p] show ?case by (auto simp: responder_inv_def)
next
  case (permit_back s)
  then show ?case by (auto simp: responder_inv_def release_permit_def slots_count_def)
qed

interpretation responders: invariant_system responder_step responder_start responder_inv
  by unfold_locales
    (simp add: responder_start_def responder_new_def responder_inv_def slots_count_def MAX_CONCURRENT_AUDIT_RESPONSES_def,
     rule responder_inv_step)

lemma size_le_twice_support: "(\<And>p. count A p \<le> 2) \<Longrightarrow> size A \<le> 2 * card (set_mset A)"
  using sum_bounded_above [of "set_mset A" "count A" 2] by (simp add: size_multiset_overloaded_eq mult.commute)



section \<open>A burst of prune challenges\<close>

definition MAX_CONCURRENT_PRUNE_AUDIT_CHALLENGES :: nat where "MAX_CONCURRENT_PRUNE_AUDIT_CHALLENGES = 32"

text \<open>The arrival of a challenge: the answer of the admitted task, which still holds its guard, or nothing.\<close>

definition on_audit_challenge ::
  "(bytes \<Rightarrow> hash32) \<Rightarrow> (xor_name \<Rightarrow> unit + bytes option) \<Rightarrow> peer_id \<Rightarrow> bool \<Rightarrow> nat \<Rightarrow> peer_id \<Rightarrow> key_audit_challenge \<Rightarrow>
     responder_slots \<Rightarrow> key_audit_response option \<times> responder_slots" where
  "on_audit_challenge b3 get_raw self_id bootstrapping stored source challenge sl =
     (case admit_audit_responder source sl of
        (True, sl1) \<Rightarrow> (Some (handle_audit_challenge b3 get_raw self_id bootstrapping stored challenge), sl1)
      | (False, sl1) \<Rightarrow> (None, sl1))"

text \<open>Challenges of one peer that all arrive before the first answer is done.\<close>

fun answer_burst ::
  "(key_audit_challenge \<Rightarrow> responder_slots \<Rightarrow> 'r option \<times> responder_slots) \<Rightarrow> key_audit_challenge list \<Rightarrow> responder_slots \<Rightarrow>
     'r option list" where
  "answer_burst answer [] sl = []"
| "answer_burst answer (challenge # challenges) sl =
     (case answer challenge sl of (r, sl1) \<Rightarrow> r # answer_burst answer challenges sl1)"

text \<open>The keys a prune pass asks of a peer at the same time: it keeps 32 challenges in flight.\<close>

definition burst_keys :: "record_prune_candidate list \<Rightarrow> peer_id \<Rightarrow> xor_name list" where
  "burst_keys candidates peer =
     map snd (filter (\<lambda>(p, _). p = peer)
       (take MAX_CONCURRENT_PRUNE_AUDIT_CHALLENGES (build_peer_audit_challenges candidates)))"

lemma admit_counts:
  assumes "au_inflight sl source = slot_entry c" "2 - c \<le> au_permits sl" "c \<le> 2"
  shows "\<exists>sl'. admit_audit_responder source sl = (c < 2, sl') \<and>
    au_inflight sl' source = slot_entry (min 2 (c + 1)) \<and> 2 - min 2 (c + 1) \<le> au_permits sl'"
proof (cases "c < 2")
  case True
  with assms show ?thesis
    by (auto simp: admit_audit_responder_def claim_peer_slot_def try_acquire_permit_def MAX_AUDIT_RESPONSES_PER_PEER_def Let_def)
next
  case False
  then have "c = 2" using assms(3) by simp
  with assms show ?thesis
    by (auto simp: admit_audit_responder_def claim_peer_slot_def MAX_AUDIT_RESPONSES_PER_PEER_def Let_def slot_entry_def)
qed

lemma answer_burst_nth:
  assumes "au_inflight sl source = slot_entry c" "2 - c \<le> au_permits sl" "c \<le> 2" "i < length chs"
  shows "answer_burst (on_audit_challenge b3 get_raw self_id bootstrapping stored source) chs sl ! i =
    (if c + i < 2 then Some (handle_audit_challenge b3 get_raw self_id bootstrapping stored (chs ! i)) else None)"
  using assms
proof (induction chs arbitrary: sl c i)
  case (Cons ch chs)
  obtain sl' where sl': "admit_audit_responder source sl = (c < 2, sl')"
    "au_inflight sl' source = slot_entry (min 2 (c + 1))" "2 - min 2 (c + 1) \<le> au_permits sl'"
    using admit_counts [OF Cons.prems(1-3)] by blast
  have oc: "on_audit_challenge b3 get_raw self_id bootstrapping stored source ch sl =
    (if c < 2 then Some (handle_audit_challenge b3 get_raw self_id bootstrapping stored ch) else None, sl')"
    using sl'(1) by (cases "c < 2") (simp_all add: on_audit_challenge_def)
  show ?case
  proof (cases i)
    case 0
    with oc show ?thesis by simp
  next
    case (Suc j)
    have "answer_burst (on_audit_challenge b3 get_raw self_id bootstrapping stored source) chs sl' ! j =
      (if min 2 (c + 1) + j < 2 then Some (handle_audit_challenge b3 get_raw self_id bootstrapping stored (chs ! j)) else None)"
      using Cons.prems(4) Suc by (intro Cons.IH sl'(2,3)) simp_all
    moreover have "min 2 (c + 1) + j < 2 \<longleftrightarrow> c + Suc j < 2" by auto
    ultimately show ?thesis unfolding Suc by (simp add: oc)
  qed
qed simp

lemma report_events:
  "set (pa_events pa) \<subseteq> set (pa_events (report_prune_audit_failure_once env p k pa))"
  "set (pa_events pa) \<subseteq> set (pa_events (report_prune_bootstrap_claim env p k pa))"
  "pa_events (clear_prune_bootstrap_claim p pa) = pa_events pa" "pa_events (add_present p k pa) = pa_events pa"
  by (auto simp: report_prune_audit_failure_once_def report_prune_bootstrap_claim_def clear_prune_bootstrap_claim_def
      add_present_def Let_def split: bootstrap_claim_observation.splits prod.splits)

lemma peer_proves_events:
  assumes "reports_once pa"
  shows "reports_once (peer_proves_record env x pa)" "set (pa_events pa) \<subseteq> set (pa_events (peer_proves_record env x pa))"
proof -
  note clear_events = report_events(1,2) [of "clear_prune_bootstrap_claim q pa" for q, unfolded report_events(3)]
  show "reports_once (peer_proves_record env x pa)"
    using assms by (cases x) (auto simp: peer_proves_record_def Let_def reports_once_ops
        split: option.splits wire.splits prune_audit_status.splits)
  show "set (pa_events pa) \<subseteq> set (pa_events (peer_proves_record env x pa))"
    using report_events(1,2) [of pa] clear_events
    by (cases x) (auto simp: peer_proves_record_def Let_def report_events(3,4)
        split: option.splits wire.splits prune_audit_status.splits)
qed

lemma unanswered_reported:
  assumes "(q, k) \<in> set xs" and "local_record_bytes env k = Some bs" "pe_send env q (prune_challenge env q k) = SendFailed"
    and "peer_is_currently_responsible env q k" and "reports_once pa"
  shows "AuditFailureEvent q \<in> set (pa_events (fold (peer_proves_record env) xs pa))"
proof -
  have mono: "set (pa_events pa) \<subseteq> set (pa_events (fold (peer_proves_record env) xs pa)) \<and>
      reports_once (fold (peer_proves_record env) xs pa)" if "reports_once pa" for xs pa
    using that
  proof (induction xs arbitrary: pa)
    case (Cons x xs)
    from Cons.IH [OF peer_proves_events(1) [OF Cons.prems, of env x]] peer_proves_events(2) [OF Cons.prems, of env x]
    show ?case by (auto dest!: subsetD)
  qed simp
  obtain ys zs where xs: "xs = ys @ (q, k) # zs" using assms(1) by (metis split_list)
  let ?pa = "fold (peer_proves_record env) ys pa"
  have once: "reports_once ?pa" using mono assms(5) by blast
  then have "AuditFailureEvent q \<in> set (pa_events (peer_proves_record env (q, k) ?pa))"
    using assms(2-4) by (auto simp: peer_proves_record_def report_prune_audit_failure_once_def reports_once_def)
  with mono [OF peer_proves_events(1) [OF once, of env "(q, k)"], of zs] show ?thesis by (auto simp: xs)
qed

text \<open>
  C34. The share of a peer is too small for a prune pass. A pass that asks one peer for three or more keys
  at the same time reports it for a failed audit, although the peer holds every record and the answer
  to each challenge alone would be accepted: the third challenge finds the two slots of the asker
  taken, is dropped without an answer, and the asker counts that as a failure.
\<close>

theorem prune_burst_convicts_holder:
  assumes "3 \<le> length (burst_keys cs q)"
    and "\<forall>i<length (burst_keys cs q). pe_send env q (prune_challenge env q (burst_keys cs q ! i)) =
      (case answer_burst (on_audit_challenge (pe_b3 env) rd q False stored (pe_self env))
          (map (prune_challenge env q) (burst_keys cs q)) responder_new ! i of
         Some r \<Rightarrow> Received (BodyKeyAuditResponse r) | None \<Rightarrow> SendFailed)"
    and "\<forall>k\<in>set (burst_keys cs q). peer_is_currently_responsible env q k \<and> (\<exists>bs. pe_get_raw env k = Inr (Some bs) \<and>
      rd k = Inr (Some bs) \<and> compute_audit_digest (pe_b3 env) (pe_nonce env q k) q k bs \<noteq> ABSENT_KEY_DIGEST)"
    and "\<forall>xs. set (pe_completion env xs) = set xs"
  shows "AuditFailureEvent q \<in> set (pa_events (collect_record_prune_proofs env cs sync)) \<and>
    (\<forall>k\<in>set (burst_keys cs q). \<exists>bs. pe_get_raw env k = Inr (Some bs) \<and>
       prune_audit_response_status (pe_b3 env)
         (BodyKeyAuditResponse (handle_audit_challenge (pe_b3 env) rd q False stored (prune_challenge env q k)))
         (pe_challenge_id env q k) q k (pe_nonce env q k) bs = Proven)"
proof
  let ?ks = "burst_keys cs q" and ?k = "burst_keys cs q ! 2"
  have k: "?k \<in> set ?ks" using assms(1) by (simp add: nth_mem)
  then have "(q, ?k) \<in> set (build_peer_audit_challenges cs)" by (auto simp: burst_keys_def dest: in_set_takeD)
  moreover obtain bs where "local_record_bytes env ?k = Some bs" using assms(3) k by (auto simp: local_record_bytes_Some)
  moreover have "answer_burst (on_audit_challenge (pe_b3 env) rd q False stored (pe_self env))
      (map (prune_challenge env q) ?ks) responder_new ! 2 = None"
    using assms(1) by (subst answer_burst_nth [where c = 0]) (simp_all add: responder_new_def MAX_CONCURRENT_AUDIT_RESPONSES_def)
  then have "pe_send env q (prune_challenge env q ?k) = SendFailed" using assms(1,2) by simp
  ultimately show "AuditFailureEvent q \<in> set (pa_events (collect_record_prune_proofs env cs sync))"
    unfolding collect_record_prune_proofs_def using assms(3,4) k
    by (intro unanswered_reported [of q ?k]) (simp_all add: reports_once_def)
  show "\<forall>k\<in>set ?ks. \<exists>bs. pe_get_raw env k = Inr (Some bs) \<and> prune_audit_response_status (pe_b3 env)
         (BodyKeyAuditResponse (handle_audit_challenge (pe_b3 env) rd q False stored (prune_challenge env q k)))
         (pe_challenge_id env q k) q k (pe_nonce env q k) bs = Proven"
    using assms(3) by (fastforce simp: status_Proven handle_audit_challenge_def prune_challenge_def max_incoming_audit_keys_def)
qed

definition burst_prune_env :: prune_env where
  "burst_prune_env = example_prune_env\<lparr>pe_send := \<lambda>p c. if kc_keys c = [3] then SendFailed
     else Received (BodyKeyAuditResponse (handle_audit_challenge (\<lambda>_. 1) (\<lambda>_. Inr (Some [7])) p False 1 c))\<rparr>"

definition burst_candidates :: "record_prune_candidate list" where
  "burst_candidates = map (\<lambda>k. \<lparr>rc_key = k, rc_target_peers = [2]\<rparr>) [1, 2, 3]"

theorem prune_burst_convicts_holder_witness:
  "AuditFailureEvent 2 \<in> set (pa_events (collect_record_prune_proofs burst_prune_env burst_candidates (new_cycle [])))"
proof -
  have ks: "burst_keys burst_candidates 2 = [1, 2, 3]"
    by (simp add: burst_keys_def burst_candidates_def build_peer_audit_challenges_def MAX_CONCURRENT_PRUNE_AUDIT_CHALLENGES_def)
  let ?burst = "answer_burst (on_audit_challenge (pe_b3 burst_prune_env) (\<lambda>_. Inr (Some [7])) 2 False 1 (pe_self burst_prune_env))
    (map (prune_challenge burst_prune_env 2) (burst_keys burst_candidates 2)) responder_new"
  have "\<forall>i<length (burst_keys burst_candidates 2). pe_send burst_prune_env 2 (prune_challenge burst_prune_env 2
      (burst_keys burst_candidates 2 ! i)) = (case ?burst ! i of Some r \<Rightarrow> Received (BodyKeyAuditResponse r) | None \<Rightarrow> SendFailed)"
  proof (intro allI impI)
    fix i assume i: "i < length (burst_keys burst_candidates 2)"
    then have "?burst ! i = (if i < 2 then Some (handle_audit_challenge (pe_b3 burst_prune_env) (\<lambda>_. Inr (Some [7])) 2 False 1
        (prune_challenge burst_prune_env 2 (burst_keys burst_candidates 2 ! i))) else None)"
      by (subst answer_burst_nth [where c = 0]) (simp_all add: responder_new_def MAX_CONCURRENT_AUDIT_RESPONSES_def)
    moreover have "i = 0 \<or> i = 1 \<or> i = 2" using i ks by auto
    ultimately show "pe_send burst_prune_env 2 (prune_challenge burst_prune_env 2 (burst_keys burst_candidates 2 ! i)) =
        (case ?burst ! i of Some r \<Rightarrow> Received (BodyKeyAuditResponse r) | None \<Rightarrow> SendFailed)"
      using ks by (auto simp: burst_prune_env_def example_prune_env_def prune_challenge_def)
  qed
  moreover have "\<forall>k\<in>set (burst_keys burst_candidates 2). peer_is_currently_responsible burst_prune_env 2 k \<and>
      (\<exists>bs. pe_get_raw burst_prune_env k = Inr (Some bs) \<and> (\<lambda>_. Inr (Some [7])) k = Inr (Some bs) \<and>
        compute_audit_digest (pe_b3 burst_prune_env) (pe_nonce burst_prune_env 2 k) 2 k bs \<noteq> ABSENT_KEY_DIGEST)"
    by (simp add: peer_is_currently_responsible_def burst_prune_env_def example_prune_env_def compute_audit_digest_def ABSENT_KEY_DIGEST_def)
  ultimately show ?thesis
    using prune_burst_convicts_holder [where rd = "\<lambda>_. Inr (Some [7])" and stored = 1 and env = burst_prune_env
        and cs = burst_candidates and q = 2 and sync = "new_cycle []"] ks
    by (simp add: burst_prune_env_def example_prune_env_def)
qed

end
