(* ===== verification/Sync_Round.thy ===== *)
theory Sync_Round
  imports Gossip_Audit Admission Paid_Pruning
begin

text \<open>
  The neighbour-sync round and the two ends of a sync exchange (src/src/replication/mod.rs): how the
  cycle state, the hint builders, the repair proofs, admission, commitment ingestion, bootstrap
  tracking and the prune pass work together. A round and a request run to their end before the next;
  what a peer answers is an argument, and each peer is handled at one reading of the clock.
\<close>

section \<open>State\<close>

record sync_engine =
  se_bootstrapping :: bool
  se_boot :: bootstrap_state
  se_sync :: neighbor_sync_state
  se_history :: "(peer_id \<times> peer_sync_record) list"
  se_epoch :: nat
  se_proofs :: repair_proofs
  se_queues :: replication_queues
  se_store :: "xor_name list"
  se_paid :: paid_list
  se_commitments :: inner
  se_ingest :: ingest_state
  se_cooldown :: stamps_by_peer
  se_audits :: "(peer_id \<times> audit_target) list"
  se_trust :: "audit_trust_event list"

text \<open>\<open>sv_answer p h c\<close> is the response and the piggybacked commitment of \<open>p\<close> to the hints \<open>h\<close> with the own
  commitment \<open>c\<close>, or nothing when the exchange fails. The prune environments hold what the pass sees.\<close>

record sync_env =
  sv_self :: peer_id
  sv_config :: replication_config
  sv_closest :: closest_fn
  sv_in_rt :: "peer_id \<Rightarrow> bool"
  sv_keys_ok :: bool
  sv_paid_ok :: bool
  sv_exists_ok :: "xor_name \<Rightarrow> bool"
  sv_contains_ok :: "xor_name \<Rightarrow> bool"
  sv_ingest :: "peer_id \<Rightarrow> ingest_env"
  sv_lottery :: "peer_id \<Rightarrow> bool"
  sv_now :: "peer_id \<Rightarrow> instant"
  sv_batch_now :: instant
  sv_prune :: prune_env
  sv_paid_prune :: paid_prune_env
  sv_neighbors :: "peer_id list"
  sv_answer :: "peer_id \<Rightarrow> peer_sync_hints \<Rightarrow> storage_commitment option \<Rightarrow>
    (neighbor_sync_response \<times> storage_commitment option) option"

record neighbor_sync_request =
  nq_replica_hints :: "xor_name list"
  nq_paid_hints :: "xor_name list"
  nq_bootstrapping :: bool
  nq_commitment :: "storage_commitment option"

section \<open>Shared steps\<close>

definition ingest_and_trigger :: "sync_env \<Rightarrow> peer_id \<Rightarrow> storage_commitment option \<Rightarrow> sync_engine \<Rightarrow> sync_engine" where
  "ingest_and_trigger env peer commitment s =
     (case ingest_peer_commitment (sv_ingest env peer) peer commitment (se_ingest s) of
        (None, ing) \<Rightarrow> s\<lparr>se_ingest := ing\<rparr>
      | (Some target, ing) \<Rightarrow>
          (case maybe_trigger_gossip_audit peer target (sv_now env peer) (sv_lottery env peer) (se_cooldown s) of
             (launched, m) \<Rightarrow> s\<lparr>se_ingest := ing, se_cooldown := m,
               se_audits := se_audits s @ (case launched of None \<Rightarrow> [] | Some a \<Rightarrow> [a])\<rparr>))"

definition record_sent_replica_hints ::
  "peer_id \<Rightarrow> sent_replica_hint list \<Rightarrow> nat \<Rightarrow> instant \<Rightarrow> repair_proofs \<Rightarrow> repair_proofs" where
  "record_sent_replica_hints peer hints epoch now proofs =
     fold (\<lambda>hint rp. snd (record_replica_hint_sent peer (rh_key hint) (rh_close_peers hint) epoch now rp)) hints proofs"

definition note_sync :: "peer_id \<Rightarrow> instant \<Rightarrow> (peer_id \<times> peer_sync_record) list \<Rightarrow> (peer_id \<times> peer_sync_record) list" where
  "note_sync peer now history = AList.update peer \<lparr>psr_last_sync = Some now, psr_cycles_since_sync = 0\<rparr> history"

definition admit_from :: "sync_env \<Rightarrow> peer_id \<Rightarrow> xor_name list \<Rightarrow> xor_name list \<Rightarrow> bool \<Rightarrow> sync_engine \<Rightarrow> sync_engine" where
  "admit_from env peer replica_hints paid_hints bootstrapping s =
     (case admit_and_queue_hints (sv_closest env) (sv_config env) (sv_self env)
         (\<lambda>k. if sv_exists_ok env k then Some (k \<in> set (se_store s)) else None)
         (\<lambda>k. pl_contains (sv_contains_ok env k) k (se_paid s))
         (sv_now env peer) peer replica_hints paid_hints (se_queues s) of
        (outcome, q) \<Rightarrow> s\<lparr>se_queues := q,
          se_boot := (if bootstrapping then track_admission peer outcome (se_boot s) else se_boot s)\<rparr>)"

definition stored_keys :: "sync_env \<Rightarrow> sync_engine \<Rightarrow> xor_name list option" where
  "stored_keys env s = (if sv_keys_ok env then Some (se_store s) else None)"

section \<open>An inbound request\<close>

definition handle_neighbor_sync_request ::
  "sync_env \<Rightarrow> peer_id \<Rightarrow> neighbor_sync_request \<Rightarrow> bool \<Rightarrow> bool \<Rightarrow> sync_engine \<Rightarrow> neighbor_sync_response \<times> sync_engine" where
  "handle_neighbor_sync_request env source request is_bootstrapping response_sent s =
     (let (response, sent_replica_hints, sender_in_rt) = handle_sync_request_with_proofs (sv_closest env) (sv_in_rt env)
            (stored_keys env s) (pl_all_keys (sv_paid_ok env) (se_paid s)) (sv_config env) is_bootstrapping source
      in (response,
          if \<not> sender_in_rt then s
          else
            let s1 = s\<lparr>se_history := note_sync source (sv_now env source) (se_history s)\<rparr>;
                s2 = (if response_sent \<and> \<not> nq_bootstrapping request
                  then s1\<lparr>se_proofs := record_sent_replica_hints source sent_replica_hints (se_epoch s1) (sv_now env source)
                    (se_proofs s1)\<rparr>
                  else s1)
            in admit_from env source (nq_replica_hints request) (nq_paid_hints request) is_bootstrapping s2))"

text \<open>The dispatch of the message, with the ingestion before and the commitment that goes out.\<close>

definition on_neighbor_sync_request ::
  "sync_env \<Rightarrow> peer_id \<Rightarrow> neighbor_sync_request \<Rightarrow> bool \<Rightarrow> sync_engine \<Rightarrow>
     (neighbor_sync_response \<times> storage_commitment option) \<times> sync_engine" where
  "on_neighbor_sync_request env source request response_sent s =
     (let bootstrapping = se_bootstrapping s;
          s1 = ingest_and_trigger env source (nq_commitment request) s;
          (current, commitments) = current_for_gossip (sv_now env source) (se_commitments s1);
          (response, s2) = handle_neighbor_sync_request env source request bootstrapping response_sent
            (s1\<lparr>se_commitments := commitments\<rparr>)
      in ((response, map_option bc_commitment current), s2))"

section \<open>A response\<close>

definition handle_sync_response ::
  "sync_env \<Rightarrow> peer_id \<Rightarrow> neighbor_sync_response \<Rightarrow> storage_commitment option \<Rightarrow> sent_replica_hint list \<Rightarrow> bool \<Rightarrow>
     sync_engine \<Rightarrow> sync_engine" where
  "handle_sync_response env peer resp commitment sent_replica_hints bootstrapping s =
     (let now = sv_now env peer;
          s1 = ingest_and_trigger env peer commitment s;
          s2 = s1\<lparr>se_sync := record_successful_sync peer now (se_sync s1),
                  se_history := note_sync peer now (se_history s1)\<rparr>
      in if nr_bootstrapping resp
         then
           let (observation, sync) = observe_bootstrap_claim peer now (bootstrap_claim_grace_period (sv_config env)) (se_sync s2);
               s3 = s2\<lparr>se_sync := sync\<rparr>
           in (case observation of
                 WithinGrace _ \<Rightarrow> s3
               | PastGrace _ \<Rightarrow> s3\<lparr>se_trust := se_trust s3 @ [ReplicationPenalty peer]\<rparr>
               | Repeated _ \<Rightarrow> s3\<lparr>se_trust := se_trust s3 @ [ReplicationPenalty peer]\<rparr>)
         else
           let s3 = s2\<lparr>se_sync := snd (clear_active_bootstrap_claim peer (se_sync s2)),
                 se_proofs := record_sent_replica_hints peer sent_replica_hints (se_epoch s2) now (se_proofs s2)\<rparr>
           in admit_from env peer (nr_replica_hints resp) (nr_paid_hints resp) bootstrapping s3)"

section \<open>The round\<close>

definition no_hints :: peer_sync_hints where "no_hints = \<lparr>sh_replica_hints = [], sh_paid_hints = []\<rparr>"

definition hints_for :: "sync_env \<Rightarrow> sync_engine \<Rightarrow> peer_id list \<Rightarrow> (peer_id \<rightharpoonup> peer_sync_hints)" where
  "hints_for env s peers = build_sync_hints_for_peers (sv_closest env) (stored_keys env s)
     (pl_all_keys (sv_paid_ok env) (se_paid s)) peers (close_group_size (sv_config env))
     (paid_list_close_group_size (sv_config env))"

definition sync_with_peer_with_hints ::
  "sync_env \<Rightarrow> peer_id \<Rightarrow> peer_sync_hints \<Rightarrow> storage_commitment option \<Rightarrow>
     (neighbor_sync_response \<times> storage_commitment option \<times> sent_replica_hint list) option" where
  "sync_with_peer_with_hints env peer hints commitment =
     map_option (\<lambda>(resp, c). (resp, c, sh_replica_hints hints)) (sv_answer env peer hints commitment)"

definition sync_peer ::
  "sync_env \<Rightarrow> bool \<Rightarrow> storage_commitment option \<Rightarrow> peer_id \<Rightarrow> (peer_id \<rightharpoonup> peer_sync_hints) \<times> sync_engine \<Rightarrow>
     (peer_id \<rightharpoonup> peer_sync_hints) \<times> sync_engine" where
  "sync_peer env bootstrapping my_commitment peer = (\<lambda>(hints_by_peer, s).
     (hints_by_peer(peer := None),
      case sync_with_peer_with_hints env peer (unwrap_or (hints_by_peer peer) no_hints) my_commitment of
        Some (resp, c, sent) \<Rightarrow> handle_sync_response env peer resp c sent bootstrapping s
      | None \<Rightarrow>
          (case handle_sync_failure peer (sv_now env peer) (neighbor_sync_cooldown (sv_config env)) (se_sync s) of
             (None, sync) \<Rightarrow> s\<lparr>se_sync := sync\<rparr>
           | (Some replacement, sync) \<Rightarrow>
               let s1 = s\<lparr>se_sync := sync\<rparr>
               in (case sync_with_peer_with_hints env replacement
                     (unwrap_or (hints_for env s1 [replacement] replacement) no_hints) my_commitment of
                     Some (resp, c, sent) \<Rightarrow> handle_sync_response env replacement resp c sent bootstrapping s1
                   | None \<Rightarrow> s1))))"

definition prune_trust :: "trust_event \<Rightarrow> audit_trust_event" where
  "prune_trust ev = (case ev of AuditFailureEvent p \<Rightarrow> AuditPenalty p | ReplicationFailureEvent p \<Rightarrow> ReplicationPenalty p)"

text \<open>The end of a cycle: the epoch moves on, the prune pass runs, a new cycle starts.\<close>

definition finish_cycle :: "sync_env \<Rightarrow> bool \<Rightarrow> sync_engine \<Rightarrow> sync_engine" where
  "finish_cycle env bootstrapping s =
     (let s1 = s\<lparr>se_history := map (\<lambda>(p, r). (p, r\<lparr>psr_cycles_since_sync := min (psr_cycles_since_sync r + 1) u32_max\<rparr>)) (se_history s),
                 se_epoch := sat_add64 (se_epoch s) 1\<rparr>;
          allow = (\<not> bootstrapping \<and> is_drained (se_boot s1));
          (_, events, st) = run_prune_pass_with_context
            ((sv_prune env)\<lparr>pe_self := sv_self env, pe_config := sv_config env, pe_allow_remote_prune_audits := allow,
               pe_current_sync_epoch := se_epoch s1, pe_commitment := Some (se_commitments s1)\<rparr>)
            ((sv_paid_prune env)\<lparr>pp_self := sv_self env, pp_config := sv_config env, pp_allow := allow\<rparr>)
            \<lparr>pr_store = se_store s1, pr_paid_list = se_paid s1, pr_sync = se_sync s1, pr_proofs = se_proofs s1\<rparr>
      in s1\<lparr>se_store := pr_store st, se_paid := pr_paid_list st, se_proofs := pr_proofs st,
            se_sync := start_new_cycle (sv_neighbors env) (pr_sync st), se_trust := se_trust s1 @ map prune_trust events\<rparr>)"

definition run_neighbor_sync_round :: "sync_env \<Rightarrow> sync_engine \<Rightarrow> sync_engine" where
  "run_neighbor_sync_round env s =
     (let bootstrapping = se_bootstrapping s;
          s1 = (if is_cycle_complete (se_sync s) then finish_cycle env bootstrapping s else s);
          (batch, sync) = select_sync_batch (neighbor_sync_peer_count (sv_config env)) (sv_batch_now env)
            (neighbor_sync_cooldown (sv_config env)) (se_sync s1);
          s2 = s1\<lparr>se_sync := sync\<rparr>
      in if batch = [] then s2
         else
           let (current, commitments) = current_for_gossip (sv_batch_now env) (se_commitments s2);
               s3 = s2\<lparr>se_commitments := commitments\<rparr>
           in snd (fold (sync_peer env bootstrapping (map_option bc_commitment current)) batch (hints_for env s3 batch, s3)))"

section \<open>Settling an audit of single chunks\<close>

definition audit_failure_clears_bootstrap_claim :: "audit_failure_reason \<Rightarrow> bool" where
  "audit_failure_clears_bootstrap_claim reason \<longleftrightarrow> reason \<noteq> FailTimeout"

definition handle_audit_result :: "replication_config \<Rightarrow> instant \<Rightarrow> audit_tick_result \<Rightarrow> sync_engine \<Rightarrow> sync_engine" where
  "handle_audit_result config now result s =
     (case result of
        TickPassed challenged_peer _ \<Rightarrow>
          s\<lparr>se_sync := snd (clear_active_bootstrap_claim challenged_peer (se_sync s)),
            se_trust := se_trust s @ [AuditSuccess challenged_peer]\<rparr>
      | TickFailed evidence \<Rightarrow>
          (case evidence of
             AuditFailure _ challenged_peer _ _ reason \<Rightarrow>
               s\<lparr>se_sync := (if audit_failure_clears_bootstrap_claim reason
                    then snd (clear_active_bootstrap_claim challenged_peer (se_sync s)) else se_sync s),
                 se_trust := se_trust s @ [AuditPenalty challenged_peer]\<rparr>
           | _ \<Rightarrow> s)
      | TickBootstrapClaim peer \<Rightarrow>
          (let (observation, sync) = observe_bootstrap_claim peer now (bootstrap_claim_grace_period config) (se_sync s);
               s1 = s\<lparr>se_sync := sync\<rparr>
           in case observation of
                WithinGrace _ \<Rightarrow> s1
              | PastGrace _ \<Rightarrow> s1\<lparr>se_trust := se_trust s1 @ [ReplicationPenalty peer]\<rparr>
              | Repeated _ \<Rightarrow> s1\<lparr>se_trust := se_trust s1 @ [ReplicationPenalty peer]\<rparr>)
      | TickIdle \<Rightarrow> s
      | TickInsufficientKeys \<Rightarrow> s)"


section \<open>What the prune pass leaves\<close>

definition proofs_from :: "(xor_name \<Rightarrow> peer_id \<Rightarrow> repair_proof \<Rightarrow> bool) \<Rightarrow> repair_proofs \<Rightarrow> repair_proofs \<Rightarrow> bool" where
  "proofs_from D rp rp' \<longleftrightarrow> proofs_inv rp' \<and>
     (\<forall>k p pr. proof_of rp' k p = Some pr \<longrightarrow> proof_of rp k p = Some pr \<or> D k p pr)"

lemma proofs_from_refl: "proofs_inv rp \<Longrightarrow> proofs_from D rp rp"
  by (simp add: proofs_from_def)

lemma proofs_from_trans: "proofs_from D rp rp1 \<Longrightarrow> proofs_from D rp1 rp2 \<Longrightarrow> proofs_from D rp rp2"
  unfolding proofs_from_def by blast

lemma scan_proofs:
  assumes "proofs_inv (sn_proofs sn)"
  shows "proofs_from D (sn_proofs sn) (sn_proofs (fold (scan_record env) xs sn))"
  using assms
proof (induction xs arbitrary: sn)
  case (Cons x xs)
  obtain off key where x: "x = (off, key)" by (cases x)
  obtain marked state budget pl rp where
    ev: "evaluate_record_prune_key env key (sn_budget sn) (sn_pl sn) (sn_proofs sn) = (marked, state, budget, pl, rp)"
    by (metis prod_cases5)
  have "sn_proofs (scan_record env x sn) = rp" by (cases state) (simp_all add: scan_record_def x ev Let_def)
  with evaluate_cases [OF ev Cons.prems] have step: "proofs_from D (sn_proofs sn) (sn_proofs (scan_record env x sn))"
    by (simp add: proofs_from_def)
  then have "proofs_inv (sn_proofs (scan_record env x sn))" by (simp add: proofs_from_def)
  from Cons.IH [OF this] step show ?case by (auto intro: proofs_from_trans)
qed (simp add: proofs_from_refl)

lemma delete_records_keep:
  assumes "proofs_inv (pr_proofs st)"
  shows "proofs_from D (pr_proofs st) (pr_proofs (snd (fold (delete_record env) ks (n, st)))) \<and>
    set (pr_store (snd (fold (delete_record env) ks (n, st)))) \<subseteq> set (pr_store st) \<and>
    pr_sync (snd (fold (delete_record env) ks (n, st))) = pr_sync st"
  using assms
proof (induction ks arbitrary: n st)
  case (Cons k ks)
  obtain n' st1 where d: "delete_record env k (n, st) = (n', st1)" by fastforce
  have st1: "proofs_from D (pr_proofs st) (pr_proofs st1)" "set (pr_store st1) \<subseteq> set (pr_store st)" "pr_sync st1 = pr_sync st"
    using d Cons.prems by (auto simp: delete_record_def proofs_from_def proof_of_remove_key proofs_remove_key_def [symmetric]
        intro: proofs_inv_delete [folded proofs_remove_key_def] split: if_splits)
  then have "proofs_inv (pr_proofs st1)" by (simp add: proofs_from_def)
  from Cons.IH [OF this, of n'] st1 d show ?case by (auto intro: proofs_from_trans)
qed (simp add: proofs_from_refl)

lemma peer_proves_cycle:
  "cycle_inv (pa_sync pa) \<Longrightarrow> cycle_inv (pa_sync (peer_proves_record env x pa))"
proof -
  assume inv: "cycle_inv (pa_sync pa)"
  have clear: "cycle_inv (pa_sync (clear_prune_bootstrap_claim p pa))" for p
    using cycle_inv_step [OF inv sync_step.clear] by (simp add: clear_prune_bootstrap_claim_def)
  have obs: "cycle_inv (pa_sync (report_prune_bootstrap_claim env p k pa'))" if "cycle_inv (pa_sync pa')" for p k pa'
    using that cycle_inv_step [OF that sync_step.observe [of _ p "pe_claim_now env p k" "bootstrap_claim_grace_period (pe_config env)"]]
    by (auto simp: report_prune_bootstrap_claim_def Let_def split: prod.splits bootstrap_claim_observation.splits)
  have rep: "pa_sync (report_prune_audit_failure_once env p k pa') = pa_sync pa'" for p k pa'
    by (simp add: report_prune_audit_failure_once_def)
  have add: "pa_sync (add_present p k pa') = pa_sync pa'" for p k pa' by (simp add: add_present_def)
  show ?thesis
    using inv clear obs rep add by (cases x) (auto simp: peer_proves_record_def Let_def split: option.splits wire.splits prune_audit_status.splits)
qed

lemma prune_keeps:
  assumes "run_prune_pass_with_context env penv st = (r, events, st')" "proofs_inv (pr_proofs st)" "cycle_inv (pr_sync st)"
  shows "proofs_from D (pr_proofs st) (pr_proofs st')" "set (pr_store st') \<subseteq> set (pr_store st)" "cycle_inv (pr_sync st')"
proof -
  obtain rs ev st1 where p: "prune_stored_records env st = (rs, ev, st1)" by (metis prod_cases3)
  have st': "pr_proofs st' = pr_proofs st1" "pr_store st' = pr_store st1" "pr_sync st' = pr_sync st1"
    using assms(1) p by (auto simp: run_prune_pass_with_context_def Let_def split: prod.splits)
  have "proofs_from D (pr_proofs st) (pr_proofs st1) \<and> set (pr_store st1) \<subseteq> set (pr_store st) \<and> cycle_inv (pr_sync st1)"
  proof (cases "pe_read_ok env")
    case False
    with p assms(2,3) show ?thesis by (auto simp: prune_stored_records_def proofs_from_refl)
  next
    case True
    let ?sn = "scan_records env st" and ?n = "length (pr_store st)"
    let ?sync1 = "advance_prune_cursor ?n (prune_scan_start ?n (pr_sync st)) (sn_last ?sn) (pr_sync st)"
    let ?pa = "collect_record_prune_proofs env (sn_candidates ?sn) ?sync1"
    obtain ks c pl where rv: "revalidated_record_prune_keys env (sn_candidates ?sn) (pa_present ?pa) (sn_pl ?sn) = (ks, c, pl)"
      by (metis prod_cases3)
    let ?st = "st\<lparr>pr_paid_list := pl, pr_sync := pa_sync ?pa, pr_proofs := sn_proofs ?sn\<rparr>"
    have st1: "st1 = snd (fold (delete_record env) ks (0, ?st))"
      using p True rv by (auto simp: prune_stored_records_def Let_def delete_stored_records_def split: prod.splits)
    have scan: "proofs_from D (pr_proofs st) (sn_proofs ?sn)"
      unfolding scan_records_def using assms(2) by (rule scan_proofs [where sn = "\<lparr>sn_marked = 0, sn_cleared = 0, sn_held = 0,
        sn_candidates = [], sn_budget = MAX_PRUNE_AUDIT_CHALLENGES_PER_PASS, sn_last = None, sn_pl = pr_paid_list st,
        sn_proofs = pr_proofs st\<rparr>", simplified])
    have "cycle_inv (pa_sync (fold (peer_proves_record env) xs pa))" if "cycle_inv (pa_sync pa)" for xs pa
      using that by (induction xs arbitrary: pa) (simp_all add: peer_proves_cycle)
    then have "cycle_inv (pa_sync ?pa)" using assms(3)
      by (simp add: collect_record_prune_proofs_def advance_prune_cursor_def cycle_inv_def sync_inv_def claims_inv_def)
    moreover have "proofs_inv (pr_proofs ?st)" using scan by (simp add: proofs_from_def)
    ultimately show ?thesis
      using delete_records_keep [of ?st D env ks 0] scan by (auto simp: st1 intro: proofs_from_trans)
  qed
  then show "proofs_from D (pr_proofs st) (pr_proofs st')" "set (pr_store st') \<subseteq> set (pr_store st)" "cycle_inv (pr_sync st')"
    by (simp_all add: st')
qed

section \<open>What an exchange leaves\<close>

definition engine_from :: "(xor_name \<Rightarrow> peer_id \<Rightarrow> repair_proof \<Rightarrow> bool) \<Rightarrow> sync_engine \<Rightarrow> sync_engine \<Rightarrow> bool" where
  "engine_from D s s' \<longleftrightarrow> queues_inv (se_queues s') \<and> cycle_inv (se_sync s') \<and> proofs_from D (se_proofs s) (se_proofs s') \<and>
     se_store s' = se_store s \<and> se_epoch s' = se_epoch s"

definition sync_engine_inv :: "sync_engine \<Rightarrow> bool" where
  "sync_engine_inv s \<longleftrightarrow> queues_inv (se_queues s) \<and> cycle_inv (se_sync s) \<and> proofs_inv (se_proofs s)"

lemma sync_engine_from_inv: "engine_from D s s' \<Longrightarrow> sync_engine_inv s'"
  by (simp add: engine_from_def sync_engine_inv_def proofs_from_def)

lemma engine_from_trans: "engine_from D s s1 \<Longrightarrow> engine_from D s1 s2 \<Longrightarrow> engine_from D s s2"
  by (auto simp: engine_from_def intro: proofs_from_trans)

text \<open>Hints about stored keys to peers of their close groups.\<close>

definition hints_ok :: "sync_env \<Rightarrow> sync_engine \<Rightarrow> sent_replica_hint list \<Rightarrow> bool" where
  "hints_ok env s hints \<longleftrightarrow> (\<forall>h\<in>set hints. rh_key h \<in> set (se_store s) \<and>
     rh_close_peers h = set (sv_closest env (rh_key h) (close_group_size (sv_config env))))"

lemma replica_hint_loop_ok:
  "h \<in> set (replica_hint_loop fcs n p ks) \<Longrightarrow> rh_key h \<in> set ks \<and> rh_close_peers h = set (fcs (rh_key h) n)"
  by (induction ks) (auto simp: Let_def split: if_splits)

lemma fold_push_paid_replica:
  "map_option sh_replica_hints ((fold (\<lambda>key. push_paid_hints targets key (fcs key n)) ks hints) p) =
     map_option sh_replica_hints (hints p)"
proof (induction ks arbitrary: hints)
  case (Cons k ks)
  have "map_option sh_replica_hints ((push_paid_hints targets k (fcs k n) hints) p) = map_option sh_replica_hints (hints p)"
    by (simp add: push_paid_hints_eq option.map_comp comp_def)
  with Cons show ?case by simp
qed simp

lemma hints_for_ok:
  assumes "hints_for env s peers p = Some h"
  shows "hints_ok env s (sh_replica_hints h)"
proof -
  let ?init = "\<lambda>peer. if peer \<in> set peers then Some \<lparr>sh_replica_hints = [], sh_paid_hints = []\<rparr> else None"
  let ?ks = "unwrap_or (stored_keys env s) []" and ?n = "close_group_size (sv_config env)"
  show ?thesis
  proof (cases "peers = []")
    case False
    then have "map_option sh_replica_hints (hints_for env s peers p) =
        map_option sh_replica_hints (fold (push_replica_hint (sv_closest env) ?n (set peers)) ?ks ?init p)"
      unfolding hints_for_def build_sync_hints_for_peers_def Let_def by (simp only: if_False fold_push_paid_replica)
    then have "map_option sh_replica_hints (hints_for env s peers p) =
        (if p \<in> set peers then Some (replica_hint_loop (sv_closest env) ?n p ?ks) else None)"
      by (simp only: fold_push_replica) simp
    with assms show ?thesis
      by (auto simp: hints_ok_def stored_keys_def dest!: replica_hint_loop_ok split: if_splits)
  qed (use assms in \<open>simp add: hints_for_def build_sync_hints_for_peers_def\<close>)
qed

lemma record_hints_from:
  assumes "proofs_inv rp"
    and "\<And>h. h \<in> set hints \<Longrightarrow> peer \<in> rh_close_peers h \<Longrightarrow> D (rh_key h) peer \<lparr>hinted_at_epoch = e, hinted_at = t\<rparr>"
  shows "proofs_from D rp (record_sent_replica_hints peer hints e t rp)"
  using assms
proof (induction hints arbitrary: rp)
  case (Cons h hints)
  let ?rp = "snd (record_replica_hint_sent peer (rh_key h) (rh_close_peers h) e t rp)"
  have step: "proofs_from D rp ?rp"
    using Cons.prems by (auto simp: proofs_from_def record_replica_hint_sent_def insert_hint_inv proof_of_insert split: if_splits)
  then have "proofs_from D ?rp (record_sent_replica_hints peer hints e t ?rp)"
    using Cons.prems(2) by (intro Cons.IH) (auto simp: proofs_from_def)
  with step show ?case by (auto simp: record_sent_replica_hints_def intro: proofs_from_trans)
qed (simp add: record_sent_replica_hints_def proofs_from_refl)

lemma ingest_fields [simp]:
  "se_queues (ingest_and_trigger env p c s) = se_queues s" "se_sync (ingest_and_trigger env p c s) = se_sync s"
  "se_proofs (ingest_and_trigger env p c s) = se_proofs s" "se_store (ingest_and_trigger env p c s) = se_store s"
  "se_epoch (ingest_and_trigger env p c s) = se_epoch s" "se_paid (ingest_and_trigger env p c s) = se_paid s"
  by (simp_all add: ingest_and_trigger_def split: prod.splits option.splits)

lemma admit_from_keeps:
  assumes "queues_inv (se_queues s)"
  shows "queues_inv (se_queues (admit_from env p rh ph b s))" "se_sync (admit_from env p rh ph b s) = se_sync s"
    "se_proofs (admit_from env p rh ph b s) = se_proofs s" "se_store (admit_from env p rh ph b s) = se_store s"
    "se_epoch (admit_from env p rh ph b s) = se_epoch s"
proof -
  have "queues_inv (snd (admit_and_queue_hints fcs config self_id stored paid now source rh ph (se_queues s)))"
    for fcs config self_id stored paid now source
  proof -
    let ?w = "queue_work stored (admit_hints fcs config self_id stored paid rh ph (set (pending_keys (se_queues s))))"
    have "queued_ok now source (se_queues s) ?w (queue_all now source ?w (se_queues s))"
      using assms distinct_queue_work by (rule queue_all_ok)
    then show ?thesis by (simp add: admit_and_queue_hints_eq queued_ok_def split: prod.splits)
  qed
  then show "queues_inv (se_queues (admit_from env p rh ph b s))" by (simp add: admit_from_def split_beta)
qed (simp_all add: admit_from_def split_beta)

text \<open>A hint that reached a peer in an exchange in which it did not claim to bootstrap.\<close>

definition hint_delivered :: "sync_env \<Rightarrow> nat \<Rightarrow> xor_name set \<Rightarrow> xor_name \<Rightarrow> peer_id \<Rightarrow> repair_proof \<Rightarrow> bool" where
  "hint_delivered env epoch stored k p pr \<longleftrightarrow> pr = \<lparr>hinted_at_epoch = epoch, hinted_at = sv_now env p\<rparr> \<and> k \<in> stored \<and>
     p \<in> set (sv_closest env k (close_group_size (sv_config env))) \<and>
     (\<exists>hints c resp c'. sv_answer env p hints c = Some (resp, c') \<and> \<not> nr_bootstrapping resp \<and>
        k \<in> rh_key ` set (sh_replica_hints hints))"

lemma sync_response_keeps:
  assumes "sync_engine_inv s" "hints_ok env s (sh_replica_hints hints)" "sv_answer env peer hints my = Some (resp, c)"
  shows "engine_from (hint_delivered env (se_epoch s) (set (se_store s))) s
    (handle_sync_response env peer resp c (sh_replica_hints hints) b s)"
proof -
  let ?D = "hint_delivered env (se_epoch s) (set (se_store s))"
  let ?sync = "record_successful_sync peer (sv_now env peer) (se_sync s)"
  have inv: "queues_inv (se_queues s)" "cycle_inv ?sync" "proofs_inv (se_proofs s)"
    using assms(1) cycle_inv_step [OF _ sync_step.synced] by (auto simp: sync_engine_inv_def)
  have obs: "cycle_inv (snd (observe_bootstrap_claim peer now g ?sync))" "cycle_inv (snd (clear_active_bootstrap_claim peer ?sync))" for now g
    using cycle_inv_step [OF inv(2)] sync_step.observe sync_step.clear by blast+
  show ?thesis
  proof (cases "nr_bootstrapping resp")
    case True
    obtain o' sync where o: "observe_bootstrap_claim peer (sv_now env peer) (bootstrap_claim_grace_period (sv_config env)) ?sync = (o', sync)"
      by fastforce
    have "cycle_inv sync" using obs(1) [of "sv_now env peer" "bootstrap_claim_grace_period (sv_config env)"] o by simp
    with True inv o show ?thesis
      by (cases o') (simp_all add: handle_sync_response_def engine_from_def Let_def proofs_from_refl)
  next
    case False
    have "proofs_from ?D (se_proofs s)
        (record_sent_replica_hints peer (sh_replica_hints hints) (se_epoch s) (sv_now env peer) (se_proofs s))"
      using assms(2,3) False by (intro record_hints_from inv(3)) (auto simp: hint_delivered_def hints_ok_def)
    with False inv obs(2) show ?thesis
      by (simp add: handle_sync_response_def engine_from_def Let_def admit_from_keeps)
  qed
qed

lemma sync_step_keeps: "sync_engine_inv s \<Longrightarrow> sync_step (se_sync s) sync \<Longrightarrow> engine_from D s (s\<lparr>se_sync := sync\<rparr>)"
  using cycle_inv_step by (auto simp: sync_engine_inv_def engine_from_def proofs_from_refl)

lemma exchange_keeps:
  assumes "sync_engine_inv s" "\<And>h. ho = Some h \<Longrightarrow> hints_ok env s (sh_replica_hints h)"
    and "sync_with_peer_with_hints env peer (unwrap_or ho no_hints) my = Some (resp, c, sent)"
  shows "engine_from (hint_delivered env (se_epoch s) (set (se_store s))) s (handle_sync_response env peer resp c sent b s)"
proof -
  have "hints_ok env s (sh_replica_hints (unwrap_or ho no_hints))"
    using assms(2) by (cases ho) (auto simp: no_hints_def hints_ok_def)
  moreover from assms(3) have "sv_answer env peer (unwrap_or ho no_hints) my = Some (resp, c)"
    "sent = sh_replica_hints (unwrap_or ho no_hints)" by (auto simp: sync_with_peer_with_hints_def)
  ultimately show ?thesis using sync_response_keeps [OF assms(1)] by blast
qed

lemma sync_peer_keeps:
  assumes "sync_engine_inv s" "\<forall>p h. hb p = Some h \<longrightarrow> hints_ok env s (sh_replica_hints h)"
    and "sync_peer env b my peer (hb, s) = (hb', s')"
  shows "engine_from (hint_delivered env (se_epoch s) (set (se_store s))) s s'" "hb' = hb(peer := None)"
proof -
  let ?D = "hint_delivered env (se_epoch s) (set (se_store s))"
  let ?x = "sync_with_peer_with_hints env peer (unwrap_or (hb peer) no_hints) my"
  show "hb' = hb(peer := None)" using assms(3) by (simp add: sync_peer_def)
  show "engine_from ?D s s'"
  proof (cases ?x)
    case (Some r)
    then obtain resp c sent where r: "?x = Some (resp, c, sent)" by (cases r) auto
    with assms(3) have "s' = handle_sync_response env peer resp c sent b s" by (simp add: sync_peer_def)
    with exchange_keeps [OF assms(1) _ r] assms(2) show ?thesis by simp
  next
    case None
    obtain repl sync where f: "handle_sync_failure peer (sv_now env peer) (neighbor_sync_cooldown (sv_config env)) (se_sync s) = (repl, sync)"
      by fastforce
    let ?s1 = "s\<lparr>se_sync := sync\<rparr>"
    have s1: "engine_from ?D s ?s1"
      using sync_step_keeps [OF assms(1) sync_step.failure] f by (metis snd_conv)
    show ?thesis
    proof (cases "\<exists>q r. repl = Some q \<and>
        sync_with_peer_with_hints env q (unwrap_or (hints_for env ?s1 [q] q) no_hints) my = Some r")
      case True
      then obtain q resp c sent where q: "repl = Some q"
        "sync_with_peer_with_hints env q (unwrap_or (hints_for env ?s1 [q] q) no_hints) my = Some (resp, c, sent)" by auto
      with None f assms(3) have "s' = handle_sync_response env q resp c sent b ?s1" by (simp add: sync_peer_def)
      moreover have "engine_from ?D ?s1 (handle_sync_response env q resp c sent b ?s1)"
        using exchange_keeps [OF sync_engine_from_inv [OF s1] hints_for_ok q(2), where b = b] by simp
      ultimately show ?thesis using s1 by (auto intro: engine_from_trans)
    next
      case False
      with None f assms(3) have "s' = ?s1" by (auto simp: sync_peer_def Let_def split: option.splits)
      with s1 show ?thesis by simp
    qed
  qed
qed

lemma sync_batch_keeps:
  assumes "sync_engine_inv s" "\<forall>p h. hb p = Some h \<longrightarrow> hints_ok env s (sh_replica_hints h)"
  shows "engine_from (hint_delivered env (se_epoch s) (set (se_store s))) s (snd (fold (sync_peer env b my) batch (hb, s)))"
  using assms
proof (induction batch arbitrary: hb s)
  case Nil
  then show ?case by (simp add: engine_from_def sync_engine_inv_def proofs_from_refl)
next
  case (Cons peer batch)
  obtain hb' s' where sp: "sync_peer env b my peer (hb, s) = (hb', s')" by fastforce
  note step = sync_peer_keeps [OF Cons.prems sp]
  have same: "se_store s' = se_store s" "se_epoch s' = se_epoch s" using step(1) by (simp_all add: engine_from_def)
  have "engine_from (hint_delivered env (se_epoch s') (set (se_store s'))) s' (snd (fold (sync_peer env b my) batch (hb', s')))"
    using Cons.prems(2) step(2) same by (intro Cons.IH sync_engine_from_inv [OF step(1)]) (auto simp: hints_ok_def split: if_splits)
  with step(1) same sp show ?case by (auto intro: engine_from_trans)
qed

lemma finish_cycle_keeps:
  assumes "sync_engine_inv s" "distinct (sv_neighbors env)"
  shows "sync_engine_inv (finish_cycle env b s)" "proofs_from D (se_proofs s) (se_proofs (finish_cycle env b s))"
    "set (se_store (finish_cycle env b s)) \<subseteq> set (se_store s)" "se_epoch (finish_cycle env b s) = sat_add64 (se_epoch s) 1"
proof -
  obtain penv ppenv st where fc: "\<exists>events r. run_prune_pass_with_context penv ppenv
      \<lparr>pr_store = se_store s, pr_paid_list = se_paid s, pr_sync = se_sync s, pr_proofs = se_proofs s\<rparr> = (r, events, st)"
    "se_store (finish_cycle env b s) = pr_store st" "se_proofs (finish_cycle env b s) = pr_proofs st"
    "se_sync (finish_cycle env b s) = start_new_cycle (sv_neighbors env) (pr_sync st)"
    "se_queues (finish_cycle env b s) = se_queues s" "se_epoch (finish_cycle env b s) = sat_add64 (se_epoch s) 1"
    by (simp add: finish_cycle_def Let_def split_beta) (metis prod.collapse)
  then obtain r events where p: "run_prune_pass_with_context penv ppenv
      \<lparr>pr_store = se_store s, pr_paid_list = se_paid s, pr_sync = se_sync s, pr_proofs = se_proofs s\<rparr> = (r, events, st)" by blast
  have keep: "proofs_from D (se_proofs s) (pr_proofs st)" "set (pr_store st) \<subseteq> set (se_store s)" "cycle_inv (pr_sync st)" for D
    using prune_keeps(1) [OF p, of D] prune_keeps(2,3) [OF p] assms(1) by (simp_all add: sync_engine_inv_def)
  have "cycle_inv (start_new_cycle (sv_neighbors env) (pr_sync st))"
    using cycle_inv_step [OF keep(3) sync_step.new_cycle [OF assms(2)]] .
  with keep fc assms(1) show "sync_engine_inv (finish_cycle env b s)" by (simp add: sync_engine_inv_def proofs_from_def)
  show "proofs_from D (se_proofs s) (se_proofs (finish_cycle env b s))" "set (se_store (finish_cycle env b s)) \<subseteq> set (se_store s)"
    "se_epoch (finish_cycle env b s) = sat_add64 (se_epoch s) 1" using keep fc by simp_all
qed

lemma sync_request_keeps:
  assumes "sync_engine_inv s"
  shows "engine_from (\<lambda>k p pr. p = source \<and> sent \<and> \<not> nq_bootstrapping request \<and> sv_in_rt env p \<and>
      pr = \<lparr>hinted_at_epoch = se_epoch s, hinted_at = sv_now env p\<rparr> \<and>
      k \<in> set (nr_replica_hints (fst (fst (on_neighbor_sync_request env source request sent s)))) \<and> k \<in> set (se_store s)) s
    (snd (on_neighbor_sync_request env source request sent s))" (is "engine_from ?D s _")
proof -
  let ?b = "se_bootstrapping s"
  let ?s1 = "ingest_and_trigger env source (nq_commitment request) s"
  obtain cur com where g: "current_for_gossip (sv_now env source) (se_commitments ?s1) = (cur, com)" by fastforce
  let ?s2 = "?s1\<lparr>se_commitments := com\<rparr>"
  let ?sent = "build_replica_hints_for_peer_with_close_groups (sv_closest env) (stored_keys env s) source (close_group_size (sv_config env))"
  have keys: "stored_keys env ?s2 = stored_keys env s" by (simp add: stored_keys_def)
  have resp: "nr_replica_hints (fst (fst (on_neighbor_sync_request env source request sent s))) = map rh_key ?sent"
    by (simp add: on_neighbor_sync_request_def handle_neighbor_sync_request_def handle_sync_request_with_proofs_def Let_def g keys)
  have stored: "rh_key h \<in> set (se_store s)" if "h \<in> set ?sent" for h
    using that by (auto simp: build_replica_hints_for_peer_with_close_groups_def stored_keys_def dest!: replica_hint_loop_ok split: if_splits)
  show ?thesis
  proof (cases "sv_in_rt env source")
    case False
    with assms show ?thesis
      by (simp add: on_neighbor_sync_request_def handle_neighbor_sync_request_def handle_sync_request_with_proofs_def Let_def g
          engine_from_def sync_engine_inv_def proofs_from_refl)
  next
    case True
    have rec: "proofs_from ?D (se_proofs s) (record_sent_replica_hints source ?sent (se_epoch s) (sv_now env source) (se_proofs s))"
      if "sent" "\<not> nq_bootstrapping request"
      using assms that True stored unfolding resp by (intro record_hints_from) (auto simp: sync_engine_inv_def)
    have inv: "queues_inv (se_queues s)" "cycle_inv (se_sync s)" "proofs_from ?D (se_proofs s) (se_proofs s)"
      using assms by (simp_all add: sync_engine_inv_def proofs_from_refl)
    from True inv rec show ?thesis unfolding resp
      by (simp add: on_neighbor_sync_request_def handle_neighbor_sync_request_def handle_sync_request_with_proofs_def Let_def g
          engine_from_def admit_from_keeps keys)
  qed
qed

lemma audit_result_keeps:
  assumes "sync_engine_inv s"
  shows "sync_engine_inv (handle_audit_result config now result s) \<and> se_proofs (handle_audit_result config now result s) = se_proofs s"
proof -
  have ok: "cycle_inv (se_sync s)" using assms by (simp add: sync_engine_inv_def)
  have clear: "cycle_inv (snd (clear_active_bootstrap_claim p (se_sync s)))" for p
    using cycle_inv_step [OF ok sync_step.clear] .
  have obs: "cycle_inv (snd (observe_bootstrap_claim p now g (se_sync s)))" for p g
    using cycle_inv_step [OF ok sync_step.observe] .
  show ?thesis
  proof (cases result)
    case (TickBootstrapClaim p)
    with assms obs [of p "bootstrap_claim_grace_period config"] show ?thesis
      by (auto simp: handle_audit_result_def sync_engine_inv_def Let_def split: prod.splits bootstrap_claim_observation.splits)
  qed (use assms clear in \<open>auto simp: handle_audit_result_def sync_engine_inv_def split: failure_evidence.splits\<close>)
qed

section \<open>Property\<close>


section \<open>Example\<close>

definition example_engine :: sync_engine where
  "example_engine = \<lparr>se_bootstrapping = False, se_boot = bootstrap_new, se_sync = new_cycle [2], se_history = [], se_epoch = 3,
     se_proofs = repair_proofs_new, se_queues = queues_new, se_store = [1], se_paid = pl_new {}, se_commitments = state_new,
     se_ingest = ingest_new, se_cooldown = [], se_audits = [], se_trust = []\<rparr>"

definition example_sync_env :: sync_env where
  "example_sync_env = \<lparr>sv_self = 9, sv_config = default_config 7, sv_closest = \<lambda>_ _. [2, 9], sv_in_rt = \<lambda>_. True,
     sv_keys_ok = True, sv_paid_ok = True, sv_exists_ok = \<lambda>_. True, sv_contains_ok = \<lambda>_. True,
     sv_ingest = example_ingest_env \<circ> (\<lambda>_. 0), sv_lottery = \<lambda>_. False, sv_now = \<lambda>_. 5, sv_batch_now = 5,
     sv_prune = example_prune_env, sv_paid_prune = example_paid_env, sv_neighbors = [2],
     sv_answer = \<lambda>_ _ _. Some (\<lparr>nr_replica_hints = [], nr_paid_hints = [], nr_bootstrapping = False\<rparr>, None)\<rparr>"

lemma next_peer_simps:
  "ns_priority_order st = [] \<Longrightarrow> \<not> ns_cursor st < length (ns_order st) \<Longrightarrow> select_next_sync_peer now cd st = (None, st)"
  "ns_priority_order st = [] \<Longrightarrow> ns_cursor st < length (ns_order st) \<Longrightarrow> ns_last_sync_times st = Map.empty \<Longrightarrow>
     select_next_sync_peer now cd st = (Some (ns_order st ! ns_cursor st), st\<lparr>ns_cursor := ns_cursor st + 1\<rparr>)"
proof -
  have none: "ns_priority_order st = [] \<Longrightarrow> next_priority now cd st = (None, st)" by (subst next_priority.simps) simp
  show "ns_priority_order st = [] \<Longrightarrow> \<not> ns_cursor st < length (ns_order st) \<Longrightarrow> select_next_sync_peer now cd st = (None, st)"
    by (simp add: select_next_sync_peer_def none) (subst next_in_order.simps, simp)
  show "ns_priority_order st = [] \<Longrightarrow> ns_cursor st < length (ns_order st) \<Longrightarrow> ns_last_sync_times st = Map.empty \<Longrightarrow>
     select_next_sync_peer now cd st = (Some (ns_order st ! ns_cursor st), st\<lparr>ns_cursor := ns_cursor st + 1\<rparr>)"
    by (simp add: select_next_sync_peer_def none) (subst next_in_order.simps, simp add: peer_on_cooldown_def)
qed

lemma example_batch:
  "\<exists>sync. select_sync_batch (neighbor_sync_peer_count (default_config 7)) 5 cd (new_cycle [2]) = ([2], sync)"
proof -
  have "neighbor_sync_peer_count (default_config 7) = Suc (Suc (Suc (Suc 0)))"
    by (simp add: default_config_def NEIGHBOR_SYNC_PEER_COUNT_def)
  then show ?thesis by (simp add: next_peer_simps new_cycle_def)
qed

lemma example_hints:
  "se_store s = [1] \<Longrightarrow> se_paid s = pl_new {} \<Longrightarrow> hints_for example_sync_env s [2] 2 =
     Some \<lparr>sh_replica_hints = [\<lparr>rh_key = 1, rh_close_peers = {2, 9}\<rparr>], sh_paid_hints = []\<rparr>"
  by (simp add: hints_for_def build_sync_hints_for_peers_def stored_keys_def example_sync_env_def pl_all_keys_def pl_new_def
      push_replica_hint_def Let_def)

lemma example_round:
  "\<exists>s. run_neighbor_sync_round example_sync_env example_engine =
     handle_sync_response example_sync_env 2 \<lparr>nr_replica_hints = [], nr_paid_hints = [], nr_bootstrapping = False\<rparr> None
       [\<lparr>rh_key = 1, rh_close_peers = {2, 9}\<rparr>] False s \<and> se_proofs s = [] \<and> se_epoch s = 3"
proof -
  let ?env = example_sync_env
  obtain sync where b: "select_sync_batch (neighbor_sync_peer_count (sv_config ?env)) (sv_batch_now ?env)
      (neighbor_sync_cooldown (sv_config ?env)) (se_sync example_engine) = ([2], sync)"
    using example_batch by (auto simp: example_sync_env_def example_engine_def)
  let ?s2 = "example_engine\<lparr>se_sync := sync\<rparr>"
  obtain cur com where g: "current_for_gossip (sv_batch_now ?env) (se_commitments ?s2) = (cur, com)" by fastforce
  let ?s3 = "?s2\<lparr>se_commitments := com\<rparr>"
  have "\<not> is_cycle_complete (se_sync example_engine)" "\<not> se_bootstrapping example_engine"
    by (simp_all add: is_cycle_complete_def example_engine_def new_cycle_def)
  with b g have "run_neighbor_sync_round ?env example_engine =
      snd (sync_peer ?env False (map_option bc_commitment cur) 2 (hints_for ?env ?s3 [2], ?s3))"
    by (simp add: run_neighbor_sync_round_def Let_def)
  moreover have "hints_for ?env ?s3 [2] 2 = Some \<lparr>sh_replica_hints = [\<lparr>rh_key = 1, rh_close_peers = {2, 9}\<rparr>], sh_paid_hints = []\<rparr>"
    by (rule example_hints) (simp_all add: example_engine_def)
  moreover have "sv_answer ?env = (\<lambda>_ _ _. Some (\<lparr>nr_replica_hints = [], nr_paid_hints = [], nr_bootstrapping = False\<rparr>, None))"
    by (simp add: example_sync_env_def)
  moreover have "se_proofs ?s3 = []" "se_epoch ?s3 = 3" by (simp_all add: example_engine_def repair_proofs_new_def)
  ultimately show ?thesis by (intro exI [of _ ?s3]) (simp add: sync_peer_def sync_with_peer_with_hints_def)
qed


end
