(* ===== verification/Spec2Isabelle.thy ===== *)
theory Spec2Isabelle
  imports Scheduling Quorum Subtree Recent_Provers Commitment_State Repair_Proofs Neighbor_Sync
    Admission Verification_Cycle Storage_Audit Responsible_Audit
    Bootstrap_Sync Paid_Pruning Lmdb_Storage First_Audit Possession Audit_Responder Sync_Round
begin

text \<open>
  Verification of ant-node, the storage node of a peer-to-peer network of content-addressed chunks:
  its chunk store, payment verification, quoting and replication (src/src/storage, src/src/payment,
  src/src/replication).

  \<^bold>\<open>The program.\<close> A client asks nodes for quotes, pays one of them and sends the chunk with the proof of
  payment. The chunk protocol checks size, address, disk and neighbourhood, has the payment verified,
  stores the chunk and hands it to fresh replication, which offers it to the close group and later
  checks that the group has it. Independently of writes, neighbours exchange hints about keys; hinted
  keys are admitted, verified by a quorum of peers or by their paid entries, and fetched. Records and
  paid entries that this node is no longer responsible for are pruned once the close group has proved
  that it holds them. Nodes sign Merkle commitments to what they store, gossip them, price their
  quotes by them and are audited against them: by gossip with a lottery and a cooldown, by a first
  audit of every commitment that backed a payment, chunk by chunk, after a fresh write, and before a
  prune. Results feed a trust engine outside this repository; here they are lists of events.

  \<^bold>\<open>Theories and sources.\<close> (Paths below src/src/.)
  \<^item> \<open>Prelude\<close>: machine integers with saturation, byte arrays, association lists for hash maps, the
    locale \<open>invariant_system\<close> by which a step relation keeps an invariant.
  \<^item> \<open>Types\<close>, \<open>Config\<close>: replication/types.rs and config.rs: pipeline data, constants, validation of the
    configuration, thresholds and deadlines.
  \<^item> \<open>Scheduling\<close>: replication/scheduling.rs and the fetch worker: pending, queued and in-flight keys, with
    the fetch queue behind the locale \<open>max_heap\<close>. One stage per key, capacities and per-sender quotas in
    every reachable state, no starvation of a sender below its quota, each source tried once.
  \<^item> \<open>Quorum\<close>: replication/quorum.rs: targets, evidence, evaluation. A verified outcome is backed by enough
    peers, failing fast is exact, evidence comes only from the peer's own reply.
  \<^item> \<open>Commitment\<close>, \<open>Subtree\<close>: commitment.rs and subtree.rs: Merkle tree (locale \<open>level_builder\<close>), paths,
    nonce-selected subtree proofs. A verifying path or proof pins the committed entries unless the hash
    collides on the inputs concerned.
  \<^item> \<open>Commitment_State\<close>: commitment_state.rs: retention of gossiped commitments, persistence. Bounded,
    answerable for the whole window under any interleaving, kept over a restart.
  \<^item> \<open>Recent_Provers\<close>, \<open>Repair_Proofs\<close>: recent_provers.rs and types.rs: holder credit, and the evidence that a
    peer was told about a key before it is blamed for it.
  \<^item> \<open>Neighbor_Sync\<close>: neighbor_sync.rs and types.rs: sync cycles, hint building, bootstrap claims. Every
    neighbour is reached, one grace window per peer, the batched builder equals the single one.
  \<^item> \<open>Bootstrap\<close>, \<open>Admission\<close>, \<open>Verification_Cycle\<close>, \<open>Bootstrap_Sync\<close>: bootstrap.rs, admission.rs and the workers
    of mod.rs. Admission is exact; a verification pass refines a per-key specification (locale
    \<open>keyed_step\<close>); in every interleaving of bootstrap sync and workers, drained means that nothing is open.
  \<^item> \<open>Audit_Messages\<close>, \<open>Storage_Audit\<close>, \<open>Responsible_Audit\<close>: protocol.rs, storage_commitment_audit.rs,
    audit.rs: both sides of the two audits. Honest peers pass; a pass or a blame means what it says.
  \<^item> \<open>Gossip_Audit\<close>, \<open>First_Audit\<close>: mod.rs: ingestion of commitments, cooldown, side effects of results,
    rotation, and the drainer that gives each monetised commitment one audit.
  \<^item> \<open>Paid_List\<close>, \<open>Record_Pruning\<close>, \<open>Paid_Pruning\<close>: paid_list.rs and pruning.rs: nothing is deleted without
    the evidence the code asks for, at both looks.
  \<^item> \<open>Lmdb_Storage\<close>: storage/lmdb.rs: the chunk store with interleaved calls of put, delete and get.
  \<^item> \<open>Verified_Cache\<close>, \<open>Payment_Verifier\<close>: payment/cache.rs and verifier.rs: data is let in only for a proof
    that this or an earlier call had verified.
  \<^item> \<open>Quote_Generator\<close>, \<open>Chunk_Handler\<close>: payment/quote.rs, metrics.rs and storage/handler.rs: own quotes are
    acceptable and answerable; what a successful and a refused PUT mean.
  \<^item> \<open>Fresh_Replication\<close>, \<open>Possession\<close>: fresh.rs, possession.rs and the handlers of mod.rs for offers, paid
    notices, fetches and verification requests.
  \<^item> \<open>Audit_Responder\<close>: mod.rs: fair admission of incoming challenges, and what it does to a prune pass.
  \<^item> \<open>Sync_Round\<close>: mod.rs: the neighbour-sync round, requests and responses over the state of all the
    components they touch: their invariants are kept together, and a repair proof means a delivered hint.

  \<^bold>\<open>How state and operations correspond.\<close> A struct is a record with its fields, an enum a datatype. A
  method on \<open>&mut self\<close>, or a critical section under a lock, is a function that returns the new state.
  A task that waits is split where it releases its locks, and the interleavings are the paths of a step
  relation (\<open>queue_step\<close>, \<open>retention_step\<close>, \<open>sync_step\<close>, \<open>engine_step\<close>, \<open>store_step\<close>, \<open>responder_step\<close>) or a
  list of events (\<open>Repair_Proofs\<close>, \<open>Recent_Provers\<close>, \<open>Gossip_Audit\<close>, \<open>First_Audit\<close>). A PUT, an offer, one audit and one sync round run
  in one step, as if no other task ran while they wait; where the world may change
  during a wait and the code looks again, the second look has arguments of its own. Errors are
  constructors, without the message text. Peer ids, addresses and hashes are 256-bit words; times are natural numbers of nanoseconds. Counters of 32 and 64 bits saturate, wrap or are
  checked as the code does it.

  \<^bold>\<open>Code outside the repository.\<close> Parameters, with documented behaviour as hypotheses where a proof needs
  it: BLAKE3, signatures, serialisation, the routing table (closest-peer functions), message delivery,
  the chain, the price curve, random draws, the clock, and the LRU containers of the \<open>lru\<close> crate
  (\<open>lrus_ok\<close>, satisfied by a list cache). No hypothesis says that BLAKE3 is injective: where it matters the
  conclusion names the collision.

  \<^bold>\<open>Bounds and termination.\<close> All definitions are total, with measures where the recursion is not
  structural; the only loop that need not end, the drawing of distinct random indices in \<open>Subtree\<close>, is a
  partial function into option. There is no fuel. Iteration orders of hash maps are arguments or
  arbitrary lists.

  \<^bold>\<open>Not modelled.\<close> Start-up, shutdown and task spawning of the engine, the loops that wait between rounds
  and ticks, and the file that holds the retention snapshot (glue around the network crate and the file
  system; snapshot and restore themselves are in \<open>Commitment_State\<close>); message encoding (derived by another
  crate); wallet, price and proof types (re-exported from other crates); node assembly, configuration
  files, command line, development network; self-upgrade (files, HTTP, process control); logging.
\<close>

end
